(* ===== verification/Go_Prelude.thy ===== *)
theory Go_Prelude
  imports Main "HOL-Library.Word" "HOL-Library.Monad_Syntax"
begin

unbundle bit_operations_syntax

text \<open>
  The part of Go the sources use everywhere, and the lemmas the components share.

  \<^item> Machine integers are words of their width (\<open>u8\<close>, \<open>u16\<close>, \<open>u32\<close>, \<open>u64\<close>), lengths
    and offsets (Go's \<open>int\<close>, never negative where the sources use it as an index) are \<open>nat\<close>.
  \<^item> A byte slice is a list of bytes. A slice is modelled with \<open>cap\<close> equal to \<open>len\<close>: every
    access past the length is a run-time panic.
  \<^item> A computation that may panic has an \<open>option\<close> result and \<open>None\<close> is the panic, so that
    the \<open>do\<close> notation of the library's option monad reads like the sequence of Go statements.
    An \<^emph>\<open>error value\<close> of Go is an ordinary value inside that option.
  \<^item> A method that writes through a slice returns the new contents of the slice; a method that
    writes through a sub-slice (\<open>ipHdr.Payload()\<close>) acts through \<open>on_slice\<close>, which puts the
    written window back, so that the two views of one buffer stay aliased as in Go.
\<close>

named_theorems go_defs \<open>definitions of the checked byte accesses\<close>
named_theorems go_simps \<open>checked accesses inside the bounds\<close>

type_synonym u8 = "8 word"
type_synonym u16 = "16 word"
type_synonym u32 = "32 word"
type_synonym u64 = "64 word"
type_synonym bytes = "u8 list"

section \<open>Bytes, indices and slices\<close>

definition byte_at :: "bytes \<Rightarrow> nat \<Rightarrow> u8 option" where
  "byte_at b i = (if i < length b then Some (b ! i) else None)"

definition set_byte :: "bytes \<Rightarrow> nat \<Rightarrow> u8 \<Rightarrow> bytes option" where
  "set_byte b i v = (if i < length b then Some (b[i := v]) else None)"

definition slice :: "'a list \<Rightarrow> nat \<Rightarrow> nat \<Rightarrow> 'a list option" where
  "slice b lo hi = (if lo \<le> hi \<and> hi \<le> length b then Some (take (hi - lo) (drop lo b)) else None)"

definition slice_from :: "'a list \<Rightarrow> nat \<Rightarrow> 'a list option" where
  "slice_from b lo = (if lo \<le> length b then Some (drop lo b) else None)"

text \<open>The built-in \<open>copy(dst, src)\<close>: the shorter length wins, the rest of \<open>dst\<close> is kept.\<close>

definition go_copy :: "'a list \<Rightarrow> 'a list \<Rightarrow> 'a list" where
  "go_copy dst src = take (length dst) src @ drop (length src) dst"

text \<open>A statement that works on the sub-slice \<open>b[lo:hi]\<close> in place.\<close>

definition on_slice :: "nat \<Rightarrow> nat \<Rightarrow> ('a list \<Rightarrow> 'a list option) \<Rightarrow> 'a list \<Rightarrow> 'a list option" where
  "on_slice lo hi f b = do {
     s \<leftarrow> slice b lo hi;
     s' \<leftarrow> f s;
     Some (take lo b @ s' @ drop hi b) }"

text \<open>Writing all of \<open>s\<close> at offset \<open>lo\<close>, and \<open>copy(b[lo:hi], src)\<close>.\<close>

definition put_slice :: "nat \<Rightarrow> 'a list \<Rightarrow> 'a list \<Rightarrow> 'a list" where
  "put_slice lo s b = take lo b @ s @ drop (lo + length s) b"

definition copy_into :: "nat \<Rightarrow> nat \<Rightarrow> 'a list \<Rightarrow> 'a list \<Rightarrow> 'a list option" where
  "copy_into lo hi src b = on_slice lo hi (\<lambda>s. Some (go_copy s src)) b"

text \<open>A Go \<open>if\<close> with a panic, and the assertion that a panic did not happen.\<close>

definition guard_panic :: "bool \<Rightarrow> unit option" where
  "guard_panic bad = (if bad then None else Some ())"

text \<open>\<open>returns m Q\<close>: the computation \<open>m\<close> does not panic and its result satisfies \<open>Q\<close>.\<close>

definition returns :: "'a option \<Rightarrow> ('a \<Rightarrow> bool) \<Rightarrow> bool" where
  "returns m Q \<longleftrightarrow> (case m of None \<Rightarrow> False | Some x \<Rightarrow> Q x)"

text \<open>
  Index loops: \<open>for_all\<close> is a loop that returns \<^verbatim>\<open>false\<close> early, \<open>for_each\<close> one that updates a
  state; both stop at the first panic.
\<close>

fun for_all :: "('i \<Rightarrow> bool option) \<Rightarrow> 'i list \<Rightarrow> bool option" where
  "for_all p [] = Some True"
| "for_all p (i # is) = do { c \<leftarrow> p i; if c then for_all p is else Some False }"

fun for_each :: "('i \<Rightarrow> 's \<Rightarrow> 's option) \<Rightarrow> 'i list \<Rightarrow> 's \<Rightarrow> 's option" where
  "for_each f [] s = Some s"
| "for_each f (i # is) s = do { s \<leftarrow> f i s; for_each f is s }"

section \<open>Byte order\<close>

definition be_nat :: "bytes \<Rightarrow> nat" where
  "be_nat bs = foldl (\<lambda>a x. 256 * a + unat x) 0 bs"

definition le_nat :: "bytes \<Rightarrow> nat" where
  "le_nat bs = foldr (\<lambda>x a. unat x + 256 * a) bs 0"

definition be16 :: "u8 \<Rightarrow> u8 \<Rightarrow> u16" where
  "be16 h l = word_of_nat (256 * unat h + unat l)"

definition hi8 :: "u16 \<Rightarrow> u8" where
  "hi8 v = word_of_nat (unat v div 256)"

definition lo8 :: "u16 \<Rightarrow> u8" where
  "lo8 v = word_of_nat (unat v mod 256)"

definition BE_Uint16 :: "bytes \<Rightarrow> nat \<Rightarrow> u16 option" where
  "BE_Uint16 b off = (if off + 2 \<le> length b then Some (be16 (b ! off) (b ! (off + 1))) else None)"

definition BE_PutUint16 :: "bytes \<Rightarrow> nat \<Rightarrow> u16 \<Rightarrow> bytes option" where
  "BE_PutUint16 b off v =
     (if off + 2 \<le> length b then Some (b[off := hi8 v, off + 1 := lo8 v]) else None)"

definition BE_Uint32 :: "bytes \<Rightarrow> nat \<Rightarrow> u32 option" where
  "BE_Uint32 b off = (if off + 4 \<le> length b then Some (word_of_nat (be_nat (take 4 (drop off b)))) else None)"

definition u32_bytes :: "u32 \<Rightarrow> bytes" where
  "u32_bytes v = [word_of_nat (unat v div 16777216), word_of_nat (unat v div 65536 mod 256),
                  word_of_nat (unat v div 256 mod 256), word_of_nat (unat v mod 256)]"

definition BE_PutUint32 :: "bytes \<Rightarrow> nat \<Rightarrow> u32 \<Rightarrow> bytes option" where
  "BE_PutUint32 b off v =
     (if off + 4 \<le> length b
      then Some (take off b @ u32_bytes v @ drop (off + 4) b) else None)"

text \<open>
  A load of \<open>n\<close> bytes in the byte order of the machine (\<open>le\<close>: little-endian), or of
  \<^verbatim>\<open>binary.LittleEndian\<close> and \<^verbatim>\<open>binary.BigEndian\<close> when the order is given by the code.
\<close>

definition order_nat :: "bool \<Rightarrow> bytes \<Rightarrow> nat" where
  "order_nat le bs = (if le then le_nat bs else be_nat bs)"

definition load :: "bool \<Rightarrow> nat \<Rightarrow> bytes \<Rightarrow> nat \<Rightarrow> 'w::len word option" where
  "load le n b off =
     (if off + n \<le> length b then Some (word_of_nat (order_nat le (take n (drop off b)))) else None)"

text \<open>The functions of \<^verbatim>\<open>math/bits\<close> the sources use.\<close>

definition bits_Add :: "'w::len word \<Rightarrow> 'w word \<Rightarrow> 'w word \<Rightarrow> 'w word \<times> 'w word" where
  "bits_Add x y carry =
     (x + y + carry, if 2 ^ LENGTH('w) \<le> unat x + unat y + unat carry then 1 else 0)"

definition ReverseBytes16 :: "u16 \<Rightarrow> u16" where
  "ReverseBytes16 v = be16 (lo8 v) (hi8 v)"

definition ReverseBytes32 :: "u32 \<Rightarrow> u32" where
  "ReverseBytes32 v = word_of_nat (be_nat (rev (u32_bytes v)))"

section \<open>Computations that return\<close>

lemma returns_Some [simp]: "returns (Some x) Q \<longleftrightarrow> Q x"
  by (simp add: returns_def)

lemma returns_None [simp]: "\<not> returns None Q"
  by (simp add: returns_def)

lemma returns_bind [simp]: "returns (m \<bind> f) Q \<longleftrightarrow> returns m (\<lambda>x. returns (f x) Q)"
  by (cases m) simp_all

lemma returns_if: "returns (if c then m else n) Q \<longleftrightarrow> (if c then returns m Q else returns n Q)"
  by simp

lemma returns_mono: "returns m P \<Longrightarrow> (\<And>x. P x \<Longrightarrow> Q x) \<Longrightarrow> returns m Q"
  by (cases m) simp_all

lemma returns_iff: "returns m Q \<longleftrightarrow> (\<exists>x. m = Some x \<and> Q x)"
  by (cases m) simp_all

lemma returns_eq: "returns m (\<lambda>x. x = y) \<longleftrightarrow> m = Some y"
  by (cases m) simp_all

lemma for_all_Some:
  assumes "\<And>i. i \<in> set is \<Longrightarrow> p i = Some (q i)"
  shows "for_all p is = Some (\<forall>i\<in>set is. q i)"
  using assms by (induction "is") simp_all

lemma for_each_snoc: "for_each f (is @ [i]) s = for_each f is s \<bind> f i"
  by (induction "is" arbitrary: s) (auto split: Option.bind_splits)

section \<open>Lemmas on the accesses\<close>

lemmas access_defs [go_defs] =
  byte_at_def set_byte_def slice_def slice_from_def on_slice_def BE_Uint16_def BE_PutUint16_def
  BE_Uint32_def BE_PutUint32_def guard_panic_def

lemma byte_at_in [go_simps]: "i < length b \<Longrightarrow> byte_at b i = Some (b ! i)"
  by (simp add: byte_at_def)

lemma set_byte_in [go_simps]: "i < length b \<Longrightarrow> set_byte b i v = Some (b[i := v])"
  by (simp add: set_byte_def)

lemma slice_in [go_simps]:
  "lo \<le> hi \<Longrightarrow> hi \<le> length b \<Longrightarrow> slice b lo hi = Some (take (hi - lo) (drop lo b))"
  by (simp add: slice_def)

lemma slice_from_in [go_simps]: "lo \<le> length b \<Longrightarrow> slice_from b lo = Some (drop lo b)"
  by (simp add: slice_from_def)

lemma BE_Uint16_in [go_simps]:
  "off + 2 \<le> length b \<Longrightarrow> BE_Uint16 b off = Some (be16 (b ! off) (b ! (off + 1)))"
  by (simp add: BE_Uint16_def)

lemma BE_PutUint16_in [go_simps]:
  "off + 2 \<le> length b \<Longrightarrow> BE_PutUint16 b off v = Some (b[off := hi8 v, off + 1 := lo8 v])"
  by (simp add: BE_PutUint16_def)

lemma BE_PutUint32_in [go_simps]:
  "off + 4 \<le> length b \<Longrightarrow> BE_PutUint32 b off v = Some (take off b @ u32_bytes v @ drop (off + 4) b)"
  by (simp add: BE_PutUint32_def)

lemma guard_panic_simps [simp]:
  "guard_panic False = Some ()" "guard_panic True = None"
  by (simp_all add: guard_panic_def)

lemma length_go_copy [simp]: "length (go_copy dst src) = length dst"
  by (simp add: go_copy_def)

lemma go_copy_same_length [simp]: "length src = length dst \<Longrightarrow> go_copy dst src = src"
  by (simp add: go_copy_def)

lemma length_put_slice [simp]: "lo + length s \<le> length b \<Longrightarrow> length (put_slice lo s b) = length b"
  by (simp add: put_slice_def)

lemma nth_put_slice:
  "lo + length s \<le> length b \<Longrightarrow> i < length b \<Longrightarrow>
   put_slice lo s b ! i = (if lo \<le> i \<and> i < lo + length s then s ! (i - lo) else b ! i)"
  by (auto simp: put_slice_def nth_append min_def)

lemma take_drop_put_slice [simp]:
  "lo + length s \<le> length b \<Longrightarrow> n = length s \<Longrightarrow> take n (drop lo (put_slice lo s b)) = s"
  by (simp add: put_slice_def)

lemma take_put_slice: "lo + length s \<le> n \<Longrightarrow> take n (put_slice lo s b) = put_slice lo s (take n b)"
  by (cases "n = lo") (auto simp: put_slice_def min_def drop_take)

lemma drop_put_slice: "lo + length s \<le> n \<Longrightarrow> n \<le> length b \<Longrightarrow> drop n (put_slice lo s b) = drop n b"
  by (simp add: put_slice_def)

lemma copy_into_same [go_simps]:
  "length src = hi - lo \<Longrightarrow> lo \<le> hi \<Longrightarrow> hi \<le> length b \<Longrightarrow> copy_into lo hi src b = Some (put_slice lo src b)"
  by (simp add: copy_into_def on_slice_def slice_def put_slice_def go_copy_same_length)

lemma on_slice_in:
  "lo \<le> hi \<Longrightarrow> hi \<le> length b \<Longrightarrow>
   on_slice lo hi f b = f (take (hi - lo) (drop lo b)) \<bind> (\<lambda>s. Some (take lo b @ s @ drop hi b))"
  by (simp add: on_slice_def slice_def)

lemma length_u32_bytes [simp]: "length (u32_bytes v) = 4"
  by (simp add: u32_bytes_def)

subsection \<open>Sixteen-bit big-endian fields\<close>

lemma unat_u8_less [simp]: "unat (x :: u8) < 256"
  using unsigned_less [of x, where 'a = nat] by simp

lemma unat_u16_less [simp]: "unat (x :: u16) < 65536"
  using unsigned_less [of x, where 'a = nat] by simp

lemma unat_u16_le [simp]: "unat (x :: u16) \<le> 65535"
  using unat_u16_less [of x] by linarith

lemma unat_u32_less [simp]: "unat (x :: u32) < 4294967296"
  using unsigned_less [of x, where 'a = nat] by simp

lemma unat_u64_less [simp]: "unat (x :: u64) < 18446744073709551616"
  using unsigned_less [of x, where 'a = nat] by simp

lemma unat_of_nat_small:
  "n < 2 ^ LENGTH('a) \<Longrightarrow> unat (word_of_nat n :: 'a::len word) = n"
  by (simp add: unat_of_nat)

lemma unat_of_nat_u8: "n < 256 \<Longrightarrow> unat (word_of_nat n :: u8) = n"
  by (rule unat_of_nat_small) simp

lemma unat_of_nat_u16: "n < 65536 \<Longrightarrow> unat (word_of_nat n :: u16) = n"
  by (rule unat_of_nat_small) simp

lemma unat_of_nat_u32: "n < 4294967296 \<Longrightarrow> unat (word_of_nat n :: u32) = n"
  by (rule unat_of_nat_small) simp

lemma unat_eqD: "unat x = n \<Longrightarrow> x = word_of_nat n"
  by (drule sym) simp

lemma unat_ucast_mod: "unat (ucast (x :: 'a::len word) :: 'b::len word) = unat x mod 2 ^ LENGTH('b)"
  by (simp add: unsigned_ucast_eq take_bit_eq_mod)

lemma unat_ucast_up:
  assumes "LENGTH('a) \<le> LENGTH('b)"
  shows "unat (ucast (x :: 'a::len word) :: 'b::len word) = unat x"
proof -
  have "unat x < 2 ^ LENGTH('a)" by (rule unsigned_less)
  also have "(2 :: nat) ^ LENGTH('a) \<le> 2 ^ LENGTH('b)" using assms by (intro power_increasing) auto
  finally show ?thesis by (simp add: unat_ucast_mod)
qed

lemma unat_and_ffff: "unat (x AND 0xffff) = unat (x :: 'a::len word) mod 65536"
proof -
  have "x AND 0xffff = take_bit 16 x"
    by (simp add: take_bit_eq_mask mask_eq_exp_minus_1)
  then have "unat (x AND 0xffff) = take_bit 16 (unat x)"
    by (simp only: unsigned_take_bit_eq)
  then show ?thesis by (simp add: take_bit_eq_mod)
qed

lemma unat_and_ffffffff: "unat (x AND 0xffffffff) = unat (x :: 'a::len word) mod 4294967296"
proof -
  have "x AND 0xffffffff = take_bit 32 x"
    by (simp add: take_bit_eq_mask mask_eq_exp_minus_1)
  then have "unat (x AND 0xffffffff) = take_bit 32 (unat x)"
    by (simp only: unsigned_take_bit_eq)
  then show ?thesis by (simp add: take_bit_eq_mod)
qed

lemma unat_drop_bit: "unat (drop_bit n (x :: 'a::len word)) = unat x div 2 ^ n"
  using unat_drop_bit_eq [of n x] by (simp add: drop_bit_eq_div)

lemma unat_plus_small:
  "unat x + unat y < 2 ^ LENGTH('a) \<Longrightarrow> unat (x + y :: 'a::len word) = unat x + unat y"
  by (simp add: unat_word_ariths)

lemma unat_drop_bit_plus:
  assumes "2 * unat v < 2 ^ LENGTH('a)"
  shows "unat (drop_bit n v + v :: 'a::len word) = unat v div 2 ^ n + unat v"
proof -
  have "unat v div 2 ^ n + unat v < 2 ^ LENGTH('a)"
    using assms div_le_dividend [of "unat v" "2 ^ n"] by linarith
  then show ?thesis by (subst unat_plus_small) (simp_all only: unat_drop_bit)
qed

text \<open>\<^verbatim>\<open>(x >> 16) + (x & 0xffff)\<close>\<close>

lemma unat_halves:
  assumes "16 < LENGTH('a)"
  shows "unat (drop_bit 16 x + (x AND 0xffff) :: 'a::len word) = unat x div 65536 + unat x mod 65536"
proof -
  have "unat x div 65536 + unat x mod 65536 \<le> unat x" if "65536 \<le> unat x"
  proof -
    have "unat x div 65536 \<le> 65536 * (unat x div 65536)" by simp
    then show ?thesis using mult_div_mod_eq [of 65536 "unat x"] by linarith
  qed
  then have "unat x div 65536 + unat x mod 65536 \<le> unat x"
    by (cases "65536 \<le> unat x") auto
  also have "unat x < 2 ^ LENGTH('a)" by (rule unsigned_less)
  finally show ?thesis
    by (subst unat_plus_small) (simp_all add: unat_drop_bit unat_and_ffff)
qed

lemma unat_push8:
  assumes "16 \<le> LENGTH('a)"
  shows "unat (push_bit 8 (ucast (b :: u8)) :: 'a::len word) = 256 * unat b"
proof -
  have "256 * unat b < 2 ^ 16" using unat_u8_less [of b] by (simp del: unat_u8_less)
  also have "(2 :: nat) ^ 16 \<le> 2 ^ LENGTH('a)" using assms by (intro power_increasing) auto
  finally have "unat (word_of_nat (256 * unat b) :: 'a word) = 256 * unat b"
    by (rule unat_of_nat_small)
  moreover have "push_bit 8 (ucast b) = (word_of_nat (256 * unat b) :: 'a word)"
    by (simp add: push_bit_eq_mult)
  ultimately show ?thesis by simp
qed

lemma unat_u32_bytes:
  "map unat (u32_bytes v) = [unat v div 16777216, unat v div 65536 mod 256, unat v div 256 mod 256, unat v mod 256]"
  unfolding u32_bytes_def list.map
  by (intro list.inject [THEN iffD2] conjI unat_of_nat_u8 refl) (simp_all add: less_mult_imp_div_less)

lemma unat_be16 [simp]: "unat (be16 h l) = 256 * unat h + unat l"
proof -
  have "256 * unat h + unat l < 65536"
    using unat_u8_less [of h] unat_u8_less [of l] by linarith
  then show ?thesis unfolding be16_def by (rule unat_of_nat_u16)
qed

lemma unat_hi8 [simp]: "unat (hi8 v) = unat v div 256"
  unfolding hi8_def by (rule unat_of_nat_u8) (simp add: less_mult_imp_div_less)

lemma unat_lo8 [simp]: "unat (lo8 v) = unat v mod 256"
  unfolding lo8_def by (rule unat_of_nat_u8) simp

lemma be16_hi8_lo8 [simp]: "be16 (hi8 v) (lo8 v) = v"
  by (simp add: word_unat_eq_iff)

lemma hi8_be16 [simp]: "hi8 (be16 h l) = h"
  by (simp add: word_unat_eq_iff)

lemma lo8_be16 [simp]: "lo8 (be16 h l) = l"
  by (simp add: word_unat_eq_iff)

subsection \<open>Loads\<close>

lemma le_nat_Nil [simp]: "le_nat [] = 0"
  by (simp add: le_nat_def)

lemma le_nat_Cons [simp]: "le_nat (x # xs) = unat x + 256 * le_nat xs"
  by (simp add: le_nat_def)

lemma be_nat_Nil [simp]: "be_nat [] = 0"
  by (simp add: be_nat_def)

lemma be_nat_snoc [simp]: "be_nat (xs @ [x]) = 256 * be_nat xs + unat x"
  by (simp add: be_nat_def)

lemma be_nat_append: "be_nat (xs @ ys) = 256 ^ length ys * be_nat xs + be_nat ys"
proof (induction ys rule: rev_induct)
  case (snoc y ys)
  have "be_nat (xs @ ys @ [y]) = 256 * be_nat (xs @ ys) + unat y"
    by (simp flip: append_assoc)
  with snoc show ?case by (simp add: algebra_simps)
qed simp

lemma be_nat_Cons: "be_nat (x # xs) = 256 ^ length xs * unat x + be_nat xs"
  using be_nat_append [of "[x]" xs] be_nat_snoc [of "[]" x] by simp

lemma be_nat_rev: "be_nat (rev bs) = le_nat bs"
  by (induction bs) simp_all

lemma be_nat_u32_bytes: "be_nat (u32_bytes v) = unat v"
proof -
  have digits: "16777216 * (n div 16777216) + 65536 * (n div 65536 mod 256) +
      256 * (n div 256 mod 256) + n mod 256 = n" for n :: nat
  proof -
    have "n div 65536 = n div 256 div 256" "n div 16777216 = n div 256 div 256 div 256"
      by (simp_all flip: div_mult2_eq)
    moreover have "16777216 * q + 65536 * c + 256 * b + a = 256 * (256 * (256 * q + c) + b) + a"
      for q a b c :: nat by simp
    ultimately show ?thesis by (simp only: mult_div_mod_eq)
  qed
  have "be_nat (u32_bytes v) = foldl (\<lambda>a x. 256 * a + x) 0 (map unat (u32_bytes v))"
    by (simp add: be_nat_def foldl_map)
  then show ?thesis
    using digits [of "unat v"] by (simp add: unat_u32_bytes)
qed

lemma be_nat_bound: "be_nat bs < 256 ^ length bs"
proof (induction bs rule: rev_induct)
  case (snoc x xs)
  have "be_nat (xs @ [x]) < 256 * be_nat xs + 256" by simp
  also have "\<dots> = 256 * Suc (be_nat xs)" by simp
  also have "\<dots> \<le> 256 * 256 ^ length xs" using snoc by (intro mult_le_mono2) simp
  finally show ?case by simp
qed simp

lemma le_nat_bound: "le_nat bs < 256 ^ length bs"
proof (induction bs)
  case (Cons x xs)
  have "le_nat (x # xs) < 256 + 256 * le_nat xs" by simp
  also have "\<dots> = 256 * Suc (le_nat xs)" by simp
  also have "\<dots> \<le> 256 * 256 ^ length xs" using Cons by (intro mult_le_mono2) simp
  finally show ?case by simp
qed simp

lemma order_nat_bound: "order_nat le bs < 256 ^ length bs"
  by (simp add: order_nat_def be_nat_bound le_nat_bound)

lemma returns_load:
  fixes b :: bytes and Q :: "'w::len word \<Rightarrow> bool"
  assumes "off + n \<le> length b" and "8 * n \<le> LENGTH('w)"
    and "\<And>x. unat x = order_nat le (take n (drop off b)) \<Longrightarrow> Q x"
  shows "returns (load le n b off) Q"
proof -
  have "order_nat le (take n (drop off b)) < 256 ^ n"
    using order_nat_bound [of le "take n (drop off b)"] assms(1) by simp
  also have "(256 :: nat) ^ n = 2 ^ (8 * n)"
    by (simp add: power_mult)
  also have "\<dots> \<le> 2 ^ LENGTH('w)"
    using assms(2) by (intro power_increasing) auto
  finally show ?thesis
    using assms(1,3) by (simp add: load_def unat_of_nat_small)
qed

end
