(* ===== verification/Ones_Complement.thy ===== *)
theory Ones_Complement
  imports Go_Prelude
begin

text \<open>
  Ones' complement arithmetic, the mathematics of the internet checksum (RFC 1071), on natural
  numbers. \<open>sum16\<close> is the plain sum of a buffer's big-endian sixteen-bit words, an odd last byte
  padded with a zero byte; \<open>fold16\<close> adds the carries back until sixteen bits are left. The
  reference checksum \<open>rfc1071\<close> is one after the other. An accumulator \<open>a\<close> of any width
  \<^emph>\<open>represents\<close> the sum \<open>n\<close> when both are congruent modulo 65535 and zero together
  (\<open>rep16\<close>); every routine of the sources that computes a checksum keeps such an accumulator.
\<close>

fun sum16 :: "bytes \<Rightarrow> nat" where
  "sum16 [] = 0"
| "sum16 [a] = 256 * unat a"
| "sum16 (a # b # r) = 256 * unat a + unat b + sum16 r"

definition fold16 :: "nat \<Rightarrow> nat" where
  "fold16 n = (if n = 0 then 0 else Suc ((n - 1) mod 65535))"

definition rfc1071 :: "bytes \<Rightarrow> u16 \<Rightarrow> u16" where
  "rfc1071 buf initial = word_of_nat (fold16 (unat initial + sum16 buf))"

definition rep16 :: "nat \<Rightarrow> nat \<Rightarrow> bool" where
  "rep16 a n \<longleftrightarrow> a mod 65535 = n mod 65535 \<and> (a = 0 \<longleftrightarrow> n = 0)"

section \<open>Folding\<close>

lemma fold16_le [simp]: "fold16 n \<le> 65535"
  by (simp add: fold16_def Suc_le_eq)

lemma fold16_less [simp]: "fold16 n < 65536"
  by (rule le_less_trans [OF fold16_le]) simp

lemma fold16_eq_0 [simp]: "fold16 n = 0 \<longleftrightarrow> n = 0"
  by (simp add: fold16_def)

lemma fold16_0 [simp]: "fold16 0 = 0"
  by (simp add: fold16_def)

lemma fold16_mod: "fold16 n mod 65535 = n mod 65535"
proof (cases n)
  case (Suc m)
  then show ?thesis by (simp add: fold16_def mod_Suc_eq)
qed simp

lemma rep16_fold16: "rep16 (fold16 n) n"
  by (simp add: rep16_def fold16_mod)

lemma rep16_unique:
  assumes "rep16 a n" and "a \<le> 65535"
  shows "a = fold16 n"
proof (cases "n = 0")
  case True
  with assms show ?thesis by (simp add: rep16_def)
next
  case False
  with assms have "a \<noteq> 0" and m: "a mod 65535 = fold16 n mod 65535"
    by (auto simp: rep16_def fold16_mod)
  moreover have "fold16 n \<noteq> 0" using False by simp
  ultimately show ?thesis
    using assms(2) fold16_le [of n]
    by (cases "a = 65535"; cases "fold16 n = 65535") auto
qed

lemma fold16_eq_iff: "fold16 m = fold16 n \<longleftrightarrow> rep16 m n"
proof
  assume "fold16 m = fold16 n"
  then show "rep16 m n"
    by (metis fold16_eq_0 fold16_mod rep16_def)
next
  assume "rep16 m n"
  then have "rep16 (fold16 m) n"
    by (simp add: rep16_def fold16_mod)
  then show "fold16 m = fold16 n"
    by (rule rep16_unique) simp
qed

lemma fold16_small: "n \<le> 65535 \<Longrightarrow> fold16 n = n"
  by (rule sym) (simp add: rep16_unique rep16_def)

lemma rep16_refl [simp]: "rep16 n n"
  by (simp add: rep16_def)

lemma rep16_trans [trans]: "rep16 a b \<Longrightarrow> rep16 b c \<Longrightarrow> rep16 a c"
  by (simp add: rep16_def)

lemma rep16_add: "rep16 a m \<Longrightarrow> rep16 b n \<Longrightarrow> rep16 (a + b) (m + n)"
  by (auto simp: rep16_def intro: mod_add_cong)

lemma rep16_mult: "rep16 a m \<Longrightarrow> c mod 65535 \<noteq> 0 \<Longrightarrow> rep16 (c * a) (c * m)"
  by (auto simp: rep16_def intro: mod_mult_cong)

lemma fold16_absorb [simp]:
  "fold16 (fold16 m + n) = fold16 (m + n)" "fold16 (m + fold16 n) = fold16 (m + n)"
  by (simp_all add: fold16_eq_iff rep16_add rep16_fold16)

lemma fold16_fold16 [simp]: "fold16 (fold16 n) = fold16 n"
  using fold16_absorb(1) [of n 0] by simp

lemma rep16_carry:
  assumes "s + c * 65536 = n"
  shows "rep16 (s + c) n"
proof -
  have "n = (s + c) + c * 65535" using assms by simp
  then have "n mod 65535 = (s + c) mod 65535" by (simp only: mod_mult_self1)
  moreover have "s + c = 0 \<longleftrightarrow> n = 0" using assms by auto
  ultimately show ?thesis by (simp add: rep16_def)
qed

lemma rep16_sym: "rep16 a n \<Longrightarrow> rep16 n a"
  by (simp add: rep16_def)

lemma rep16_power: "rep16 (65536 ^ k * n) n"
proof -
  have "(65536 ^ k * n) mod 65535 = ((65536 mod 65535) ^ k * n) mod 65535"
    by (metis mod_mult_left_eq power_mod)
  then show ?thesis by (simp add: rep16_def)
qed

lemma rep16_carry_power:
  assumes "s + c * 65536 ^ k = n"
  shows "rep16 (s + c) n"
  using rep16_sym [OF rep16_add [OF rep16_refl rep16_power]] assms
  by (metis mult.commute)

lemma rep16_add_left: "rep16 a b \<Longrightarrow> rep16 (a + n) (b + n)"
  by (simp add: rep16_add)

lemma rep16_add_right: "rep16 a b \<Longrightarrow> rep16 (n + a) (n + b)"
  by (simp add: rep16_add)

text \<open>Congruence alone, for the incremental updates.\<close>

definition cong16 :: "nat \<Rightarrow> nat \<Rightarrow> bool" where
  "cong16 a b \<longleftrightarrow> a mod 65535 = b mod 65535"

lemma cong16_refl [simp]: "cong16 a a"
  by (simp add: cong16_def)

lemma cong16_sym: "cong16 a b \<Longrightarrow> cong16 b a"
  by (simp add: cong16_def)

lemma cong16_trans [trans]: "cong16 a b \<Longrightarrow> cong16 b c \<Longrightarrow> cong16 a c"
  by (simp add: cong16_def)

lemma cong16_add: "cong16 a b \<Longrightarrow> cong16 c d \<Longrightarrow> cong16 (a + c) (b + d)"
  unfolding cong16_def by (rule mod_add_cong)

lemma cong16_wrap [simp]: "cong16 (a + 65535) a"
  by (simp add: cong16_def)

lemma cong16_fold16: "cong16 (fold16 n) n"
  by (simp add: cong16_def fold16_mod)

lemma cong16_cancel: "cong16 (a + c) (b + c) \<longleftrightarrow> cong16 a b"
proof -
  have "(a + c) mod 65535 = (b + c) mod 65535 \<longleftrightarrow>
      (int a + int c) mod 65535 = (int b + int c) mod 65535"
    using of_nat_eq_iff [where 'a = int, of "(a + c) mod 65535" "(b + c) mod 65535"] by (simp add: zmod_int)
  also have "\<dots> \<longleftrightarrow> int a mod 65535 = int b mod 65535"
    by (simp add: mod_eq_dvd_iff)
  also have "\<dots> \<longleftrightarrow> a mod 65535 = b mod 65535"
    using of_nat_eq_iff [where 'a = int, of "a mod 65535" "b mod 65535"] by (simp add: zmod_int)
  finally show ?thesis by (simp add: cong16_def)
qed

section \<open>The plain sum\<close>

lemma sum16_append: "even (length xs) \<Longrightarrow> sum16 (xs @ ys) = sum16 xs + sum16 ys"
  by (induction xs rule: sum16.induct) auto

lemma sum16_append_zero: "even (length xs) \<Longrightarrow> sum16 (xs @ [a]) = sum16 xs + 256 * unat a"
  by (simp add: sum16_append)

lemma sum16_Cons2: "sum16 (a # b # r) = unat (be16 a b) + sum16 r"
  by simp

lemma sum16_take_drop:
  assumes "even k" and "k \<le> length b"
  shows "sum16 b = sum16 (take k b) + sum16 (drop k b)"
proof -
  have "sum16 (take k b @ drop k b) = sum16 (take k b) + sum16 (drop k b)"
    using assms by (intro sum16_append) simp
  then show ?thesis by simp
qed

lemma drop_Cons2: "k + 1 < length b \<Longrightarrow> drop k b = b ! k # b ! (k + 1) # drop (k + 2) b"
  by (simp add: Cons_nth_drop_Suc)

lemma sum16_field:
  assumes "even k" and "k + 2 \<le> length b"
  shows "sum16 b = sum16 (take k b) + unat (be16 (b ! k) (b ! (k + 1))) + sum16 (drop (k + 2) b)"
  using sum16_take_drop [of k b] assms by (simp add: drop_Cons2)

lemma sum16_put16:
  assumes "even k" and "k + 2 \<le> length b"
  shows "sum16 (b[k := hi8 v, k + 1 := lo8 v]) + unat (be16 (b ! k) (b ! (k + 1))) = sum16 b + unat v"
  using assms by (simp add: sum16_field [of k])

lemma sum16_put_slice:
  assumes "even lo" and "even (length s)" and "lo + length s \<le> length b"
  shows "sum16 (put_slice lo s b) + sum16 (take (length s) (drop lo b)) = sum16 b + sum16 s"
proof -
  have "sum16 b = sum16 (take lo b) + (sum16 (take (length s) (drop lo b)) + sum16 (drop (length s) (drop lo b)))"
    using assms sum16_take_drop [of lo b] sum16_take_drop [of "length s" "drop lo b"] by simp
  moreover have "sum16 (put_slice lo s b) = sum16 (take lo b) + (sum16 s + sum16 (drop (lo + length s) b))"
    using assms by (simp add: put_slice_def sum16_append)
  ultimately show ?thesis by (simp add: add.commute)
qed

lemma sum16_pos: "b \<noteq> [] \<Longrightarrow> b ! 0 \<noteq> 0 \<Longrightarrow> 0 < sum16 b"
  by (cases b rule: sum16.cases) (auto simp: unat_gt_0)

section \<open>The reference checksum\<close>

lemma unat_rfc1071 [simp]: "unat (rfc1071 buf initial) = fold16 (unat initial + sum16 buf)"
  unfolding rfc1071_def by (rule unat_of_nat_u16) simp

lemma rfc1071_eqI: "rep16 (unat v) (unat initial + sum16 buf) \<Longrightarrow> v = rfc1071 buf initial"
  by (simp add: word_unat_eq_iff rep16_unique)

text \<open>Checksums compose over concatenation when the first part has an even length.\<close>

lemma rfc1071_append:
  "even (length xs) \<Longrightarrow> rfc1071 (xs @ ys) initial = rfc1071 ys (rfc1071 xs initial)"
  by (simp add: word_unat_eq_iff sum16_append add.assoc)

lemma rfc1071_valid_iff:
  "rfc1071 buf initial = 0xffff \<longleftrightarrow>
     65535 dvd unat initial + sum16 buf \<and> 0 < unat initial + sum16 buf"
proof -
  have "rfc1071 buf initial = 0xffff \<longleftrightarrow> fold16 (unat initial + sum16 buf) = fold16 65535"
    by (simp add: word_unat_eq_iff fold16_small)
  also have "\<dots> \<longleftrightarrow> rep16 (unat initial + sum16 buf) 65535"
    by (rule fold16_eq_iff)
  finally show ?thesis by (auto simp: rep16_def mod_eq_0_iff_dvd)
qed

lemma rfc1071_valid_cong:
  assumes "cong16 (unat i + sum16 b) (unat j + sum16 c)" and "0 < unat i + sum16 b"
    and "rfc1071 c j = 0xffff"
  shows "rfc1071 b i = 0xffff"
  using assms by (auto simp: rfc1071_valid_iff cong16_def mod_eq_0_iff_dvd [symmetric])

section \<open>Byte order independence\<close>

text \<open>
  A load in the order of a little-endian machine represents 256 times the sum of the big-endian
  words it covers: swapping the bytes of a sum multiplies it by 256 modulo 65535.
\<close>

definition order_scale :: "bool \<Rightarrow> nat" where
  "order_scale le = (if le then 256 else 1)"

lemma rep16_swap_twice: "rep16 (65536 * n) n"
  using rep16_power [of 1 n] by simp

lemma rep16_scale_twice: "rep16 (order_scale le * (order_scale le * n)) n"
  using rep16_swap_twice [of n] by (simp add: order_scale_def)

lemma rep16_scale: "rep16 a n \<Longrightarrow> rep16 (order_scale le * a) (order_scale le * n)"
  by (auto simp: order_scale_def intro: rep16_mult [where c = 256])

lemma rep16_be_nat: "even (length bs) \<Longrightarrow> rep16 (be_nat bs) (sum16 bs)"
proof (induction bs rule: sum16.induct)
  case (3 a b r)
  then have "even (length r)" and IH: "rep16 (be_nat r) (sum16 r)" by simp_all
  then obtain k where "length r = 2 * k" by (auto elim: evenE)
  then have "256 ^ length r = (65536 :: nat) ^ k"
    using power_mult [of "256 :: nat" 2 k] by simp
  then have "be_nat (a # b # r) = 65536 ^ k * (256 * unat a + unat b) + be_nat r"
    by (simp add: be_nat_Cons algebra_simps)
  then show ?case
    using rep16_add [OF rep16_power [of k "256 * unat a + unat b"] IH] by simp
qed simp_all

lemma rep16_le_nat: "even (length bs) \<Longrightarrow> rep16 (le_nat bs) (256 * sum16 bs)"
proof (induction bs rule: sum16.induct)
  case (3 a b r)
  then have IH: "rep16 (le_nat r) (256 * sum16 r)" by simp
  have "rep16 (65536 * le_nat r) (256 * sum16 r)"
    by (rule rep16_trans [OF rep16_swap_twice IH])
  moreover have "rep16 (unat a + 256 * unat b) (256 * (256 * unat a + unat b))"
    using rep16_add [OF rep16_sym [OF rep16_swap_twice] rep16_refl, of "unat a" "256 * unat b"]
    by (simp add: algebra_simps)
  ultimately have "rep16 (unat a + 256 * unat b + 65536 * le_nat r)
      (256 * (256 * unat a + unat b) + 256 * sum16 r)"
    by (intro rep16_add)
  then show ?case by (simp add: algebra_simps)
next
  case (2 a)
  then show ?case by simp
qed simp_all

lemma rep16_order_nat: "even (length bs) \<Longrightarrow> rep16 (order_nat le bs) (order_scale le * sum16 bs)"
  by (simp add: order_nat_def order_scale_def rep16_be_nat rep16_le_nat)

text \<open>Moving a buffer by one byte swaps the halves of every word.\<close>

lemma rep16_shift: "rep16 (256 * unat b + 256 * sum16 r) (sum16 (b # r))"
proof (induction r arbitrary: b rule: induct_list012)
  case (3 x y zs)
  have "rep16 (65536 * unat x + (256 * unat y + 256 * sum16 zs)) (unat x + sum16 (y # zs))"
    by (intro rep16_add rep16_swap_twice 3)
  then have "rep16 (256 * unat b + (65536 * unat x + (256 * unat y + 256 * sum16 zs)))
                   (256 * unat b + (unat x + sum16 (y # zs)))"
    by (rule rep16_add_right)
  then show ?case by (simp add: algebra_simps)
next
  case (2 x)
  show ?case using rep16_add_right [OF rep16_swap_twice, of "256 * unat b" "unat x"] by simp
qed simp

lemma rep16_ReverseBytes16: "rep16 (unat (ReverseBytes16 v)) (256 * unat v)"
proof -
  have *: "65536 * q + 256 * m = 256 * (q * 256 + m)" for q m :: nat
    by simp
  have "rep16 (unat v div 256 + 256 * (unat v mod 256)) (65536 * (unat v div 256) + 256 * (unat v mod 256))"
    by (intro rep16_add_left rep16_sym [OF rep16_swap_twice])
  also have "65536 * (unat v div 256) + 256 * (unat v mod 256) = 256 * unat v"
    unfolding * by (simp only: div_mult_mod_eq)
  finally show ?thesis by (simp add: ReverseBytes16_def add.commute)
qed

lemma unat_ReverseBytes32: "unat (ReverseBytes32 v) = le_nat (u32_bytes v)"
  unfolding ReverseBytes32_def be_nat_rev
  by (rule unat_of_nat_u32) (use le_nat_bound [of "u32_bytes v"] in simp)

lemma rep16_ReverseBytes32: "rep16 (unat (ReverseBytes32 v)) (256 * unat v)"
proof -
  have "rep16 (sum16 (u32_bytes v)) (unat v)"
    using rep16_sym [OF rep16_be_nat, of "u32_bytes v"] by (simp add: be_nat_u32_bytes)
  then have "rep16 (256 * sum16 (u32_bytes v)) (256 * unat v)"
    by (rule rep16_mult) simp
  with rep16_le_nat [of "u32_bytes v"] show ?thesis
    unfolding unat_ReverseBytes32 by (auto intro: rep16_trans)
qed

section \<open>Folding an accumulator in halves\<close>

lemma rep16_halves: "rep16 (n div 65536 ^ k + n mod 65536 ^ k) n"
proof -
  have "n mod 65536 ^ k + n div 65536 ^ k * 65536 ^ k = n" by (rule mod_div_mult_eq)
  then have "rep16 (n mod 65536 ^ k + n div 65536 ^ k) n" by (rule rep16_carry_power)
  then show ?thesis by (simp only: add.commute)
qed

lemma rep16_end_around:
  assumes "P = 65536 ^ k" and "n + 2 \<le> 2 * P"
  shows "rep16 ((n div P + n) mod P) n"
proof (cases "n < P")
  case True
  then show ?thesis by simp
next
  case False
  define r where "r = n - P"
  with False assms have n: "n = P + r" "r + 1 < P" by auto
  then have "n div P = 1" by (simp add: div_add_self1)
  with n have "(n div P + n) mod P = (P + (r + 1)) mod P" by (simp add: add.commute)
  also have "\<dots> = (r + 1) mod P" by (rule mod_add_self1)
  also have "\<dots> = r + 1" using n(2) by (rule mod_less)
  finally show ?thesis
    using rep16_carry_power [of r 1 k n] n assms(1) by simp
qed

lemma halves_small:
  assumes "n \<le> 131070"
  shows "n div 65536 + n mod 65536 \<le> (65535 :: nat)"
proof (cases "n < 65536")
  case False
  then have "n = 65536 + (n - 65536)" "n - 65536 \<le> 65534" using assms by simp_all
  then obtain r where r: "n = 65536 + r" "r \<le> 65534" by blast
  then have "n div 65536 = 1" "n mod 65536 = r" by (simp_all add: div_add_self1)
  with r(2) show ?thesis by simp
qed simp

lemma halves_bound: "n < 65536 * 65536 \<Longrightarrow> n div 65536 + n mod 65536 \<le> (131070 :: nat)"
  using less_mult_imp_div_less [of n 65536 65536] mod_less_divisor [of 65536 n] by linarith

end
