(* ===== verification/Checksum_Interface.thy ===== *)
theory Checksum_Interface
  imports Ones_Complement
begin

text \<open>
  What the rest of the stack relies on of a checksum routine, as an interface: the routine does
  not panic and its result represents the sum of the initial value and the words of the buffer.
  The lemmas the header code needs, that checksums compose, that storing the complement makes a
  buffer verify, and that two routines agree, are proved once from that contract. Every checksum
  routine of the sources is an instance (theories \<open>Gtcpip_Checksum\<close> and \<open>TSChecksum\<close>).
\<close>

section \<open>Complements\<close>

lemma unat_NOT16: "unat (NOT c) = 65535 - unat (c :: u16)"
proof -
  have "NOT c = -1 - c" by (simp add: not_eq_complement)
  moreover have "unat (-1 - c) = unat (-1 :: u16) - unat c"
    by (rule unat_sub) simp
  ultimately show ?thesis by (simp add: unsigned_minus_1_eq_mask mask_eq_exp_minus_1)
qed

lemma NOT16_plus: "unat c + unat (NOT (c :: u16)) = 65535"
  using unat_u16_le [of c] by (simp add: unat_NOT16)

text \<open>A stored complement makes the whole verify, and the other way round.\<close>

lemma rfc1071_valid_complement:
  assumes "unat initial + sum16 buf = n + unat (NOT (word_of_nat (fold16 n) :: u16))"
  shows "rfc1071 buf initial = 0xffff"
proof -
  have f: "unat (word_of_nat (fold16 n) :: u16) = fold16 n"
    by (rule unat_of_nat_u16) simp
  have "rep16 (n + (65535 - fold16 n)) (fold16 n + (65535 - fold16 n))"
    by (rule rep16_add_left [OF rep16_sym [OF rep16_fold16]])
  then have "rep16 (unat initial + sum16 buf) 65535"
    using assms f by (simp add: unat_NOT16)
  then show ?thesis
    unfolding rfc1071_valid_iff by (auto simp: rep16_def mod_eq_0_iff_dvd)
qed

lemma rfc1071_put_complement:
  assumes "even k" and "k + 2 \<le> length b" and "b ! k = 0" and "b ! (k + 1) = 0"
  shows "rfc1071 (b[k := hi8 (NOT (rfc1071 b initial)), k + 1 := lo8 (NOT (rfc1071 b initial))]) initial = 0xffff"
proof (rule rfc1071_valid_complement)
  show "unat initial + sum16 (b[k := hi8 (NOT (rfc1071 b initial)), k + 1 := lo8 (NOT (rfc1071 b initial))]) =
        unat initial + sum16 b + unat (NOT (word_of_nat (fold16 (unat initial + sum16 b)) :: u16))"
    using sum16_put16 [OF assms(1,2), of "NOT (rfc1071 b initial)"] assms(3,4)
    by (simp add: rfc1071_def)
qed

section \<open>The interface\<close>

locale checksum_routine =
  fixes ck :: "bytes \<Rightarrow> u16 \<Rightarrow> u16 option"
  assumes ck_returns: "returns (ck buf initial) (\<lambda>v. rep16 (unat v) (unat initial + sum16 buf))"
begin

lemma ck_eq: "ck buf initial = Some (rfc1071 buf initial)"
  using ck_returns [of buf initial] by (auto simp: returns_iff dest: rfc1071_eqI)

lemma ck_append: "even (length xs) \<Longrightarrow> ck (xs @ ys) initial = ck xs initial \<bind> ck ys"
  by (simp add: ck_eq rfc1071_append)

lemma ck_put_complement:
  assumes "even k" and "k + 2 \<le> length b" and "b ! k = 0" and "b ! (k + 1) = 0"
    and "ck b initial = Some c"
  shows "ck (b[k := hi8 (NOT c), k + 1 := lo8 (NOT c)]) initial = Some 0xffff"
  using rfc1071_put_complement [OF assms(1-4), of initial] assms(5) by (simp add: ck_eq)

end

end
