(* ===== verification/Accumulator.thy ===== *)
theory Accumulator
  imports Checksum_Interface
begin

text \<open>
  The building block both checksum packages (\<^verbatim>\<open>internal/gtcpip/checksum\<close> and
  \<^verbatim>\<open>internal/tschecksum\<close>) write out by hand: a run of \<^verbatim>\<open>bits.Add64\<close> or \<^verbatim>\<open>bits.Add32\<close> over the
  words of a block, the carry of one addition fed into the next and the last one added back. It
  is generic in the width of the accumulator, the width of the loads and the byte order.
\<close>

text \<open>\<^verbatim>\<open>acc, carry = bits.AddW(acc, load(buf[off:]), carry)\<close> for each offset in turn.\<close>

fun add_loads :: "bool \<Rightarrow> nat \<Rightarrow> bytes \<Rightarrow> nat list \<Rightarrow> 'w::len word \<times> 'w word \<Rightarrow> ('w word \<times> 'w word) option" where
  "add_loads le n buf [] s = Some s"
| "add_loads le n buf (off # offs) (acc, carry) = do {
     x \<leftarrow> load le n buf off;
     add_loads le n buf offs (bits_Add acc x carry) }"

text \<open>A whole block: the carry starts at 0 and is added back at the end.\<close>

definition sum_block :: "bool \<Rightarrow> nat \<Rightarrow> nat list \<Rightarrow> 'w::len word \<Rightarrow> bytes \<Rightarrow> 'w word option" where
  "sum_block le n offs acc buf = do {
     (acc, carry) \<leftarrow> add_loads le n buf offs (acc, 0);
     Some (fst (bits_Add acc 0 carry)) }"

text \<open>\<^verbatim>\<open>if len(buf) >= w { ...; buf = buf[w:] }\<close> and \<^verbatim>\<open>for len(buf) >= w { ... }\<close>.\<close>

definition sum_if :: "bool \<Rightarrow> nat \<Rightarrow> nat list \<Rightarrow> 'w::len word \<times> bytes \<Rightarrow> ('w word \<times> bytes) option" where
  "sum_if le n offs s = (case s of (acc, buf) \<Rightarrow>
     if n * length offs \<le> length buf then do {
       acc \<leftarrow> sum_block le n offs acc buf;
       buf \<leftarrow> slice_from buf (n * length offs);
       Some (acc, buf) }
     else Some (acc, buf))"

function sum_while :: "bool \<Rightarrow> nat \<Rightarrow> nat list \<Rightarrow> 'w::len word \<Rightarrow> bytes \<Rightarrow> ('w word \<times> bytes) option" where
  "sum_while le n offs acc buf =
     (if n * length offs \<le> length buf \<and> 0 < n * length offs then do {
        acc \<leftarrow> sum_block le n offs acc buf;
        sum_while le n offs acc (drop (n * length offs) buf) }
      else Some (acc, buf))"
  by pat_completeness auto
termination
  by (relation "measure (\<lambda>(le, n, offs, acc, buf). length buf)") (auto intro!: diff_less simp: Suc_le_eq)

declare sum_while.simps [simp del]

section \<open>Addition with carry\<close>

lemma bits_Add_exact:
  assumes "unat c \<le> 1"
  shows "unat (fst (bits_Add x y c)) + unat (snd (bits_Add x y c)) * 2 ^ LENGTH('w) =
         unat x + unat y + unat (c :: 'w::len word)" (is "?l = ?n")
proof -
  have s: "unat (fst (bits_Add x y c)) = ?n mod 2 ^ LENGTH('w)"
    by (simp add: bits_Add_def unat_word_ariths mod_simps)
  have "unat x < 2 ^ LENGTH('w)" "unat y < 2 ^ LENGTH('w)" by (rule unsigned_less)+
  then have b: "?n < 2 * 2 ^ LENGTH('w)" using assms by linarith
  show ?thesis
  proof (cases "2 ^ LENGTH('w) \<le> ?n")
    case True
    with b have "?n mod 2 ^ LENGTH('w) = ?n - 2 ^ LENGTH('w)"
      by (simp add: le_mod_geq)
    with s True show ?thesis by (simp add: bits_Add_def)
  next
    case False
    with s show ?thesis by (simp add: bits_Add_def)
  qed
qed

lemma bits_Add_carry: "unat (snd (bits_Add x y c)) \<le> 1"
  by (simp add: bits_Add_def)

lemma bits_Add_fits:
  fixes x y c :: "'w::len word"
  assumes "unat c \<le> 1" and "unat x + unat c < 2 ^ LENGTH('w)"
  shows "unat (fst (bits_Add x y c)) + unat (snd (bits_Add x y c)) < 2 ^ LENGTH('w)"
proof (cases "unat (snd (bits_Add x y c)) = 0")
  case True
  then show ?thesis by (simp add: unsigned_less)
next
  case False
  then have "unat (snd (bits_Add x y c)) = 1" using bits_Add_carry [of x y c] by simp
  then have "unat (fst (bits_Add x y c)) + 2 ^ LENGTH('w) = unat x + unat y + unat c"
    using bits_Add_exact [OF assms(1), of x y] by simp
  moreover have "unat y < 2 ^ LENGTH('w)" by (rule unsigned_less)
  ultimately show ?thesis using assms(2) \<open>unat (snd (bits_Add x y c)) = 1\<close> by linarith
qed

lemma bits_Add_rep:
  fixes x y c :: "'w::len word"
  assumes "unat c \<le> 1" and "16 dvd LENGTH('w)"
  shows "rep16 (unat (fst (bits_Add x y c)) + unat (snd (bits_Add x y c))) (unat x + unat y + unat c)"
proof -
  obtain k where "LENGTH('w) = 16 * k" using assms(2) by (auto elim: dvdE)
  then have "(2 :: nat) ^ LENGTH('w) = 65536 ^ k" by (simp add: power_mult)
  then show ?thesis using bits_Add_exact [OF assms(1), of x y] by (intro rep16_carry_power) simp
qed

section \<open>Blocks\<close>

lemma returns_add_loads:
  fixes acc carry :: "'w::len word"
  assumes "16 dvd LENGTH('w)" and "even n" and "8 * n \<le> LENGTH('w)"
    and "\<forall>off\<in>set offs. off + n \<le> length buf"
    and "unat carry \<le> 1" and "unat acc + unat carry < 2 ^ LENGTH('w)"
  shows "returns (add_loads le n buf offs (acc, carry)) (\<lambda>(a, c). unat c \<le> 1 \<and>
           unat a + unat c < 2 ^ LENGTH('w) \<and>
           rep16 (unat a + unat c) (unat acc + unat carry +
             order_scale le * (\<Sum>off\<leftarrow>offs. sum16 (take n (drop off buf)))))"
  using assms(4-)
proof (induction offs arbitrary: acc carry)
  case (Cons off offs)
  let ?w = "take n (drop off buf)"
  have len: "length ?w = n" using Cons.prems by (simp add: min_def) linarith
  have *: "returns (add_loads le n buf offs (bits_Add acc x carry)) (\<lambda>(a, c). unat c \<le> 1 \<and>
             unat a + unat c < 2 ^ LENGTH('w) \<and>
             rep16 (unat a + unat c) (unat acc + unat carry +
               order_scale le * (\<Sum>off\<leftarrow>off # offs. sum16 (take n (drop off buf)))))"
    if x: "unat x = order_nat le ?w" for x :: "'w word"
  proof -
    obtain a c where ac: "bits_Add acc x carry = (a, c)" by force
    have "unat c \<le> 1" "unat a + unat c < 2 ^ LENGTH('w)"
      using bits_Add_carry [of acc x carry] bits_Add_fits [of carry acc x] Cons.prems ac by auto
    note IH = Cons.IH [OF _ this]
    have "rep16 (unat a + unat c) (unat acc + unat carry + unat x)"
      using bits_Add_rep [of carry acc x] Cons.prems assms(1) ac by (simp add: ac_simps)
    moreover have "rep16 (unat x) (order_scale le * sum16 ?w)"
      unfolding x using assms(2) len by (intro rep16_order_nat) simp
    ultimately have "rep16 (unat a + unat c) (unat acc + unat carry + order_scale le * sum16 ?w)"
      by (blast intro: rep16_trans rep16_add_right)
    from rep16_add_left [OF this, of "order_scale le * (\<Sum>off\<leftarrow>offs. sum16 (take n (drop off buf)))"]
    show ?thesis
      unfolding ac using Cons.prems
      by (intro returns_mono [OF IH]) (auto simp: algebra_simps elim: rep16_trans)
  qed
  show ?case
    unfolding add_loads.simps returns_bind
    using Cons.prems assms(3) by (intro returns_load *) auto
qed simp

text \<open>Blocks of consecutive words cover a prefix of the buffer.\<close>

lemma sum16_blocks:
  assumes "even n" and "n * k \<le> length buf"
  shows "(\<Sum>off\<leftarrow>map ((*) n) [0..<k]. sum16 (take n (drop off buf))) = sum16 (take (n * k) buf)"
  using assms(2)
proof (induction k)
  case (Suc k)
  have "take (n * Suc k) buf = take (n * k) buf @ take n (drop (n * k) buf)"
    using take_add [of "n * k" n buf] by (simp add: add.commute)
  then show ?case
    using Suc assms(1) by (simp add: sum16_append)
qed simp

lemma block_in_range:
  assumes "offs = map ((*) n) [0..<length offs]" and "n * length offs \<le> length buf"
    and "off \<in> set offs"
  shows "off + n \<le> length buf"
proof -
  have "off \<in> (*) n ` {0..<length offs}"
    using assms(3) by (subst (asm) assms(1)) simp
  then obtain i where i: "off = n * i" "i < length offs" using atLeastLessThan_iff by blast
  then have "n * Suc i \<le> n * length offs" by (intro mult_le_mono2) simp
  then show ?thesis using assms(2) i(1) by simp
qed

lemma returns_add_block:
  fixes acc carry :: "'w::len word"
  assumes "16 dvd LENGTH('w)" and "even n" and "8 * n \<le> LENGTH('w)"
    and "offs = map ((*) n) [0..<length offs]" and "n * length offs \<le> length buf"
    and "unat carry \<le> 1" and "unat acc + unat carry < 2 ^ LENGTH('w)"
  shows "returns (add_loads le n buf offs (acc, carry)) (\<lambda>(a, c). unat c \<le> 1 \<and>
           unat a + unat c < 2 ^ LENGTH('w) \<and>
           rep16 (unat a + unat c)
             (unat acc + unat carry + order_scale le * sum16 (take (n * length offs) buf)))"
proof -
  have "(\<Sum>off\<leftarrow>offs. sum16 (take n (drop off buf))) = sum16 (take (n * length offs) buf)"
    using sum16_blocks [of n "length offs" buf] assms by simp
  then show ?thesis
    using returns_add_loads [of n offs buf carry acc le] block_in_range [OF assms(4,5)] assms by simp
qed

lemma returns_sum_block:
  fixes acc :: "'w::len word"
  assumes "16 dvd LENGTH('w)" and "even n" and "8 * n \<le> LENGTH('w)"
    and "offs = map ((*) n) [0..<length offs]" and "n * length offs \<le> length buf"
  shows "returns (sum_block le n offs acc buf) (\<lambda>a.
           rep16 (unat a) (unat acc + order_scale le * sum16 (take (n * length offs) buf)))"
proof -
  have "unat (fst (bits_Add a 0 c)) = unat a + unat c"
    if "unat a + unat c < 2 ^ LENGTH('w)" for a c :: "'w word"
    using that by (simp add: bits_Add_def unat_word_ariths)
  then show ?thesis
    using returns_add_block [OF assms, of 0 acc le]
    by (auto simp: sum_block_def unsigned_less elim!: returns_mono)
qed

text \<open>
  \<open>sum_keeps\<close>: a step consumes bytes of the buffer into the accumulator, so that the sum the two
  represent together stays the same.
\<close>

definition sum_keeps :: "bool \<Rightarrow> 'w::len word \<times> bytes \<Rightarrow> 'w word \<times> bytes \<Rightarrow> bool" where
  "sum_keeps le s t \<longleftrightarrow>
     rep16 (unat (fst t) + order_scale le * sum16 (snd t)) (unat (fst s) + order_scale le * sum16 (snd s))"

lemma sum_keeps_refl [simp]: "sum_keeps le s s"
  by (simp add: sum_keeps_def)

lemma sum_keeps_trans: "sum_keeps le s t \<Longrightarrow> sum_keeps le t u \<Longrightarrow> sum_keeps le s u"
  by (auto simp: sum_keeps_def intro: rep16_trans)

lemma sum_keeps_block:
  assumes "even k" and "k \<le> length buf"
    and "rep16 (unat a) (unat acc + order_scale le * sum16 (take k buf))"
  shows "sum_keeps le (acc, buf) (a, drop k buf)"
  using rep16_add_left [OF assms(3), of "order_scale le * sum16 (drop k buf)"]
    sum16_take_drop [OF assms(1,2)]
  by (simp add: sum_keeps_def algebra_simps)

lemma returns_sum_if:
  fixes acc :: "'w::len word"
  assumes "16 dvd LENGTH('w)" and "even n" and "8 * n \<le> LENGTH('w)"
    and "offs = map ((*) n) [0..<length offs]"
  shows "returns (sum_if le n offs (acc, buf)) (\<lambda>t. sum_keeps le (acc, buf) t \<and>
           length (snd t) = (if n * length offs \<le> length buf
                             then length buf - n * length offs else length buf))"
proof (cases "n * length offs \<le> length buf")
  case True
  then show ?thesis
    using assms by (auto simp: sum_if_def go_simps
        intro!: returns_mono [OF returns_sum_block] sum_keeps_block)
qed (simp add: sum_if_def)

lemma returns_sum_while:
  fixes acc :: "'w::len word"
  assumes "16 dvd LENGTH('w)" and "even n" and "8 * n \<le> LENGTH('w)"
    and "offs = map ((*) n) [0..<length offs]" and "0 < n * length offs"
  shows "returns (sum_while le n offs acc buf) (\<lambda>t. sum_keeps le (acc, buf) t \<and>
           length (snd t) < n * length offs)"
  using assms
proof (induction le n offs acc buf rule: sum_while.induct)
  case (1 le n offs acc buf)
  show ?case
  proof (cases "n * length offs \<le> length buf")
    case True
    with returns_sum_block [of n offs buf le acc] 1
    obtain a where a: "sum_block le n offs acc buf = Some a"
      and r: "rep16 (unat a) (unat acc + order_scale le * sum16 (take (n * length offs) buf))"
      by (auto simp: returns_iff)
    have keep: "sum_keeps le (acc, buf) (a, drop (n * length offs) buf)"
      using 1 True r by (intro sum_keeps_block) auto
    have "returns (sum_while le n offs a (drop (n * length offs) buf))
            (\<lambda>t. sum_keeps le (acc, buf) t \<and> length (snd t) < n * length offs)"
      using 1 True a by (intro returns_mono [OF "1.IH"]) (auto intro: sum_keeps_trans [OF keep])
    then show ?thesis
      using 1 True a by (subst sum_while.simps) auto
  qed (subst sum_while.simps, simp)
qed

text \<open>The halving tail: after a step on \<open>w\<close> bytes fewer than \<open>w\<close> of fewer than \<open>2 w\<close> are left.\<close>

lemma returns_sum_if_halves:
  fixes s0 s :: "'w::len word \<times> bytes"
  assumes "16 dvd LENGTH('w)" and "even n" and "8 * n \<le> LENGTH('w)"
    and "offs = map ((*) n) [0..<length offs]"
    and "sum_keeps le s0 s" and "length (snd s) < 2 * (n * length offs)"
    and "\<And>t. sum_keeps le s0 t \<Longrightarrow> length (snd t) < n * length offs \<Longrightarrow> Q t"
  shows "returns (sum_if le n offs s) Q"
proof -
  obtain acc buf where s: "s = (acc, buf)" by force
  show ?thesis
    unfolding s
    by (rule returns_mono [OF returns_sum_if [OF assms(1-4)]], rule assms(7))
      (use assms(5,6) s in \<open>auto intro: sum_keeps_trans split: if_splits\<close>)
qed

end
