(* ===== verification/Gtcpip_Checksum.thy ===== *)
theory Gtcpip_Checksum
  imports Accumulator
begin

text \<open>
  The package \<^verbatim>\<open>internal/gtcpip/checksum\<close>: the internet checksum every header of the stack is
  computed with. The routine of \<^verbatim>\<open>checksum_unsafe.go\<close> loads machine words through unsafe
  pointers; what it depends on of the machine, the byte order (\<open>le\<close>) and the address of the
  buffer (\<open>addr\<close>), are arguments of the model. The main result is that for every byte order and
  every alignment it returns the checksum of RFC 1071, \<open>rfc1071\<close>. The amd64 build calls the
  routines of \<^verbatim>\<open>internal/tschecksum\<close> instead (theory \<open>TSChecksum\<close>), which return the same.
\<close>

definition Put :: "bytes \<Rightarrow> u16 \<Rightarrow> bytes option" where
  "Put b xsum = BE_PutUint16 b 0 xsum"

definition Combine :: "u16 \<Rightarrow> u16 \<Rightarrow> u16" where
  "Combine a b = (let v = (ucast a :: u32) + ucast b in ucast (v + drop_bit 16 v))"

section \<open>\<^verbatim>\<open>checksum_unsafe.go\<close>\<close>

text \<open>The bytes of a variable as they lie in memory.\<close>

definition native16 :: "bool \<Rightarrow> u16 \<Rightarrow> bytes" where
  "native16 le v = (if le then [lo8 v, hi8 v] else [hi8 v, lo8 v])"

definition native32 :: "bool \<Rightarrow> u32 \<Rightarrow> bytes" where
  "native32 le v = (if le then rev (u32_bytes v) else u32_bytes v)"

definition bswapIfLittleEndian32 :: "bool \<Rightarrow> u32 \<Rightarrow> u32" where
  "bswapIfLittleEndian32 le v = word_of_nat (be_nat (native32 le v))"

definition bswapIfLittleEndian16 :: "bool \<Rightarrow> u16 \<Rightarrow> u16" where
  "bswapIfLittleEndian16 le v = word_of_nat (be_nat (native16 le v))"

definition bswapIfBigEndian16 :: "bool \<Rightarrow> u16 \<Rightarrow> u16" where
  "bswapIfBigEndian16 le v = word_of_nat (le_nat (native16 le v))"

definition reduce :: "u64 \<Rightarrow> u16" where
  "reduce acc = (
     let acc = drop_bit 32 acc + (acc AND 0xffffffff);
         acc32 = ucast (drop_bit 32 acc + acc) :: u32;
         acc32 = drop_bit 16 acc32 + (acc32 AND 0xffff)
     in ucast (drop_bit 16 acc32 + acc32))"

text \<open>\<^verbatim>\<open>(uint64(buf[i]) << 8) + uint64(buf[i+1])\<close>\<close>

definition word_at :: "bytes \<Rightarrow> nat \<Rightarrow> u64 option" where
  "word_at buf i = do {
     h \<leftarrow> byte_at buf i;
     l \<leftarrow> byte_at buf (i + 1);
     Some (push_bit 8 (ucast h) + ucast l) }"

text \<open>The branch for fewer than eight bytes.\<close>

definition short4 :: "u64 \<times> bytes \<Rightarrow> (u64 \<times> bytes) option" where
  "short4 s = (case s of (acc, buf) \<Rightarrow>
     if 4 \<le> length buf then do {
       x \<leftarrow> word_at buf 0;
       y \<leftarrow> word_at buf 2;
       buf \<leftarrow> slice_from buf 4;
       Some (acc + x + y, buf) }
     else Some (acc, buf))"

definition short2 :: "u64 \<times> bytes \<Rightarrow> (u64 \<times> bytes) option" where
  "short2 s = (case s of (acc, buf) \<Rightarrow>
     if 2 \<le> length buf then do {
       x \<leftarrow> word_at buf 0;
       buf \<leftarrow> slice_from buf 2;
       Some (acc + x, buf) }
     else Some (acc, buf))"

definition short1 :: "u64 \<times> bytes \<Rightarrow> u64 option" where
  "short1 s = (case s of (acc, buf) \<Rightarrow>
     if 1 \<le> length buf then do {
       h \<leftarrow> byte_at buf 0;
       Some (acc + push_bit 8 (ucast h)) }
     else Some acc)"

definition sum_short :: "u64 \<Rightarrow> bytes \<Rightarrow> u64 option" where
  "sum_short acc buf = do {
     s \<leftarrow> short4 (acc, buf);
     s \<leftarrow> short2 s;
     short1 s }"

text \<open>The steps that align the address of the buffer to eight bytes.\<close>

definition align1 :: "bool \<Rightarrow> nat \<Rightarrow> u64 \<Rightarrow> bytes \<Rightarrow> (u64 \<times> bytes \<times> nat \<times> bool) option" where
  "align1 le addr acc buf =
     (if addr AND 1 \<noteq> 0 then do {
        let acc = (ucast (ReverseBytes32 (ucast acc)) :: u64);
        b0 \<leftarrow> byte_at buf 0;
        buf \<leftarrow> slice_from buf 1;
        Some (acc + ucast (bswapIfLittleEndian16 le (ucast b0)), buf, addr + 1, True) }
      else Some (acc, buf, addr, False))"

definition align_by :: "bool \<Rightarrow> nat \<Rightarrow> u64 \<Rightarrow> bytes \<Rightarrow> nat \<Rightarrow> (u64 \<times> bytes \<times> nat) option" where
  "align_by le k acc buf addr =
     (if addr AND k \<noteq> 0 then do {
        x \<leftarrow> load le k buf 0;
        buf \<leftarrow> slice_from buf k;
        Some (acc + x, buf, addr + k) }
      else Some (acc, buf, addr))"

text \<open>The unrolled sums, 64 bytes at a time and then 32, 16, 8, 4, 2 and 1.\<close>

definition sum_last :: "bool \<Rightarrow> u64 \<times> bytes \<Rightarrow> u64 option" where
  "sum_last le s = (case s of (acc, buf) \<Rightarrow>
     if 1 \<le> length buf then do {
       b0 \<leftarrow> byte_at buf 0;
       let (acc, carry) = bits_Add acc (ucast (bswapIfBigEndian16 le (ucast b0))) 0;
       Some (fst (bits_Add acc 0 carry)) }
     else Some acc)"

definition sum_words :: "bool \<Rightarrow> u64 \<Rightarrow> bytes \<Rightarrow> u64 option" where
  "sum_words le acc buf = do {
     s \<leftarrow> sum_while le 8 [0, 8, 16, 24, 32, 40, 48, 56] acc buf;
     s \<leftarrow> sum_if le 8 [0, 8, 16, 24] s;
     s \<leftarrow> sum_if le 8 [0, 8] s;
     s \<leftarrow> sum_if le 8 [0] s;
     s \<leftarrow> sum_if le 4 [0] s;
     s \<leftarrow> sum_if le 2 [0] s;
     sum_last le s }"

definition sum_aligned :: "bool \<Rightarrow> nat \<Rightarrow> bytes \<Rightarrow> u64 \<Rightarrow> u16 option" where
  "sum_aligned le addr buf acc = do {
     let acc = (ucast (bswapIfLittleEndian32 le (ucast acc)) :: u64);
     (acc, buf, addr, bswapped) \<leftarrow> align1 le addr acc buf;
     (acc, buf, addr) \<leftarrow> align_by le 2 acc buf addr;
     (acc, buf, addr) \<leftarrow> align_by le 4 acc buf addr;
     acc \<leftarrow> sum_words le acc buf;
     let acc16 = bswapIfLittleEndian16 le (reduce acc);
     Some (if bswapped then ReverseBytes16 acc16 else acc16) }"

definition calculateChecksum :: "bool \<Rightarrow> nat \<Rightarrow> bytes \<Rightarrow> bool \<Rightarrow> u16 \<Rightarrow> (u16 \<times> bool) option" where
  "calculateChecksum le addr buf prev_odd initial = do {
     let acc = (ucast initial :: u64);
     (acc, buf, addr) \<leftarrow> (if prev_odd then do {
         b0 \<leftarrow> byte_at buf 0;
         buf \<leftarrow> slice_from buf 1;
         Some (acc + ucast b0, buf, addr + 1) }
       else Some (acc, buf, addr));
     if length buf < 8 then do {
       acc \<leftarrow> sum_short acc buf;
       Some (reduce acc, odd (length buf)) }
     else do {
       acc16 \<leftarrow> sum_aligned le addr buf acc;
       Some (acc16, odd (length buf)) } }"

section \<open>Folding and swapping\<close>

lemma unat_Combine: "unat (Combine a b) = fold16 (unat a + unat b)"
proof -
  define v where "v = (ucast a :: u32) + ucast b"
  have "unat a + unat b < 4294967296"
    using unat_u16_less [of a] unat_u16_less [of b] by linarith
  then have n: "unat v = unat a + unat b"
    unfolding v_def by (subst unat_plus_small) (simp_all add: unat_ucast_up)
  have le: "unat v + 2 \<le> 2 * 65536"
    unfolding n using unat_u16_less [of a] unat_u16_less [of b] by linarith
  then have "2 * unat v < 2 ^ LENGTH(32)" by simp
  then have "unat (drop_bit 16 v + v) = unat v div 65536 + unat v"
    by (subst unat_drop_bit_plus) simp_all
  then have "unat (Combine a b) = (unat v div 65536 + unat v) mod 65536"
    unfolding Combine_def Let_def v_def [symmetric] unat_ucast_mod
    by (simp only: add.commute [of v]) simp
  then have "rep16 (unat (Combine a b)) (unat v)"
    using rep16_end_around [of 65536 1 "unat v"] le by simp
  then show ?thesis unfolding n by (rule rep16_unique) simp
qed

lemma rep16_reduce: "rep16 (unat (reduce acc)) (unat acc)"
proof -
  define a where "a = drop_bit 32 acc + (acc AND 0xffffffff)"
  define b where "b = (ucast (drop_bit 32 a + a) :: u32)"
  define c where "c = drop_bit 16 b + (b AND 0xffff)"
  have hi: "unat acc div 4294967296 < 4294967296"
    by (rule less_mult_imp_div_less) simp
  have "unat acc div 4294967296 + unat acc mod 4294967296 < 18446744073709551616"
    using hi mod_less_divisor [of 4294967296 "unat acc"] by linarith
  then have a: "unat a = unat acc div 4294967296 + unat acc mod 4294967296"
    unfolding a_def by (subst unat_plus_small) (simp_all add: unat_drop_bit unat_and_ffffffff)
  have a_le: "unat a + 2 \<le> 2 * 4294967296"
    unfolding a using hi mod_less_divisor [of 4294967296 "unat acc"] by linarith
  have b: "unat b = (unat a div 4294967296 + unat a) mod 4294967296"
  proof -
    have "unat (drop_bit 32 a + a) = unat a div 4294967296 + unat a"
      using a_le unat_drop_bit_plus [of a 32] by simp
    then show ?thesis by (simp add: b_def unat_ucast_mod)
  qed
  have b_hi: "unat b div 65536 < 65536"
    by (rule less_mult_imp_div_less) simp
  have "unat b div 65536 + unat b mod 65536 < 4294967296"
    using b_hi mod_less_divisor [of 65536 "unat b"] by linarith
  then have c: "unat c = unat b div 65536 + unat b mod 65536"
    unfolding c_def by (subst unat_plus_small) (simp_all add: unat_drop_bit unat_and_ffff)
  have c_le: "unat c + 2 \<le> 2 * 65536"
    unfolding c using b_hi mod_less_divisor [of 65536 "unat b"] by linarith
  have "unat (drop_bit 16 c + c) = unat c div 65536 + unat c"
    using c_le unat_drop_bit_plus [of c 16] by simp
  then have "unat (reduce acc) = (unat c div 65536 + unat c) mod 65536"
    by (simp add: reduce_def Let_def unat_ucast_mod flip: a_def b_def c_def)
  moreover have "rep16 ((unat c div 65536 + unat c) mod 65536) (unat c)"
    using rep16_end_around [of 65536 1] c_le by simp
  moreover have "rep16 (unat c) (unat b)"
    using rep16_halves [of "unat b" 1] c by simp
  moreover have "rep16 (unat b) (unat a)"
    using rep16_end_around [of 4294967296 2] a_le b by simp
  moreover have "rep16 (unat a) (unat acc)"
    using rep16_halves [of "unat acc" 2] a by simp
  ultimately show ?thesis by (auto intro: rep16_trans)
qed

lemma bswapIfLittleEndian16_eq: "bswapIfLittleEndian16 le v = (if le then ReverseBytes16 v else v)"
proof -
  have "be_nat [h, l] = 256 * unat h + unat l" for h l
    by (simp add: be_nat_Cons)
  then have "word_of_nat (be_nat [h, l]) = be16 h l" for h l
    unfolding be16_def by (simp only:)
  then show ?thesis
    by (simp add: bswapIfLittleEndian16_def native16_def ReverseBytes16_def)
qed

lemma rep16_bswap16: "rep16 (unat (bswapIfLittleEndian16 le v)) (order_scale le * unat v)"
  by (simp add: bswapIfLittleEndian16_eq order_scale_def rep16_ReverseBytes16)

lemma rep16_bswap32: "rep16 (unat (bswapIfLittleEndian32 le v)) (order_scale le * unat v)"
proof (cases le)
  case True
  then show ?thesis
    using rep16_ReverseBytes32 [of v]
    by (simp add: bswapIfLittleEndian32_def native32_def order_scale_def ReverseBytes32_def)
next
  case False
  then show ?thesis
    by (simp add: bswapIfLittleEndian32_def native32_def order_scale_def be_nat_u32_bytes)
qed

lemma unat_bswapBE16_byte: "unat (bswapIfBigEndian16 le (ucast (b :: u8))) = (if le then unat b else 256 * unat b)"
proof -
  have "unat (ucast b :: u16) = unat b" by (rule unat_ucast_up) simp
  then have "le_nat (native16 le (ucast b)) = (if le then unat b else 256 * unat b)"
    by (simp add: native16_def)
  moreover have "(if le then unat b else 256 * unat b) < 65536"
    using unat_u8_less [of b] by (auto simp del: unat_u8_less)
  ultimately show ?thesis
    unfolding bswapIfBigEndian16_def by (simp only: unat_of_nat_u16)
qed

lemma unat_bswapLE16_byte: "unat (bswapIfLittleEndian16 le (ucast (b :: u8))) = order_scale le * unat b"
proof -
  have "unat (ucast b :: u16) = unat b" by (rule unat_ucast_up) simp
  then show ?thesis
    by (simp add: bswapIfLittleEndian16_eq ReverseBytes16_def order_scale_def)
qed

section \<open>The routine computes the reference checksum\<close>

lemma unat_add64_end:
  fixes acc x :: u64
  shows "rep16 (unat (fst (bits_Add (fst (bits_Add acc x 0)) 0 (snd (bits_Add acc x 0))))) (unat acc + unat x)"
proof -
  have "unat (fst (bits_Add acc x 0)) + unat (snd (bits_Add acc x 0)) < 2 ^ LENGTH(64)"
    by (rule bits_Add_fits) simp_all
  then have "unat (fst (bits_Add (fst (bits_Add acc x 0)) 0 (snd (bits_Add acc x 0)))) =
      unat (fst (bits_Add acc x 0)) + unat (snd (bits_Add acc x 0))"
    by (subst (1) bits_Add_def) (simp add: unat_word_ariths)
  then show ?thesis using bits_Add_rep [of 0 acc x] by simp
qed

lemma returns_sum_last:
  assumes "length buf < 2"
  shows "returns (sum_last le (acc, buf)) (\<lambda>a. rep16 (unat a) (unat acc + order_scale le * sum16 buf))"
proof (cases buf)
  case (Cons b r)
  with assms have r: "r = []" by (cases r) simp_all
  let ?x = "ucast (bswapIfBigEndian16 le (ucast b)) :: u64"
  have "rep16 (unat ?x) (order_scale le * (256 * unat b))"
    using rep16_sym [OF rep16_swap_twice, of "unat b"]
    by (simp add: unat_ucast_up unat_bswapBE16_byte order_scale_def)
  from rep16_add_right [OF this] have "rep16 (unat acc + unat ?x) (unat acc + order_scale le * (256 * unat b))" .
  with unat_add64_end [of acc ?x] show ?thesis
    unfolding Cons r by (auto simp: sum_last_def go_simps split_beta Let_def intro: rep16_trans)
qed (simp add: sum_last_def)

lemma returns_sum_words:
  "returns (sum_words le acc buf) (\<lambda>a. rep16 (unat a) (unat acc + order_scale le * sum16 buf))"
proof -
  have last: "returns (sum_last le s) (\<lambda>a. rep16 (unat a) (unat acc + order_scale le * sum16 buf))"
    if "sum_keeps le (acc, buf) s" and "length (snd s) < 2" for s
    using that returns_sum_last [of "snd s" le "fst s"]
    by (auto simp: sum_keeps_def elim!: returns_mono intro: rep16_trans)
  show ?thesis
    unfolding sum_words_def returns_bind
    by (rule returns_mono [OF returns_sum_while], simp_all add: upt_rec, elim conjE)
      (rule returns_sum_if_halves last; simp add: upt_rec)+
qed

lemma word_at_in:
  assumes "i + 1 < length buf"
  shows "\<exists>x. word_at buf i = Some x \<and> unat x = unat (be16 (buf ! i) (buf ! (i + 1)))"
proof -
  have "unat (push_bit 8 (ucast (buf ! i) :: u64)) + unat (ucast (buf ! (i + 1)) :: u64) < 2 ^ LENGTH(64)"
    using unat_u8_less [of "buf ! i"] unat_u8_less [of "buf ! (i + 1)"]
    by (simp add: unat_push8 unat_ucast_up del: unat_u8_less)
  from unat_plus_small [OF this] assms show ?thesis
    by (simp add: word_at_def go_simps unat_push8 unat_ucast_up)
qed

lemma sum16_two: "2 \<le> length b \<Longrightarrow> sum16 b = unat (be16 (b ! 0) (b ! 1)) + sum16 (drop 2 b)"
  using sum16_field [of 0 b] by (simp add: numeral_2_eq_2)

lemma returns_short4:
  assumes "length buf < 8" and "unat acc < 2 ^ 30"
  shows "returns (short4 (acc, buf)) (\<lambda>(a, b). unat a + sum16 b = unat acc + sum16 buf \<and>
           unat a < 2 ^ 31 \<and> length b < 4)"
proof (cases "4 \<le> length buf")
  case True
  obtain x y where xy: "word_at buf 0 = Some x" "unat x = unat (be16 (buf ! 0) (buf ! 1))"
    "word_at buf 2 = Some y" "unat y = unat (be16 (buf ! 2) (buf ! 3))"
    using word_at_in [of 0 buf] word_at_in [of 2 buf] True by auto
  then have b: "unat x < 65536" "unat y < 65536" by (simp_all del: unat_be16)
  have "unat (acc + x) = unat acc + unat x"
    using b assms(2) by (intro unat_plus_small) simp
  moreover have "unat (acc + x + y) = unat (acc + x) + unat y"
    using b assms(2) calculation by (intro unat_plus_small) simp
  ultimately show ?thesis
    using True xy b assms sum16_two [of buf] sum16_two [of "drop 2 buf"]
    by (auto simp: short4_def go_simps)
qed (use assms in \<open>auto simp: short4_def\<close>)

lemma returns_short2:
  assumes "length buf < 4" and "unat acc < 2 ^ 31"
  shows "returns (short2 (acc, buf)) (\<lambda>(a, b). unat a + sum16 b = unat acc + sum16 buf \<and>
           unat a < 2 ^ 32 \<and> length b < 2)"
proof (cases "2 \<le> length buf")
  case True
  then obtain x where x: "word_at buf 0 = Some x" "unat x = unat (be16 (buf ! 0) (buf ! 1))"
    using word_at_in [of 0 buf] by auto
  then have b: "unat x < 65536" by (simp del: unat_be16)
  then have "unat (acc + x) = unat acc + unat x"
    using assms(2) by (intro unat_plus_small) simp
  then show ?thesis
    using True x b assms sum16_two [OF True] by (auto simp: short2_def go_simps)
qed (use assms in \<open>auto simp: short2_def\<close>)

lemma returns_short1:
  assumes "length buf < 2" and "unat acc < 2 ^ 32"
  shows "returns (short1 (acc, buf)) (\<lambda>a. unat a = unat acc + sum16 buf)"
proof (cases buf)
  case (Cons h r)
  with assms(1) have "r = []" by (cases r) simp_all
  moreover have "unat (acc + push_bit 8 (ucast h)) = unat acc + 256 * unat h"
    using assms(2) unat_u8_less [of h]
    by (subst unat_plus_small) (simp_all add: unat_push8 del: unat_u8_less)
  ultimately show ?thesis using Cons by (simp add: short1_def go_simps)
qed (simp add: short1_def)

lemma returns_sum_short:
  assumes "length buf < 8" and "unat acc < 2 ^ 30"
  shows "returns (sum_short acc buf) (\<lambda>a. unat a = unat acc + sum16 buf)"
  unfolding sum_short_def returns_bind
  by (rule returns_mono [OF returns_short4 [OF assms]], clarify, rule returns_mono [OF returns_short2])
    (auto elim!: returns_mono dest: returns_short1)

text \<open>Skipping one byte swaps the rest of the sum; the accumulator is swapped to match.\<close>

lemma rep16_align1:
  assumes "rep16 a (256 * n)"
  shows "rep16 (a + order_scale le * unat b + order_scale le * sum16 r)
               (256 * (n + order_scale le * sum16 (b # r)))"
proof -
  have "rep16 (unat b + sum16 r) (256 * (256 * unat b + 256 * sum16 r))"
    using rep16_sym [OF rep16_swap_twice, of "unat b + sum16 r"] by (simp add: algebra_simps)
  also have "rep16 \<dots> (256 * sum16 (b # r))"
    by (rule rep16_mult [OF rep16_shift]) simp
  finally have "rep16 (order_scale le * (unat b + sum16 r)) (order_scale le * (256 * sum16 (b # r)))"
    by (rule rep16_scale)
  from rep16_add [OF assms this] show ?thesis
    by (simp add: algebra_simps)
qed

lemma returns_align1:
  assumes "unat acc < 2 ^ 32" and "buf \<noteq> []"
  shows "returns (align1 le addr acc buf) (\<lambda>(a, b, _, swapped).
           rep16 (unat a + order_scale le * sum16 b)
                 ((if swapped then 256 else 1) * (unat acc + order_scale le * sum16 buf)) \<and>
           unat a < 2 ^ 33 \<and> length buf \<le> length b + 1)"
proof (cases "addr AND 1 = 0")
  case False
  obtain b r where buf: "buf = b # r" using assms(2) by (cases buf) auto
  define R where "R = ReverseBytes32 (ucast acc)"
  have R: "rep16 (unat R) (256 * unat acc)"
    using rep16_ReverseBytes32 [of "ucast acc"] assms(1) by (simp add: R_def unat_ucast_mod)
  have "order_scale le * unat b < 65536"
    using unat_u8_less [of b] by (simp add: order_scale_def del: unat_u8_less)
  then have "unat ((ucast R :: u64) + ucast (bswapIfLittleEndian16 le (ucast b))) = unat R + order_scale le * unat b"
    and "unat R + order_scale le * unat b < 2 ^ 33"
    using unat_u32_less [of R]
    by (simp_all add: unat_plus_small unat_ucast_up unat_bswapLE16_byte del: unat_u32_less)
  then show ?thesis
    using rep16_align1 [OF R, of le b r] False
    by (simp add: align1_def buf go_simps flip: R_def)
qed (use assms in \<open>auto simp: align1_def\<close>)

lemma returns_align_by:
  assumes "unat acc < 2 ^ 60" and "k \<le> length buf" and "k = 2 \<or> k = 4"
  shows "returns (align_by le k acc buf addr) (\<lambda>(a, b, _).
           sum_keeps le (acc, buf) (a, b) \<and> unat a < unat acc + 2 ^ 32 \<and> length buf \<le> length b + k)"
proof (cases "addr AND k = 0")
  case False
  have even: "even k" using assms(3) by auto
  have "returns (load le k buf 0) (\<lambda>x. sum_keeps le (acc, buf) (acc + x, drop k buf) \<and>
          unat (acc + x) < unat acc + 2 ^ 32)"
  proof (rule returns_load)
    fix x :: u64
    assume "unat x = order_nat le (take k (drop 0 buf))"
    then have x: "unat x = order_nat le (take k buf)" by simp
    then have "unat x < 256 ^ k"
      using order_nat_bound [of le "take k buf"] assms(2) by simp
    also have "\<dots> \<le> 2 ^ 32" using assms(3) by auto
    finally have b: "unat x < 2 ^ 32" .
    then have sum: "unat (acc + x) = unat acc + unat x"
      using assms(1) by (intro unat_plus_small) simp
    have "rep16 (unat x) (order_scale le * sum16 (take k buf))"
      unfolding x using even assms(2) by (intro rep16_order_nat) simp
    then show "sum_keeps le (acc, buf) (acc + x, drop k buf) \<and> unat (acc + x) < unat acc + 2 ^ 32"
      using b sum even assms(2) by (auto intro!: sum_keeps_block rep16_add_right)
  qed (use assms in auto)
  then show ?thesis
    using False assms(2) by (auto simp: align_by_def go_simps elim!: returns_mono)
qed (use assms in \<open>auto simp: align_by_def\<close>)

text \<open>The swaps before returning undo the ones of the loads and of the alignment.\<close>

lemma rep16_unswap:
  fixes r :: u16 and le :: bool
  defines "v \<equiv> bswapIfLittleEndian16 le r"
  assumes "rep16 (unat r) ((if sw then 256 else 1) * (order_scale le * n))"
  shows "rep16 (unat (if sw then ReverseBytes16 v else v)) n"
proof -
  let ?k = "if sw then 256 else 1 :: nat"
  have "rep16 (order_scale le * unat r) (order_scale le * (order_scale le * (?k * n)))"
    using rep16_scale [OF assms(2), of le] by (simp add: ac_simps)
  then have v: "rep16 (unat v) (?k * n)"
    unfolding v_def by (blast intro: rep16_trans rep16_bswap16 rep16_scale_twice)
  show ?thesis
  proof (cases sw)
    case True
    then have "rep16 (256 * unat v) (256 * (256 * n))" using v by (intro rep16_mult) auto
    then have "rep16 (unat (ReverseBytes16 v)) (65536 * n)"
      using rep16_ReverseBytes16 [of v] by (auto intro: rep16_trans)
    then show ?thesis using True rep16_swap_twice [of n] by (auto intro: rep16_trans)
  qed (use v in simp)
qed

lemma returns_sum_aligned:
  assumes "unat acc < 2 ^ 32" and "8 \<le> length buf"
  shows "returns (sum_aligned le addr buf acc) (\<lambda>v. rep16 (unat v) (unat acc + sum16 buf))"
proof -
  define a0 where "a0 = (ucast (bswapIfLittleEndian32 le (ucast acc)) :: u64)"
  let ?m = "order_scale le"
  have "unat (ucast acc :: u32) = unat acc" using assms(1) by (simp add: unat_ucast_mod)
  then have "rep16 (unat a0) (?m * unat acc)"
    using rep16_bswap32 [of le "ucast acc"] by (simp add: a0_def unat_ucast_up)
  then have a0: "rep16 (unat a0 + ?m * sum16 buf) (?m * (unat acc + sum16 buf))"
    unfolding add_mult_distrib2 by (rule rep16_add_left)
  have "unat a0 < 2 ^ 32" by (simp add: a0_def unat_ucast_up)
  moreover have "buf \<noteq> []" using assms(2) by auto
  ultimately obtain a1 b1 ad1 sw where 1: "align1 le addr a0 buf = Some (a1, b1, ad1, sw)"
    "rep16 (unat a1 + ?m * sum16 b1) ((if sw then 256 else 1) * (unat a0 + ?m * sum16 buf))"
    "unat a1 < 2 ^ 33" "length buf \<le> length b1 + 1"
    using returns_align1 [of a0 buf le addr] by (auto simp: returns_iff)
  then obtain a2 b2 ad2 where 2: "align_by le 2 a1 b1 ad1 = Some (a2, b2, ad2)"
    "sum_keeps le (a1, b1) (a2, b2)" "unat a2 < 2 ^ 34" "length b1 \<le> length b2 + 2"
    using returns_align_by [of a1 2 b1 le ad1] assms(2) by (auto simp: returns_iff)
  then obtain a3 b3 ad3 where 3: "align_by le 4 a2 b2 ad2 = Some (a3, b3, ad3)"
    "sum_keeps le (a2, b2) (a3, b3)"
    using returns_align_by [of a2 4 b2 le ad2] assms(2) 1(4) by (auto simp: returns_iff)
  obtain a4 where 4: "sum_words le a3 b3 = Some a4" "rep16 (unat a4) (unat a3 + ?m * sum16 b3)"
    using returns_sum_words [of le a3 b3] by (auto simp: returns_iff)
  let ?k = "if sw then 256 else 1 :: nat"
  have "sum_keeps le (a1, b1) (a3, b3)"
    using 2(2) 3(2) by (rule sum_keeps_trans)
  then have "rep16 (unat (reduce a4)) (unat a1 + ?m * sum16 b1)"
    using 4(2) rep16_reduce [of a4] by (auto simp: sum_keeps_def intro: rep16_trans)
  then have "rep16 (unat (reduce a4)) (?k * (unat a0 + ?m * sum16 buf))"
    using 1(2) by (rule rep16_trans)
  also have "rep16 \<dots> (?k * (?m * (unat acc + sum16 buf)))"
    using a0 by (rule rep16_mult) simp
  finally have "rep16 (unat (if sw then ReverseBytes16 (bswapIfLittleEndian16 le (reduce a4))
      else bswapIfLittleEndian16 le (reduce a4))) (unat acc + sum16 buf)"
    by (rule rep16_unswap)
  then show ?thesis
    unfolding sum_aligned_def a0_def [symmetric] by (simp add: 1(1) 2(1) 3(1) 4(1) Let_def)
qed

text \<open>
  The total a call covers: with \<open>prev_odd\<close> the first byte is the low half of a word whose high
  half was summed before.
\<close>

definition covered :: "bool \<Rightarrow> bytes \<Rightarrow> nat" where
  "covered prev_odd buf = (if prev_odd then unat (hd buf) + sum16 (tl buf) else sum16 buf)"

lemma calculateChecksum_covered:
  assumes "prev_odd \<Longrightarrow> buf \<noteq> []"
  shows "calculateChecksum le addr buf prev_odd initial =
    Some (word_of_nat (fold16 (unat initial + covered prev_odd buf)), odd (length buf) \<noteq> prev_odd)"
proof -
  define b where "b = (if prev_odd then tl buf else buf)"
  define a where "a = (if prev_odd then ucast initial + ucast (hd buf) else ucast initial :: u64)"
  define ad where "ad = (if prev_odd then addr + 1 else addr)"
  have "unat (ucast initial + ucast (hd buf) :: u64) = unat initial + unat (hd buf)"
    using unat_u16_less [of initial] unat_u8_less [of "hd buf"]
    by (subst unat_plus_small) (simp_all add: unat_ucast_up del: unat_u16_less unat_u8_less)
  then have a: "unat a + sum16 b = unat initial + covered prev_odd buf" "unat a < 2 ^ 30"
    using unat_u16_less [of initial] unat_u8_less [of "hd buf"]
    by (auto simp: a_def b_def covered_def unat_ucast_up simp del: unat_u16_less unat_u8_less)
  have eq: "calculateChecksum le addr buf prev_odd initial =
      (if length b < 8 then do { acc \<leftarrow> sum_short a b; Some (reduce acc, odd (length b)) }
       else do { acc16 \<leftarrow> sum_aligned le ad b a; Some (acc16, odd (length b)) })"
    using assms by (cases buf) (auto simp: calculateChecksum_def go_simps a_def b_def ad_def)
  have odd: "odd (length b) \<longleftrightarrow> (odd (length buf) \<noteq> prev_odd)"
    using assms by (cases buf) (auto simp: b_def)
  have "returns (calculateChecksum le addr buf prev_odd initial)
      (\<lambda>(v, o'). rep16 (unat v) (unat a + sum16 b) \<and> o' = odd (length b))"
    unfolding eq using a(2) returns_sum_short [of b a] returns_sum_aligned [of a b le ad]
    by (auto elim!: returns_mono) (metis rep16_reduce)
  then obtain v where v: "calculateChecksum le addr buf prev_odd initial = Some (v, odd (length b))"
    and r: "rep16 (unat v) (unat initial + covered prev_odd buf)"
    unfolding a(1) by (auto simp: returns_iff)
  have "word_of_nat (unat v) = (word_of_nat (fold16 (unat initial + covered prev_odd buf)) :: u16)"
    by (simp only: rep16_unique [OF r unat_u16_le])
  then have "v = word_of_nat (fold16 (unat initial + covered prev_odd buf))"
    by simp
  then show ?thesis using v odd by simp
qed

lemma calculateChecksum_eq:
  "calculateChecksum le addr buf False initial = Some (rfc1071 buf initial, odd (length buf))"
  using calculateChecksum_covered [of False buf le addr initial]
  by (simp add: covered_def rfc1071_def)

section \<open>The exported function\<close>

text \<open>
  \<open>Checksum\<close> of \<^verbatim>\<open>checksum_default.go\<close>, on a little-endian machine and an aligned buffer. By
  \<open>calculateChecksum_eq\<close> no other choice gives another result.
\<close>

definition Checksum :: "bytes \<Rightarrow> u16 \<Rightarrow> u16 option" where
  "Checksum buf initial = do {
     (s, _) \<leftarrow> calculateChecksum True 0 buf False initial;
     Some s }"

interpretation machine: checksum_routine "\<lambda>buf initial. map_option fst (calculateChecksum le addr buf False initial)"
  for le addr
  by unfold_locales (simp add: calculateChecksum_eq rep16_fold16)

interpretation exported: checksum_routine Checksum
  by unfold_locales (simp add: Checksum_def calculateChecksum_eq rep16_fold16)

lemmas Checksum_eq [simp] = exported.ck_eq

lemma Combine_eq: "Combine a b = word_of_nat (fold16 (unat a + unat b))"
  by (simp add: word_unat_eq_iff unat_Combine unat_of_nat_u16)

lemma Combine_rfc1071: "Combine (rfc1071 ys 0) (rfc1071 xs initial) = rfc1071 ys (rfc1071 xs initial)"
  by (simp add: word_unat_eq_iff unat_Combine add.commute)

section \<open>Properties\<close>

text \<open>
  C19. On a machine of either byte order and for a buffer at any address, \<open>calculateChecksum\<close>
  returns the checksum of RFC 1071 of the buffer and whether its length is odd; in particular no
  unsafe load leaves the buffer.
\<close>

theorem calculateChecksum_rfc1071:
  "calculateChecksum le addr buf False initial = Some (rfc1071 buf initial, odd (length buf))"
  by (rule calculateChecksum_eq)

lemma sum16_append_covered:
  assumes "odd (length xs) \<Longrightarrow> ys \<noteq> []"
  shows "sum16 (xs @ ys) = sum16 xs + covered (odd (length xs)) ys"
  using assms
proof (induction xs rule: sum16.induct)
  case (2 a)
  then show ?case by (cases ys) (auto simp: covered_def)
next
  case (3 a b r)
  then show ?case by simp
qed (simp add: covered_def)

text \<open>
  A checksum may be computed in pieces of any length: feeding the sum and the odd flag of a first
  piece into the call for a second, non-empty piece gives the checksum of both pieces together,
  whatever the addresses of the pieces.
\<close>

theorem calculateChecksum_pieces:
  assumes "ys \<noteq> []"
  shows "(calculateChecksum le addr1 xs False initial \<bind> (\<lambda>(s, odd).
           calculateChecksum le addr2 ys odd s)) =
         calculateChecksum le addr3 (xs @ ys) False initial"
proof -
  have "calculateChecksum le addr2 ys (odd (length xs)) (rfc1071 xs initial) =
      Some (rfc1071 (xs @ ys) initial, odd (length ys) \<noteq> odd (length xs))"
    using calculateChecksum_covered [of "odd (length xs)" ys le addr2 "rfc1071 xs initial"] assms
    by (simp add: rfc1071_def sum16_append_covered unat_of_nat_u16 ac_simps)
  then show ?thesis by (auto simp: calculateChecksum_eq)
qed

theorem calculateChecksum_pieces_witness:
  "(calculateChecksum True 1 [1, 2, 3] False 7 \<bind> (\<lambda>(s, odd). calculateChecksum True 6 [4, 5] odd s)) =
   calculateChecksum True 1 ([1, 2, 3] @ [4, 5]) False 7"
  by (rule calculateChecksum_pieces) simp

end
