(* ===== verification/TSChecksum.thy ===== *)
theory TSChecksum
  imports Accumulator
begin

text \<open>
  The package \<^verbatim>\<open>internal/tschecksum\<close>, the checksum routines the amd64 build and the tests use:
  \<open>checksumGeneric64\<close> and \<open>checksumGeneric32\<close> thread one carry through the whole buffer, the two
  \<open>Alternate\<close> routines add without a carry in a wider accumulator, and \<open>PseudoHeaderChecksum\<close>
  sums addresses, protocol and length. The flag \<open>le\<close> stands for \<^verbatim>\<open>!cpu.IsBigEndian\<close> and \<open>IntSize\<close>
  for \<^verbatim>\<open>strconv.IntSize\<close>. The assembly routines of \<^verbatim>\<open>checksum_generated_amd64.s\<close> are not under
  study: on amd64 they are the parameter \<open>checksum\<close> of \<open>Checksum_amd64\<close>.
\<close>

section \<open>Blocks with a running carry\<close>

definition add_if :: "bool \<Rightarrow> nat \<Rightarrow> nat list \<Rightarrow> 'w::len word \<times> 'w word \<times> bytes \<Rightarrow> ('w word \<times> 'w word \<times> bytes) option" where
  "add_if le n offs s = (case s of (ac, carry, b) \<Rightarrow>
     if n * length offs \<le> length b then do {
       (ac, carry) \<leftarrow> add_loads le n b offs (ac, carry);
       b \<leftarrow> slice_from b (n * length offs);
       Some (ac, carry, b) }
     else Some (ac, carry, b))"

function add_while :: "bool \<Rightarrow> nat \<Rightarrow> nat list \<Rightarrow> 'w::len word \<Rightarrow> 'w word \<Rightarrow> bytes \<Rightarrow> ('w word \<times> 'w word \<times> bytes) option" where
  "add_while le n offs ac carry b =
     (if n * length offs \<le> length b \<and> 0 < n * length offs then do {
        (ac, carry) \<leftarrow> add_loads le n b offs (ac, carry);
        add_while le n offs ac carry (drop (n * length offs) b) }
      else Some (ac, carry, b))"
  by pat_completeness auto
termination
  by (relation "measure (\<lambda>(le, n, offs, ac, carry, b). length b)") (auto intro!: diff_less simp: Suc_le_eq)

declare add_while.simps [simp del]

text \<open>The odd last byte, \<^verbatim>\<open>b[0]\<close> or \<^verbatim>\<open>b[0] << 8\<close>.\<close>

definition last_byte :: "bool \<Rightarrow> bytes \<Rightarrow> 'w::len word option" where
  "last_byte le b = do {
     b0 \<leftarrow> byte_at b 0;
     Some (if le then ucast b0 else push_bit 8 (ucast b0)) }"

definition add_last :: "bool \<Rightarrow> 'w::len word \<times> 'w word \<times> bytes \<Rightarrow> ('w word \<times> 'w word) option" where
  "add_last le s = (case s of (ac, carry, b) \<Rightarrow>
     if 1 \<le> length b then do {
       x \<leftarrow> last_byte le b;
       Some (bits_Add ac x carry) }
     else Some (ac, carry))"

definition swap_if :: "bool \<Rightarrow> u16 \<Rightarrow> u16" where
  "swap_if le v = (if le then ReverseBytes16 v else v)"

definition ipChecksumFold64 :: "u64 \<Rightarrow> u64 \<Rightarrow> u16" where
  "ipChecksumFold64 unfolded initialCarry = (
     let (sum, carry) = bits_Add (ucast (drop_bit 32 unfolded) :: u32)
                          (ucast (unfolded AND 0xffffffff)) (ucast initialCarry);
         sum = drop_bit 16 sum + (sum AND 0xffff) + carry;
         sum = drop_bit 16 sum + (sum AND 0xffff)
     in ucast sum)"

definition ipChecksumFold32 :: "u32 \<Rightarrow> u32 \<Rightarrow> u16" where
  "ipChecksumFold32 unfolded initialCarry = (
     let sum = drop_bit 16 unfolded + (unfolded AND 0xffff) + initialCarry;
         sum = drop_bit 16 sum + (sum AND 0xffff);
         sum = drop_bit 16 sum + (sum AND 0xffff)
     in ucast sum)"

definition checksumGeneric64 :: "bool \<Rightarrow> bytes \<Rightarrow> u16 \<Rightarrow> u16 option" where
  "checksumGeneric64 le b initial = do {
     let ac = (ucast (swap_if le initial) :: u64);
     s \<leftarrow> add_while le 8 [0, 8, 16, 24, 32, 40, 48, 56, 64, 72, 80, 88, 96, 104, 112, 120] ac 0 b;
     s \<leftarrow> add_if le 8 [0, 8, 16, 24, 32, 40, 48, 56] s;
     s \<leftarrow> add_if le 8 [0, 8, 16, 24] s;
     s \<leftarrow> add_if le 8 [0, 8] s;
     s \<leftarrow> add_if le 8 [0] s;
     s \<leftarrow> add_if le 4 [0] s;
     s \<leftarrow> add_if le 2 [0] s;
     (ac, carry) \<leftarrow> add_last le s;
     Some (swap_if le (ipChecksumFold64 ac carry)) }"

definition checksumGeneric32 :: "bool \<Rightarrow> bytes \<Rightarrow> u16 \<Rightarrow> u16 option" where
  "checksumGeneric32 le b initial = do {
     let ac = (ucast (swap_if le initial) :: u32);
     s \<leftarrow> add_while le 4 [0, 4, 8, 12, 16, 20, 24, 28, 32, 36, 40, 44, 48, 52, 56, 60] ac 0 b;
     s \<leftarrow> add_if le 4 [0, 4, 8, 12, 16, 20, 24, 28] s;
     s \<leftarrow> add_if le 4 [0, 4, 8, 12] s;
     s \<leftarrow> add_if le 4 [0, 4] s;
     s \<leftarrow> add_if le 4 [0] s;
     s \<leftarrow> add_if le 2 [0] s;
     (ac, carry) \<leftarrow> add_last le s;
     Some (swap_if le (ipChecksumFold32 ac carry)) }"

section \<open>Blocks without a carry\<close>

fun plain_loads :: "bool \<Rightarrow> nat \<Rightarrow> bytes \<Rightarrow> nat list \<Rightarrow> 'w::len word \<Rightarrow> 'w word option" where
  "plain_loads le n b [] ac = Some ac"
| "plain_loads le n b (off # offs) ac = do {
     x \<leftarrow> load le n b off;
     plain_loads le n b offs (ac + x) }"

definition plain_if :: "bool \<Rightarrow> nat \<Rightarrow> nat list \<Rightarrow> 'w::len word \<times> bytes \<Rightarrow> ('w word \<times> bytes) option" where
  "plain_if le n offs s = (case s of (ac, b) \<Rightarrow>
     if n * length offs \<le> length b then do {
       ac \<leftarrow> plain_loads le n b offs ac;
       b \<leftarrow> slice_from b (n * length offs);
       Some (ac, b) }
     else Some (ac, b))"

function plain_while :: "bool \<Rightarrow> nat \<Rightarrow> nat list \<Rightarrow> 'w::len word \<Rightarrow> bytes \<Rightarrow> ('w word \<times> bytes) option" where
  "plain_while le n offs ac b =
     (if n * length offs \<le> length b \<and> 0 < n * length offs then do {
        ac \<leftarrow> plain_loads le n b offs ac;
        plain_while le n offs ac (drop (n * length offs) b) }
      else Some (ac, b))"
  by pat_completeness auto
termination
  by (relation "measure (\<lambda>(le, n, offs, ac, b). length b)") (auto intro!: diff_less simp: Suc_le_eq)

declare plain_while.simps [simp del]

definition plain_last :: "bool \<Rightarrow> 'w::len word \<times> bytes \<Rightarrow> 'w word option" where
  "plain_last le s = (case s of (ac, b) \<Rightarrow>
     if 1 \<le> length b then do {
       x \<leftarrow> last_byte le b;
       Some (ac + x) }
     else Some ac)"

definition alternate32_tail :: "bool \<Rightarrow> u32 \<times> bytes \<Rightarrow> u16 option" where
  "alternate32_tail le s = do {
     s \<leftarrow> plain_if le 2 [0, 2, 4, 6, 8, 10, 12, 14, 16, 18, 20, 22, 24, 26, 28, 30] s;
     s \<leftarrow> plain_if le 2 [0, 2, 4, 6, 8, 10, 12, 14] s;
     s \<leftarrow> plain_if le 2 [0, 2, 4, 6] s;
     s \<leftarrow> plain_if le 2 [0, 2] s;
     s \<leftarrow> plain_if le 2 [0] s;
     ac \<leftarrow> plain_last le s;
     Some (swap_if le (ipChecksumFold32 ac 0)) }"

definition checksumGeneric32Alternate :: "bool \<Rightarrow> bytes \<Rightarrow> u16 \<Rightarrow> u16 option" where
  "checksumGeneric32Alternate le b initial = do {
     let ac = (ucast (swap_if le initial) :: u32);
     s \<leftarrow> plain_while le 2 [0, 2, 4, 6, 8, 10, 12, 14, 16, 18, 20, 22, 24, 26, 28, 30,
            32, 34, 36, 38, 40, 42, 44, 46, 48, 50, 52, 54, 56, 58, 60, 62] ac b;
     alternate32_tail le s }"

definition checksumGeneric64Alternate :: "bool \<Rightarrow> bytes \<Rightarrow> u16 \<Rightarrow> u16 option" where
  "checksumGeneric64Alternate le b initial = do {
     let ac = (ucast (swap_if le initial) :: u64);
     s \<leftarrow> plain_while le 4 [0, 4, 8, 12, 16, 20, 24, 28, 32, 36, 40, 44, 48, 52, 56, 60] ac b;
     s \<leftarrow> plain_if le 4 [0, 4, 8, 12, 16, 20, 24, 28] s;
     s \<leftarrow> plain_if le 4 [0, 4, 8, 12] s;
     s \<leftarrow> plain_if le 4 [0, 4] s;
     s \<leftarrow> plain_if le 4 [0] s;
     s \<leftarrow> plain_if le 2 [0] s;
     ac \<leftarrow> plain_last le s;
     Some (swap_if le (ipChecksumFold64 ac 0)) }"

section \<open>The pseudo-header\<close>

definition addrPartialChecksum64 :: "bool \<Rightarrow> bytes \<Rightarrow> u64 \<times> u64 \<Rightarrow> (u64 \<times> u64) option" where
  "addrPartialChecksum64 le addr s =
     (if length addr = 4 then add_loads le 4 addr [0] s
      else if length addr = 16 then add_loads le 8 addr [0, 8] s
      else None)"

definition addrPartialChecksum32 :: "bool \<Rightarrow> bytes \<Rightarrow> u32 \<times> u32 \<Rightarrow> (u32 \<times> u32) option" where
  "addrPartialChecksum32 le addr s =
     (if length addr = 4 then add_loads le 4 addr [0] s
      else if length addr = 16 then add_loads le 4 addr [0, 4, 8, 12] s
      else None)"

definition pseudoHeaderChecksum64 :: "bool \<Rightarrow> u8 \<Rightarrow> bytes \<Rightarrow> bytes \<Rightarrow> u16 \<Rightarrow> u16 option" where
  "pseudoHeaderChecksum64 le protocol srcAddr dstAddr totalLen = do {
     let sum = (if le then ucast (ReverseBytes16 totalLen) + push_bit 8 (ucast protocol)
                else ucast totalLen + ucast protocol);
     s \<leftarrow> addrPartialChecksum64 le srcAddr (sum, 0);
     (sum, carry) \<leftarrow> addrPartialChecksum64 le dstAddr s;
     Some (swap_if le (ipChecksumFold64 sum carry)) }"

definition pseudoHeaderChecksum32 :: "bool \<Rightarrow> u8 \<Rightarrow> bytes \<Rightarrow> bytes \<Rightarrow> u16 \<Rightarrow> u16 option" where
  "pseudoHeaderChecksum32 le protocol srcAddr dstAddr totalLen = do {
     let sum = (if le then ucast (ReverseBytes16 totalLen) + push_bit 8 (ucast protocol)
                else ucast totalLen + ucast protocol);
     s \<leftarrow> addrPartialChecksum32 le srcAddr (sum, 0);
     (sum, carry) \<leftarrow> addrPartialChecksum32 le dstAddr s;
     Some (swap_if le (ipChecksumFold32 sum carry)) }"

definition PseudoHeaderChecksum_ts :: "bool \<Rightarrow> nat \<Rightarrow> u8 \<Rightarrow> bytes \<Rightarrow> bytes \<Rightarrow> u16 \<Rightarrow> u16 option" where
  "PseudoHeaderChecksum_ts le IntSize protocol srcAddr dstAddr totalLen =
     (if IntSize < 64 then pseudoHeaderChecksum32 le protocol srcAddr dstAddr totalLen
      else pseudoHeaderChecksum64 le protocol srcAddr dstAddr totalLen)"

text \<open>The exported \<^verbatim>\<open>Checksum\<close> of \<^verbatim>\<open>checksum_generic.go\<close> and of \<^verbatim>\<open>checksum_amd64.go\<close>.\<close>

definition Checksum_generic :: "bool \<Rightarrow> nat \<Rightarrow> bytes \<Rightarrow> u16 \<Rightarrow> u16 option" where
  "Checksum_generic le IntSize data initial =
     (if IntSize < 64 then checksumGeneric32 le data initial else checksumGeneric64 le data initial)"

definition Checksum_amd64 ::
    "bool \<Rightarrow> bool \<Rightarrow> bool \<Rightarrow> bool \<Rightarrow> (bytes \<Rightarrow> u16 \<Rightarrow> u16) \<Rightarrow> (bytes \<Rightarrow> u16 \<Rightarrow> u16) \<Rightarrow> (bytes \<Rightarrow> u16 \<Rightarrow> u16) \<Rightarrow>
     bytes \<Rightarrow> u16 \<Rightarrow> u16" where
  "Checksum_amd64 HasAVX HasAVX2 HasBMI2 HasSSE2 checksumAMD64 checksumAVX2 checksumSSE2 data initial =
     (if HasAVX \<and> HasAVX2 \<and> HasBMI2 then checksumAVX2 data initial
      else if HasSSE2 then checksumSSE2 data initial
      else checksumAMD64 data initial)"

section \<open>The accumulator and its carry represent the sum\<close>

definition acc_rep :: "bool \<Rightarrow> nat \<Rightarrow> 'w::len word \<times> 'w word \<times> bytes \<Rightarrow> bool" where
  "acc_rep le N s \<longleftrightarrow> (case s of (ac, carry, b) \<Rightarrow> unat carry \<le> 1 \<and>
     unat ac + unat carry < 2 ^ LENGTH('w) \<and>
     rep16 (unat ac + unat carry + order_scale le * sum16 b) N)"

lemma acc_rep_block:
  fixes ac carry :: "'w::len word"
  assumes "16 dvd LENGTH('w)" and "even n" and "8 * n \<le> LENGTH('w)"
    and "offs = map ((*) n) [0..<length offs]" and "n * length offs \<le> length b"
    and "acc_rep le N (ac, carry, b)"
  shows "returns (add_loads le n b offs (ac, carry)) (\<lambda>(a, c). acc_rep le N (a, c, drop (n * length offs) b))"
proof -
  have split: "sum16 b = sum16 (take (n * length offs) b) + sum16 (drop (n * length offs) b)"
    using assms(2,5) by (intro sum16_take_drop) simp_all
  have "returns (add_loads le n b offs (ac, carry)) (\<lambda>(a, c). unat c \<le> 1 \<and>
           unat a + unat c < 2 ^ LENGTH('w) \<and>
           rep16 (unat a + unat c)
             (unat ac + unat carry + order_scale le * sum16 (take (n * length offs) b)))"
    using assms by (intro returns_add_block) (auto simp: acc_rep_def)
  then show ?thesis
  proof (rule returns_mono, clarify)
    fix a c :: "'w word"
    assume ac: "unat c \<le> 1" "unat a + unat c < 2 ^ LENGTH('w)"
      and "rep16 (unat a + unat c) (unat ac + unat carry + order_scale le * sum16 (take (n * length offs) b))"
    from rep16_add_left [OF this(3), of "order_scale le * sum16 (drop (n * length offs) b)"]
    have "rep16 (unat a + unat c + order_scale le * sum16 (drop (n * length offs) b))
                (unat ac + unat carry + order_scale le * sum16 b)"
      by (simp add: split algebra_simps)
    with ac assms(6) show "acc_rep le N (a, c, drop (n * length offs) b)"
      by (auto simp: acc_rep_def intro: rep16_trans)
  qed
qed

lemma returns_add_if:
  fixes s :: "'w::len word \<times> 'w word \<times> bytes"
  assumes "16 dvd LENGTH('w)" and "even n" and "8 * n \<le> LENGTH('w)"
    and "offs = map ((*) n) [0..<length offs]"
    and "acc_rep le N s" and "length (snd (snd s)) < 2 * (n * length offs)"
    and "\<And>t. acc_rep le N t \<Longrightarrow> length (snd (snd t)) < n * length offs \<Longrightarrow> Q t"
  shows "returns (add_if le n offs s) Q"
proof -
  obtain ac carry b where s: "s = (ac, carry, b)" by (cases s) auto
  show ?thesis
  proof (cases "n * length offs \<le> length b")
    case True
    then have "returns (add_loads le n b offs (ac, carry)) (\<lambda>(a, c). acc_rep le N (a, c, drop (n * length offs) b))"
      using assms s by (intro acc_rep_block) simp_all
    with True assms(6) s show ?thesis
      by (auto simp: add_if_def go_simps elim!: returns_mono intro!: assms(7))
  next
    case False
    with assms s show ?thesis by (simp add: add_if_def)
  qed
qed

lemma returns_add_while:
  fixes ac carry :: "'w::len word"
  assumes "16 dvd LENGTH('w)" and "even n" and "8 * n \<le> LENGTH('w)"
    and "offs = map ((*) n) [0..<length offs]" and "0 < n * length offs"
    and "acc_rep le N (ac, carry, b)"
    and "\<And>t. acc_rep le N t \<Longrightarrow> length (snd (snd t)) < n * length offs \<Longrightarrow> Q t"
  shows "returns (add_while le n offs ac carry b) Q"
  using assms
proof (induction le n offs ac carry b rule: add_while.induct)
  case (1 le n offs ac carry b)
  show ?case
  proof (cases "n * length offs \<le> length b")
    case True
    with 1 acc_rep_block [of n offs b le N ac carry]
    obtain a c where a: "add_loads le n b offs (ac, carry) = Some (a, c)"
      and r: "acc_rep le N (a, c, drop (n * length offs) b)"
      by (auto simp: returns_iff)
    have "returns (add_while le n offs a c (drop (n * length offs) b)) Q"
      using 1 True a r by (intro "1.IH") auto
    then show ?thesis
      using 1 True a by (subst add_while.simps) auto
  next
    case False
    then show ?thesis using 1 by (subst add_while.simps) simp
  qed
qed

lemma last_byte_in:
  fixes x :: "'w::len word"
  assumes "16 \<le> LENGTH('w)"
  shows "\<exists>x :: 'w word. last_byte le [b] = Some x \<and> unat x = (if le then unat b else 256 * unat b)"
  using assms by (auto simp: last_byte_def go_simps unat_push8 unat_ucast_up)

lemma rep16_last_byte: "rep16 (if le then unat b else 256 * unat b) (order_scale le * sum16 [b])"
  using rep16_sym [OF rep16_swap_twice, of "unat b"] by (simp add: order_scale_def)

lemma returns_add_last:
  fixes s :: "'w::len word \<times> 'w word \<times> bytes"
  assumes "16 dvd LENGTH('w)" and "acc_rep le N s" and "length (snd (snd s)) < 2"
    and "\<And>a c. acc_rep le N (a, c, []) \<Longrightarrow> Q (a, c)"
  shows "returns (add_last le s) Q"
proof -
  obtain ac carry b where s: "s = (ac, carry, b)" by (cases s) auto
  show ?thesis
  proof (cases b)
    case Nil
    with assms s show ?thesis by (simp add: add_last_def)
  next
    case (Cons b0 r)
    with assms(3) s have b: "b = [b0]" by (cases r) simp_all
    have "16 \<le> LENGTH('w)" using assms(1) by (simp add: dvd_imp_le)
    then obtain x :: "'w word" where x: "last_byte le [b0] = Some x" "unat x = (if le then unat b0 else 256 * unat b0)"
      using last_byte_in by blast
    obtain a c where ac: "bits_Add ac x carry = (a, c)" by force
    have inv: "unat carry \<le> 1" "unat ac + unat carry < 2 ^ LENGTH('w)"
      "rep16 (unat ac + unat carry + order_scale le * sum16 [b0]) N"
      using assms(2) s b by (auto simp: acc_rep_def)
    have "rep16 (unat ac + unat carry + unat x) (unat ac + unat carry + order_scale le * sum16 [b0])"
      unfolding x(2) by (rule rep16_add_right [OF rep16_last_byte])
    then have "rep16 (unat a + unat c) N"
      using bits_Add_rep [OF inv(1) assms(1), of ac x] ac inv(3)
      by (auto simp: ac_simps intro: rep16_trans)
    then have "acc_rep le N (a, c, [])"
      using bits_Add_carry [of ac x carry] bits_Add_fits [OF inv(1,2), of x] ac
      by (simp add: acc_rep_def)
    then show ?thesis
      using assms(4) s b x ac by (simp add: add_last_def)
  qed
qed

section \<open>The last folds\<close>

lemma rep16_ipChecksumFold64:
  assumes "unat carry \<le> 1" and "unat ac + unat carry < 2 ^ 64"
  shows "rep16 (unat (ipChecksumFold64 ac carry)) (unat ac + unat carry)"
proof -
  define h l c where "h = (ucast (drop_bit 32 ac) :: u32)" and "l = (ucast (ac AND 0xffffffff) :: u32)"
    and "c = (ucast carry :: u32)"
  have hi: "unat ac div 4294967296 < 4294967296" by (rule less_mult_imp_div_less) simp
  have hl: "unat h = unat ac div 4294967296" "unat l = unat ac mod 4294967296" "unat c = unat carry"
    using hi assms(1) by (simp_all add: h_def l_def c_def unat_ucast_mod unat_drop_bit unat_and_ffffffff)
  obtain s c' where sc: "bits_Add h l c = (s, c')" by force
  have c': "unat c' \<le> 1" using bits_Add_carry [of h l c] sc by simp
  have exact: "unat s + unat c' * 4294967296 = unat h + unat l + unat c"
    using bits_Add_exact [of c h l] hl(3) assms(1) sc by simp
  have lt: "unat h + unat l + unat c < 2 * 4294967296 - 1"
  proof (cases "unat carry = 0")
    case False
    then have "unat h * 4294967296 + unat l < 18446744073709551615"
      using assms hl div_mult_mod_eq [of "unat ac" 4294967296] by simp
    then have "unat h < 4294967295 \<or> unat l < 4294967295" by auto
    then have "unat h + unat l < 2 * 4294967296 - 2"
      using unat_u32_less [of h] unat_u32_less [of l] by (auto simp del: unat_u32_less)
    then show ?thesis using assms(1) hl(3) by simp
  qed (use hl(3) unat_u32_less [of h] unat_u32_less [of l] in linarith)
  define t where "t = drop_bit 16 s + (s AND 0xffff) + c'"
  have fold: "unat s div 65536 + unat s mod 65536 \<le> 131070" by (rule halves_bound) simp
  have t: "unat t = unat s div 65536 + unat s mod 65536 + unat c'"
    unfolding t_def using fold c' by (subst unat_plus_small) (simp_all add: unat_halves)
  have "unat t \<le> 131070"
  proof (cases "unat c' = 0")
    case False
    then have "unat s < 4294967295" using exact lt c' by auto
    then have "unat s div 65536 + unat s mod 65536 < 131070"
      using mult_div_mod_eq [of 65536 "unat s"] mod_less_divisor [of 65536 "unat s"]
        less_mult_imp_div_less [of "unat s" 65536 65536] by linarith
    then show ?thesis using t c' by simp
  qed (use t fold in simp)
  then have "unat (ipChecksumFold64 ac carry) = unat t div 65536 + unat t mod 65536"
    using halves_small [of "unat t"] unat_halves [of t] sc
    by (simp add: ipChecksumFold64_def unat_ucast_mod flip: h_def l_def c_def t_def)
  also have "rep16 \<dots> (unat t)" using rep16_halves [of "unat t" 1] by simp
  also have "rep16 (unat t) (unat s + unat c')"
    unfolding t using rep16_halves [of "unat s" 1] by (intro rep16_add_left) simp
  also have "rep16 \<dots> (unat h + unat l + unat c)"
    using exact by (intro rep16_carry_power [of _ _ 2]) simp
  also have "rep16 \<dots> (unat ac + unat carry)"
    unfolding hl using rep16_halves [of "unat ac" 2] by (intro rep16_add_left) simp
  finally show ?thesis .
qed

lemma rep16_ipChecksumFold32:
  assumes "unat carry \<le> 1"
  shows "rep16 (unat (ipChecksumFold32 ac carry)) (unat ac + unat carry)"
proof -
  define t where "t = drop_bit 16 ac + (ac AND 0xffff) + carry"
  define u where "u = drop_bit 16 t + (t AND 0xffff)"
  have fold: "unat ac div 65536 + unat ac mod 65536 \<le> 131070" by (rule halves_bound) simp
  then have t: "unat t = unat ac div 65536 + unat ac mod 65536 + unat carry"
    unfolding t_def using assms by (subst unat_plus_small) (simp_all add: unat_halves)
  have u: "unat u = unat t div 65536 + unat t mod 65536"
    unfolding u_def by (rule unat_halves) simp
  have "unat t div 65536 < 2" using t fold assms by (intro less_mult_imp_div_less) simp
  then have "unat u \<le> 131070" using u mod_less_divisor [of 65536 "unat t"] by linarith
  then have "unat (ipChecksumFold32 ac carry) = unat u div 65536 + unat u mod 65536"
    using halves_small [of "unat u"] unat_halves [of u]
    by (simp add: ipChecksumFold32_def Let_def unat_ucast_mod flip: t_def u_def)
  also have "rep16 \<dots> (unat u)" using rep16_halves [of "unat u" 1] by simp
  also have "rep16 \<dots> (unat t)"
    unfolding u using rep16_halves [of "unat t" 1] by simp
  also have "rep16 (unat t) (unat ac + unat carry)"
    unfolding t using rep16_halves [of "unat ac" 1] by (intro rep16_add_left) simp
  finally show ?thesis .
qed

section \<open>The routines with a carry\<close>

lemma rep16_swap_if: "rep16 (unat (swap_if le v)) (order_scale le * unat v)"
  by (simp add: swap_if_def order_scale_def rep16_ReverseBytes16)

lemma swap_if_rfc1071:
  assumes "rep16 (unat v) (order_scale le * (unat initial + sum16 b))"
  shows "swap_if le v = rfc1071 b initial"
proof (rule rfc1071_eqI)
  have "rep16 (unat (swap_if le v)) (order_scale le * (order_scale le * (unat initial + sum16 b)))"
    using rep16_swap_if rep16_scale [OF assms] by (rule rep16_trans)
  then show "rep16 (unat (swap_if le v)) (unat initial + sum16 b)"
    using rep16_scale_twice by (rule rep16_trans)
qed

lemma rep16_swapped_initial:
  assumes "16 \<le> LENGTH('w)"
  shows "rep16 (unat (ucast (swap_if le initial) :: 'w::len word) + order_scale le * sum16 b)
               (order_scale le * (unat initial + sum16 b))"
  using assms rep16_swap_if [of le initial]
  unfolding add_mult_distrib2 by (intro rep16_add_left) (simp add: unat_ucast_up)

lemma acc_rep_initial:
  assumes "16 \<le> LENGTH('w)"
  shows "acc_rep le (order_scale le * (unat initial + sum16 b)) (ucast (swap_if le initial) :: 'w::len word, 0, b)"
  using rep16_swapped_initial [OF assms, of le initial b] by (simp add: acc_rep_def unsigned_less)

lemma swap_if_fold64:
  assumes "acc_rep le (order_scale le * (unat initial + sum16 b)) (ac, carry, [])"
  shows "swap_if le (ipChecksumFold64 ac carry) = rfc1071 b initial"
  using assms rep16_ipChecksumFold64 [of carry ac]
  by (intro swap_if_rfc1071) (auto simp: acc_rep_def intro: rep16_trans)

lemma swap_if_fold32:
  assumes "acc_rep le (order_scale le * (unat initial + sum16 b)) (ac, carry, [])"
  shows "swap_if le (ipChecksumFold32 ac carry) = rfc1071 b initial"
  using assms rep16_ipChecksumFold32 [of carry ac]
  by (intro swap_if_rfc1071) (auto simp: acc_rep_def intro: rep16_trans)

lemma checksumGeneric64_eq: "checksumGeneric64 le b initial = Some (rfc1071 b initial)"
  unfolding checksumGeneric64_def Let_def returns_eq [symmetric] returns_bind
  by (rule returns_add_while [OF _ _ _ _ _ acc_rep_initial], simp_all add: upt_rec)
    ((rule returns_add_if returns_add_last; simp add: upt_rec)+, simp add: swap_if_fold64)

lemma checksumGeneric32_eq: "checksumGeneric32 le b initial = Some (rfc1071 b initial)"
  unfolding checksumGeneric32_def Let_def returns_eq [symmetric] returns_bind
  by (rule returns_add_while [OF _ _ _ _ _ acc_rep_initial], simp_all add: upt_rec)
    ((rule returns_add_if returns_add_last; simp add: upt_rec)+, simp add: swap_if_fold32)

section \<open>The routines without a carry\<close>

lemma returns_plain_loads:
  fixes ac :: "'w::len word"
  assumes "even n" and "8 * n \<le> LENGTH('w)"
    and "\<forall>off\<in>set offs. off + n \<le> length b"
    and "unat ac + 256 ^ n * length offs < 2 ^ LENGTH('w)"
  shows "returns (plain_loads le n b offs ac) (\<lambda>a.
           unat a \<le> unat ac + (256 ^ n - 1) * length offs \<and>
           rep16 (unat a) (unat ac + order_scale le * (\<Sum>off\<leftarrow>offs. sum16 (take n (drop off b)))))"
  using assms(3-)
proof (induction offs arbitrary: ac)
  case (Cons off offs)
  let ?w = "take n (drop off b)"
  have len: "length ?w = n" using Cons.prems by (simp add: min_def) linarith
  have *: "returns (plain_loads le n b offs (ac + x)) (\<lambda>a.
             unat a \<le> unat ac + (256 ^ n - 1) * length (off # offs) \<and>
             rep16 (unat a) (unat ac + order_scale le * (\<Sum>off\<leftarrow>off # offs. sum16 (take n (drop off b)))))"
    if x: "unat x = order_nat le ?w" for x :: "'w word"
  proof -
    have lt: "unat x < 256 ^ n" using order_nat_bound [of le ?w] x len by simp
    then have sum: "unat (ac + x) = unat ac + unat x"
      using Cons.prems by (intro unat_plus_small) simp
    have "rep16 (unat x) (order_scale le * sum16 ?w)"
      unfolding x using assms(1) len by (intro rep16_order_nat) simp
    then have r: "rep16 (unat (ac + x) + k) (unat ac + order_scale le * sum16 ?w + k)" for k
      unfolding sum by (intro rep16_add rep16_refl)
    have "returns (plain_loads le n b offs (ac + x)) (\<lambda>a.
           unat a \<le> unat (ac + x) + (256 ^ n - 1) * length offs \<and>
           rep16 (unat a) (unat (ac + x) + order_scale le * (\<Sum>off\<leftarrow>offs. sum16 (take n (drop off b)))))"
      using Cons.prems lt sum by (intro Cons.IH) auto
    then show ?thesis
      by (rule returns_mono) (use lt sum in \<open>auto simp: add_mult_distrib2 intro: rep16_trans [OF _ r [unfolded add.assoc]]\<close>)
  qed
  show ?case
    unfolding plain_loads.simps returns_bind
    using Cons.prems assms(2) by (intro returns_load *) auto
qed simp

text \<open>
  Without a carry the sum must fit the accumulator: \<open>B\<close> bounds what one byte of the buffer can
  add to it.
\<close>

definition plain_rep :: "bool \<Rightarrow> nat \<Rightarrow> nat \<Rightarrow> 'w::len word \<times> bytes \<Rightarrow> bool" where
  "plain_rep le B N s \<longleftrightarrow> (case s of (ac, b) \<Rightarrow>
     unat ac + B * length b < 2 ^ LENGTH('w) \<and> rep16 (unat ac + order_scale le * sum16 b) N)"

lemma plain_rep_block:
  fixes ac :: "'w::len word"
  assumes "even n" and "8 * n \<le> LENGTH('w)" and "256 ^ n \<le> n * B"
    and "offs = map ((*) n) [0..<length offs]" and "n * length offs \<le> length b"
    and "plain_rep le B N (ac, b)"
  shows "returns (plain_loads le n b offs ac) (\<lambda>a. plain_rep le B N (a, drop (n * length offs) b))"
proof -
  let ?k = "n * length offs"
  have inv: "unat ac + B * length b < 2 ^ LENGTH('w)" "rep16 (unat ac + order_scale le * sum16 b) N"
    using assms(6) by (simp_all add: plain_rep_def)
  have used: "256 ^ n * length offs \<le> B * ?k"
    using mult_le_mono1 [OF assms(3), of "length offs"] by (simp add: ac_simps)
  have len: "B * length b = B * ?k + B * length (drop ?k b)"
    using assms(5) by (simp flip: add_mult_distrib2)
  have split: "sum16 b = sum16 (take ?k b) + sum16 (drop ?k b)"
    using assms(1,5) by (intro sum16_take_drop) simp_all
  have sums: "(\<Sum>off\<leftarrow>offs. sum16 (take n (drop off b))) = sum16 (take ?k b)"
    using sum16_blocks [OF assms(1,5)] unfolding assms(4) [symmetric] .
  have fits: "unat ac + 256 ^ n * length offs < 2 ^ LENGTH('w)"
    using inv(1) used len by linarith
  have "returns (plain_loads le n b offs ac) (\<lambda>a.
           unat a \<le> unat ac + (256 ^ n - 1) * length offs \<and>
           rep16 (unat a) (unat ac + order_scale le * sum16 (take ?k b)))"
    unfolding sums [symmetric]
    by (rule returns_plain_loads [OF assms(1,2) _ fits]) (use block_in_range [OF assms(4,5)] in blast)
  then show ?thesis
  proof (rule returns_mono)
    fix a :: "'w word"
    assume a: "unat a \<le> unat ac + (256 ^ n - 1) * length offs \<and>
      rep16 (unat a) (unat ac + order_scale le * sum16 (take ?k b))"
    have "(256 ^ n - 1) * length offs \<le> 256 ^ n * length offs" by (rule mult_le_mono1) simp
    then have "unat a + B * length (drop ?k b) < 2 ^ LENGTH('w)"
      using a inv(1) used len by linarith
    moreover have "rep16 (unat a + order_scale le * sum16 (drop ?k b)) (unat ac + order_scale le * sum16 b)"
      using rep16_add_left [OF conjunct2 [OF a], of "order_scale le * sum16 (drop ?k b)"]
      by (simp add: split algebra_simps)
    ultimately show "plain_rep le B N (a, drop ?k b)"
      using inv(2) by (auto simp: plain_rep_def intro: rep16_trans)
  qed
qed

lemma returns_plain_if:
  fixes s :: "'w::len word \<times> bytes"
  assumes "even n" and "8 * n \<le> LENGTH('w)" and "256 ^ n \<le> n * B"
    and "offs = map ((*) n) [0..<length offs]"
    and "plain_rep le B N s" and "length (snd s) < 2 * (n * length offs)"
    and "\<And>t. plain_rep le B N t \<Longrightarrow> length (snd t) < n * length offs \<Longrightarrow> Q t"
  shows "returns (plain_if le n offs s) Q"
proof -
  obtain ac b where s: "s = (ac, b)" by (cases s) auto
  show ?thesis
  proof (cases "n * length offs \<le> length b")
    case True
    then have "returns (plain_loads le n b offs ac) (\<lambda>a. plain_rep le B N (a, drop (n * length offs) b))"
      using assms s by (intro plain_rep_block) simp_all
    with True assms(6) s show ?thesis
      by (auto simp: plain_if_def go_simps elim!: returns_mono intro!: assms(7))
  next
    case False
    with assms s show ?thesis by (simp add: plain_if_def)
  qed
qed

lemma returns_plain_while:
  fixes ac :: "'w::len word"
  assumes "even n" and "8 * n \<le> LENGTH('w)" and "256 ^ n \<le> n * B"
    and "offs = map ((*) n) [0..<length offs]" and "0 < n * length offs"
    and "plain_rep le B N (ac, b)"
    and "\<And>t. plain_rep le B N t \<Longrightarrow> length (snd t) < n * length offs \<Longrightarrow> Q t"
  shows "returns (plain_while le n offs ac b) Q"
  using assms
proof (induction le n offs ac b rule: plain_while.induct)
  case (1 le n offs ac b)
  show ?case
  proof (cases "n * length offs \<le> length b")
    case True
    with 1 plain_rep_block [of n B offs b le N ac]
    obtain a where a: "plain_loads le n b offs ac = Some a"
      and r: "plain_rep le B N (a, drop (n * length offs) b)"
      by (auto simp: returns_iff)
    have "returns (plain_while le n offs a (drop (n * length offs) b)) Q"
      using 1 True a r by (intro "1.IH") auto
    then show ?thesis
      using 1 True a by (subst plain_while.simps) auto
  next
    case False
    then show ?thesis using 1 by (subst plain_while.simps) simp
  qed
qed

lemma returns_plain_last:
  fixes s :: "'w::len word \<times> bytes"
  assumes "16 \<le> LENGTH('w)" and "65280 \<le> B" and "plain_rep le B N s" and "length (snd s) < 2"
    and "\<And>a. rep16 (unat a) N \<Longrightarrow> Q a"
  shows "returns (plain_last le s) Q"
proof -
  obtain ac b where s: "s = (ac, b)" by (cases s) auto
  show ?thesis
  proof (cases b)
    case Nil
    with assms s show ?thesis by (simp add: plain_last_def plain_rep_def)
  next
    case (Cons b0 r)
    with assms(4) s have b: "b = [b0]" by (cases r) simp_all
    obtain x :: "'w word" where x: "last_byte le [b0] = Some x" "unat x = (if le then unat b0 else 256 * unat b0)"
      using last_byte_in [OF assms(1)] by blast
    have "unat x \<le> B" using x(2) assms(2) unat_u8_less [of b0] by (auto simp del: unat_u8_less)
    then have "unat (ac + x) = unat ac + unat x"
      using assms(3) s b by (intro unat_plus_small) (simp add: plain_rep_def)
    moreover have "rep16 (unat ac + unat x) (unat ac + order_scale le * sum16 [b0])"
      unfolding x(2) by (rule rep16_add_right [OF rep16_last_byte])
    ultimately have "rep16 (unat (ac + x)) N"
      using assms(3) s b by (auto simp: plain_rep_def intro: rep16_trans)
    then show ?thesis using assms(5) s b x by (simp add: plain_last_def)
  qed
qed

lemma plain_rep_initial:
  assumes "16 \<le> LENGTH('w)" and "65535 + B * length b < 2 ^ LENGTH('w)"
  shows "plain_rep le B (order_scale le * (unat initial + sum16 b)) (ucast (swap_if le initial) :: 'w::len word, b)"
proof -
  have "unat (ucast (swap_if le initial) :: 'w word) \<le> 65535"
    using assms(1) by (simp add: unat_ucast_up)
  then show ?thesis
    using assms rep16_swapped_initial [OF assms(1), of le initial b] by (simp add: plain_rep_def)
qed

lemma swap_if_plain32:
  "rep16 (unat ac) (order_scale le * (unat initial + sum16 b)) \<Longrightarrow>
   swap_if le (ipChecksumFold32 ac 0) = rfc1071 b initial"
  by (rule swap_if_fold32) (simp add: acc_rep_def)

lemma swap_if_plain64:
  "rep16 (unat ac) (order_scale le * (unat initial + sum16 b)) \<Longrightarrow>
   swap_if le (ipChecksumFold64 ac 0) = rfc1071 b initial"
  by (rule swap_if_fold64) (simp add: acc_rep_def)

lemma checksumGeneric32Alternate_eq:
  assumes "length b \<le> 65536"
  shows "checksumGeneric32Alternate le b initial = Some (rfc1071 b initial)"
  unfolding checksumGeneric32Alternate_def alternate32_tail_def Let_def returns_eq [symmetric] returns_bind
  using assms
  by (intro returns_plain_while [where B = 65280, OF _ _ _ _ _ plain_rep_initial], simp_all add: upt_rec)
    (rule returns_plain_if [where B = 65280] returns_plain_last [where B = 65280
        and N = "order_scale le * (unat initial + sum16 b)"];
      simp add: upt_rec swap_if_plain32)+

lemma checksumGeneric64Alternate_eq:
  assumes "length b < 2 ^ 33"
  shows "checksumGeneric64Alternate le b initial = Some (rfc1071 b initial)"
  unfolding checksumGeneric64Alternate_def Let_def returns_eq [symmetric] returns_bind
  using assms
  by (intro returns_plain_while [where B = 1073741824, OF _ _ _ _ _ plain_rep_initial], simp_all add: upt_rec)
    (rule returns_plain_if [where B = 1073741824] returns_plain_last [where B = 1073741824
        and N = "order_scale le * (unat initial + sum16 b)"];
      simp add: upt_rec swap_if_plain64)+

section \<open>The pseudo-header sum\<close>

text \<open>The pseudo-header of RFC 793 and RFC 8200 as the bytes it stands for.\<close>

definition pseudo_header :: "u8 \<Rightarrow> bytes \<Rightarrow> bytes \<Rightarrow> u16 \<Rightarrow> bytes" where
  "pseudo_header protocol srcAddr dstAddr totalLen =
     srcAddr @ dstAddr @ [0, protocol] @ [hi8 totalLen, lo8 totalLen]"

lemma sum16_pseudo_header:
  assumes "even (length src)" and "even (length dst)"
  shows "sum16 (pseudo_header protocol src dst totalLen) =
         unat totalLen + unat protocol + (sum16 src + sum16 dst)"
  using assms by (simp add: pseudo_header_def sum16_append)

definition pair_rep :: "nat \<Rightarrow> 'w::len word \<times> 'w word \<Rightarrow> bool" where
  "pair_rep N s \<longleftrightarrow> (case s of (ac, carry) \<Rightarrow>
     unat carry \<le> 1 \<and> unat ac + unat carry < 2 ^ LENGTH('w) \<and> rep16 (unat ac + unat carry) N)"

lemma returns_addr_block:
  fixes s :: "'w::len word \<times> 'w word"
  assumes "16 dvd LENGTH('w)" and "even n" and "8 * n \<le> LENGTH('w)"
    and "offs = map ((*) n) [0..<length offs]" and "n * length offs = length addr"
    and "pair_rep N s" and "\<And>t. pair_rep (N + order_scale le * sum16 addr) t \<Longrightarrow> Q t"
  shows "returns (add_loads le n addr offs s) Q"
proof -
  obtain ac carry where s: "s = (ac, carry)" by (cases s) auto
  have inv: "unat carry \<le> 1" "unat ac + unat carry < 2 ^ LENGTH('w)" "rep16 (unat ac + unat carry) N"
    using assms(6) s by (simp_all add: pair_rep_def)
  have "returns (add_loads le n addr offs (ac, carry)) (\<lambda>(a, c). unat c \<le> 1 \<and>
           unat a + unat c < 2 ^ LENGTH('w) \<and>
           rep16 (unat a + unat c) (unat ac + unat carry + order_scale le * sum16 addr))"
    using returns_add_block [OF assms(1-4) _ inv(1,2), of addr le] assms(5) by simp
  then show ?thesis
    unfolding s by (rule returns_mono)
      (auto intro!: assms(7) simp: pair_rep_def elim: rep16_trans [OF _ rep16_add_left [OF inv(3)]])
qed

lemma returns_addrPartial64:
  assumes "length addr = 4 \<or> length addr = 16" and "pair_rep N s"
    and "\<And>t. pair_rep (N + order_scale le * sum16 addr) t \<Longrightarrow> Q t"
  shows "returns (addrPartialChecksum64 le addr s) Q"
  using assms unfolding addrPartialChecksum64_def
  by (cases "length addr = 4") (auto intro: returns_addr_block simp: upt_rec)

lemma returns_addrPartial32:
  assumes "length addr = 4 \<or> length addr = 16" and "pair_rep N s"
    and "\<And>t. pair_rep (N + order_scale le * sum16 addr) t \<Longrightarrow> Q t"
  shows "returns (addrPartialChecksum32 le addr s) Q"
  using assms unfolding addrPartialChecksum32_def
  by (cases "length addr = 4") (auto intro: returns_addr_block simp: upt_rec)

lemma pair_rep_start:
  assumes "32 \<le> LENGTH('w)"
  shows "pair_rep (order_scale le * (unat totalLen + unat protocol))
    (if le then ucast (ReverseBytes16 totalLen) + push_bit 8 (ucast (protocol :: u8))
     else ucast totalLen + ucast protocol :: 'w::len word, 0)"
proof -
  have big: "(4294967296 :: nat) \<le> 2 ^ LENGTH('w)"
    using assms power_increasing [of 32 "LENGTH('w)" "2 :: nat"] by simp
  have "unat x + 256 * unat p < 4294967296" "unat x + unat p < 4294967296" for x :: u16 and p :: u8
    using unat_u16_less [of x] unat_u8_less [of p] by linarith+
  then have "unat (ucast x + push_bit 8 (ucast p) :: 'w word) = unat x + 256 * unat p"
    "unat (ucast x + ucast p :: 'w word) = unat x + unat p" for x :: u16 and p :: u8
    using assms big
    by (subst unat_plus_small; simp add: unat_ucast_up unat_push8 less_le_trans [OF _ big])+
  then show ?thesis
    using rep16_add_left [OF rep16_ReverseBytes16, of totalLen "256 * unat protocol"]
    by (auto simp: pair_rep_def order_scale_def add_mult_distrib2 unsigned_less)
qed

lemma pair_rep_pseudo:
  assumes "even (length src)" and "even (length dst)"
    and "pair_rep (order_scale le * (unat totalLen + unat protocol) + order_scale le * sum16 src + order_scale le * sum16 dst) (ac, carry)"
  shows "acc_rep le (order_scale le * (unat (0 :: u16) + sum16 (pseudo_header protocol src dst totalLen))) (ac, carry, [])"
  using assms(3) unfolding sum16_pseudo_header [OF assms(1,2)]
  by (simp add: acc_rep_def pair_rep_def algebra_simps)

lemma pseudoHeaderChecksum64_eq:
  assumes src: "length srcAddr = 4 \<or> length srcAddr = 16" and dst: "length dstAddr = 4 \<or> length dstAddr = 16"
  shows "pseudoHeaderChecksum64 le protocol srcAddr dstAddr totalLen =
         Some (rfc1071 (pseudo_header protocol srcAddr dstAddr totalLen) 0)"
proof -
  have "even (length srcAddr)" "even (length dstAddr)" using src dst by auto
  note fin = swap_if_fold64 [OF pair_rep_pseudo [OF this]]
  show ?thesis
    unfolding pseudoHeaderChecksum64_def Let_def returns_eq [symmetric] returns_bind
    by (rule returns_addrPartial64 [OF src pair_rep_start], simp,
        erule returns_addrPartial64 [OF dst], auto dest: fin)
qed

lemma pseudoHeaderChecksum32_eq:
  assumes src: "length srcAddr = 4 \<or> length srcAddr = 16" and dst: "length dstAddr = 4 \<or> length dstAddr = 16"
  shows "pseudoHeaderChecksum32 le protocol srcAddr dstAddr totalLen =
         Some (rfc1071 (pseudo_header protocol srcAddr dstAddr totalLen) 0)"
proof -
  have "even (length srcAddr)" "even (length dstAddr)" using src dst by auto
  note fin = swap_if_fold32 [OF pair_rep_pseudo [OF this]]
  show ?thesis
    unfolding pseudoHeaderChecksum32_def Let_def returns_eq [symmetric] returns_bind
    by (rule returns_addrPartial32 [OF src pair_rep_start], simp,
        erule returns_addrPartial32 [OF dst], auto dest: fin)
qed

section \<open>The interface and the properties\<close>

interpretation generic64: checksum_routine "checksumGeneric64 le" for le
  by unfold_locales (simp add: checksumGeneric64_eq rep16_fold16)

interpretation generic32: checksum_routine "checksumGeneric32 le" for le
  by unfold_locales (simp add: checksumGeneric32_eq rep16_fold16)

interpretation generic: checksum_routine "Checksum_generic le IntSize" for le IntSize
  by unfold_locales (simp add: Checksum_generic_def checksumGeneric64_eq checksumGeneric32_eq rep16_fold16)

text \<open>
  C20. The portable \<open>Checksum\<close> of this package, with its 64-bit and its 32-bit routine and on either
  byte order, returns the checksum of RFC 1071 for every buffer and initial value.
\<close>

theorem Checksum_generic_rfc1071:
  "Checksum_generic le IntSize data initial = Some (rfc1071 data initial)"
  by (rule generic.ck_eq)

text \<open>
  The alternate routines, which add without carries, return the same checksum as the main
  routines for every buffer of at most 65536 bytes.
\<close>

theorem alternates_agree:
  assumes "length b \<le> 65536"
  shows "checksumGeneric32Alternate le b initial = checksumGeneric32 le b initial \<and>
         checksumGeneric64Alternate le b initial = checksumGeneric64 le b initial"
  using assms by (simp add: checksumGeneric32Alternate_eq checksumGeneric64Alternate_eq
      checksumGeneric32_eq checksumGeneric64_eq)

theorem alternates_agree_witness:
  "checksumGeneric32Alternate True [1, 2, 3] 5 = checksumGeneric32 True [1, 2, 3] 5 \<and>
   checksumGeneric64Alternate True [1, 2, 3] 5 = checksumGeneric64 True [1, 2, 3] 5"
  by (rule alternates_agree) simp

text \<open>
  C34. For addresses of four or sixteen bytes \<open>PseudoHeaderChecksum\<close> returns the checksum of the
  pseudo-header of RFC 793 and RFC 8200, and for addresses of any other length it panics.
\<close>

theorem PseudoHeaderChecksum_ts_correct:
  "PseudoHeaderChecksum_ts le IntSize protocol srcAddr dstAddr totalLen =
     (if length srcAddr \<in> {4, 16} \<and> length dstAddr \<in> {4, 16}
      then Some (rfc1071 (pseudo_header protocol srcAddr dstAddr totalLen) 0) else None)"
proof (cases "length srcAddr \<in> {4, 16} \<and> length dstAddr \<in> {4, 16}")
  case True
  then show ?thesis
    by (simp add: PseudoHeaderChecksum_ts_def pseudoHeaderChecksum32_eq pseudoHeaderChecksum64_eq)
next
  case False
  then show ?thesis
    by (auto simp: PseudoHeaderChecksum_ts_def pseudoHeaderChecksum32_def pseudoHeaderChecksum64_def
        addrPartialChecksum32_def addrPartialChecksum64_def Let_def bind_eq_None_conv)
qed

end
