(* ===== verification/Seqnum.thy ===== *)
theory Seqnum
  imports Go_Prelude
begin

text \<open>
  The package \<^verbatim>\<open>internal/gtcpip/seqnum\<close>: TCP sequence numbers, 32-bit values that wrap around.
\<close>

type_synonym Value = u32
type_synonym Size = u32

definition LessThan :: "Value \<Rightarrow> Value \<Rightarrow> bool" where
  "LessThan v w \<longleftrightarrow> sint (v - w) < 0"

definition LessThanEq :: "Value \<Rightarrow> Value \<Rightarrow> bool" where
  "LessThanEq v w \<longleftrightarrow> (if v = w then True else LessThan v w)"

definition InRange :: "Value \<Rightarrow> Value \<Rightarrow> Value \<Rightarrow> bool" where
  "InRange v a b \<longleftrightarrow> v - a < b - a"

definition Value_Add :: "Value \<Rightarrow> Size \<Rightarrow> Value" where
  "Value_Add v s = v + s"

definition InWindow :: "Value \<Rightarrow> Value \<Rightarrow> Size \<Rightarrow> bool" where
  "InWindow v first sz = InRange v first (Value_Add first sz)"

definition Value_Size :: "Value \<Rightarrow> Value \<Rightarrow> Size" where
  "Value_Size v w = w - v"

definition UpdateForward :: "Value \<Rightarrow> Size \<Rightarrow> Value" where
  "UpdateForward v s = v + s"

lemmas seqnum_defs =
  LessThan_def LessThanEq_def InRange_def Value_Add_def InWindow_def Value_Size_def UpdateForward_def

lemma sint_neg_iff: "sint x < 0 \<longleftrightarrow> 2 ^ 31 \<le> unat (x :: u32)"
proof -
  have "sint x < 0 \<longleftrightarrow> bit x 31"
    using bit_last_iff [of x] by simp
  also have "\<dots> \<longleftrightarrow> bit (unat x) 31"
    by (simp add: bit_unsigned_iff)
  also have "\<dots> \<longleftrightarrow> odd (unat x div 2 ^ 31)"
    by (rule bit_iff_odd)
  also have "\<dots> \<longleftrightarrow> 2 ^ 31 \<le> unat x"
  proof -
    have "unat x div 2 ^ 31 < 2" by (rule less_mult_imp_div_less) simp
    then have "odd (unat x div 2 ^ 31) \<longleftrightarrow> unat x div 2 ^ 31 \<noteq> 0" by (auto simp: less_2_cases_iff)
    then show ?thesis by (simp add: div_eq_0_iff not_less)
  qed
  finally show ?thesis .
qed

lemma unat_uminus: "x \<noteq> 0 \<Longrightarrow> unat (- x) = 2 ^ 32 - unat (x :: u32)"
  using unat_sub_if' [of 0 x] by (simp add: word_le_nat_alt unat_eq_0)

text \<open>
  Comparison and windows are right across the wrap-around: moving forward by \<open>s\<close> gives a later
  sequence number exactly when \<open>s\<close> is not zero and at most half of the sequence space, the
  number \<open>k\<close> steps after the start of a window of \<open>n\<close> is in the window exactly when \<open>k < n\<close>,
  and the size of the range spanned by moving forward by \<open>s\<close> is \<open>s\<close>.
\<close>

theorem seqnum_wraps:
  "(LessThan v (UpdateForward v s) \<longleftrightarrow> s \<noteq> 0 \<and> unat s \<le> 2 ^ 31) \<and>
   (InWindow (Value_Add first k) first n \<longleftrightarrow> k < n) \<and>
   Value_Size v (Value_Add v s) = s \<and>
   (LessThanEq v w \<longleftrightarrow> v = w \<or> LessThan v w)"
proof -
  have "LessThan v (UpdateForward v s) \<longleftrightarrow> 2 ^ 31 \<le> unat (- s)"
    by (simp add: seqnum_defs sint_neg_iff)
  also have "\<dots> \<longleftrightarrow> s \<noteq> 0 \<and> unat s \<le> 2 ^ 31"
    by (cases "s = 0") (auto simp: unat_uminus)
  finally show ?thesis by (simp add: seqnum_defs)
qed

end
