(* ===== verification/Tcpip_Addr.thy ===== *)
theory Tcpip_Addr
  imports Go_Prelude
begin

text \<open>
  The addresses of \<^verbatim>\<open>internal/gtcpip/tcpip.go\<close>: an array of sixteen bytes with the number of bytes
  in use, masks of the same shape, subnets, and the conversion of an address with a prefix length
  to a subnet. The main result is that membership in that subnet is equality of the first bits.
\<close>

record Address =
  a_addr :: bytes
  a_length :: nat

record AddressMask =
  m_mask :: bytes
  m_length :: nat

record Subnet =
  s_address :: Address
  s_mask :: AddressMask

record AddressWithPrefix =
  p_Address :: Address
  p_PrefixLen :: int

abbreviation (input) zero16 :: bytes where "zero16 \<equiv> replicate 16 0"
abbreviation (input) zeroAddress :: Address where "zeroAddress \<equiv> \<lparr>a_addr = zero16, a_length = 0\<rparr>"
abbreviation (input) zeroMask :: "nat \<Rightarrow> AddressMask" where "zeroMask n \<equiv> \<lparr>m_mask = zero16, m_length = n\<rparr>"
abbreviation (input) ipv4AddressSize :: nat where "ipv4AddressSize \<equiv> 4"
abbreviation (input) ipv6AddressSize :: nat where "ipv6AddressSize \<equiv> 16"

section \<open>Addresses\<close>

definition AddrFrom4 :: "bytes \<Rightarrow> Address" where
  "AddrFrom4 addr = \<lparr>a_addr = go_copy zero16 addr, a_length = 4\<rparr>"

definition AddrFrom4Slice :: "bytes \<Rightarrow> Address option" where
  "AddrFrom4Slice addr =
     (if length addr \<noteq> 4 then None else Some \<lparr>a_addr = go_copy zero16 addr, a_length = 4\<rparr>)"

definition AddrFrom16 :: "bytes \<Rightarrow> Address" where
  "AddrFrom16 addr = \<lparr>a_addr = go_copy zero16 addr, a_length = 16\<rparr>"

definition AddrFrom16Slice :: "bytes \<Rightarrow> Address option" where
  "AddrFrom16Slice addr =
     (if length addr \<noteq> 16 then None else Some \<lparr>a_addr = go_copy zero16 addr, a_length = 16\<rparr>)"

definition AddrFromSlice :: "bytes \<Rightarrow> Address option" where
  "AddrFromSlice addr =
     (if length addr = ipv4AddressSize then AddrFrom4Slice addr
      else if length addr = ipv6AddressSize then AddrFrom16Slice addr
      else Some zeroAddress)"

definition Address_Len :: "Address \<Rightarrow> nat" where
  "Address_Len a = a_length a"

definition Address_BitLen :: "Address \<Rightarrow> nat" where
  "Address_BitLen a = Address_Len a * 8"

definition As4 :: "Address \<Rightarrow> bytes option" where
  "As4 a = (if Address_Len a \<noteq> 4 then None else slice (a_addr a) 0 4)"

definition As16 :: "Address \<Rightarrow> bytes option" where
  "As16 a = (if Address_Len a \<noteq> 16 then None else slice (a_addr a) 0 16)"

definition AsSlice :: "Address \<Rightarrow> bytes option" where
  "AsSlice a = slice (a_addr a) 0 (a_length a)"

definition WithPrefix :: "Address \<Rightarrow> AddressWithPrefix" where
  "WithPrefix a = \<lparr>p_Address = a, p_PrefixLen = int (Address_BitLen a)\<rparr>"

definition Unspecified :: "Address \<Rightarrow> bool" where
  "Unspecified a = list_all (\<lambda>b. b = 0) (a_addr a)"

text \<open>
  \<open>MatchingPrefix\<close>: the inner loop walks a mask from the most significant bit down. It ends because
  the bytes differ; the mask has run empty, and the loop of the source would not end, when the
  list of masks is used up.
\<close>

fun match_bits :: "u8 \<Rightarrow> u8 \<Rightarrow> u8 list \<Rightarrow> u8 \<Rightarrow> u8 option" where
  "match_bits aByte bByte [] prefix = None"
| "match_bits aByte bByte (mk # masks) prefix =
     (if aByte AND mk = bByte AND mk then match_bits aByte bByte masks (prefix + 1)
      else Some prefix)"

fun match_bytes :: "Address \<Rightarrow> Address \<Rightarrow> nat list \<Rightarrow> u8 \<Rightarrow> u8 option" where
  "match_bytes a b [] prefix = Some prefix"
| "match_bytes a b (i # is) prefix = do {
     aByte \<leftarrow> byte_at (a_addr a) i;
     bByte \<leftarrow> byte_at (a_addr b) i;
     if aByte = bByte then match_bytes a b is (prefix + 8)
     else match_bits aByte bByte [128, 64, 32, 16, 8, 4, 2, 1] prefix }"

definition MatchingPrefix :: "Address \<Rightarrow> Address \<Rightarrow> u8 option" where
  "MatchingPrefix a b =
     (if Address_Len a \<noteq> Address_Len b then None
      else match_bytes a b [0..<a_length a] 0)"

section \<open>Masks\<close>

definition MaskFromBytes :: "bytes \<Rightarrow> AddressMask" where
  "MaskFromBytes bs = \<lparr>m_mask = go_copy zero16 bs, m_length = length bs\<rparr>"

definition Mask_AsSlice :: "AddressMask \<Rightarrow> bytes option" where
  "Mask_AsSlice m = slice (m_mask m) 0 (m_length m)"

definition Mask_BitLen :: "AddressMask \<Rightarrow> nat" where
  "Mask_BitLen m = m_length m * 8"

definition Mask_Len :: "AddressMask \<Rightarrow> nat" where
  "Mask_Len m = m_length m"

definition LeadingZeros8 :: "u8 \<Rightarrow> nat" where
  "LeadingZeros8 x = length (takeWhile (\<lambda>i. \<not> bit x i) [7, 6, 5, 4, 3, 2, 1, 0])"

definition Mask_Prefix :: "AddressMask \<Rightarrow> nat option" where
  "Mask_Prefix m = do {
     bs \<leftarrow> slice (m_mask m) 0 (m_length m);
     Some (foldl (\<lambda>p b. p + LeadingZeros8 (NOT b)) 0 bs) }"

section \<open>Subnets\<close>

datatype subnet_error = errSubnetLengthMismatch | errSubnetAddressMasked

definition NewSubnet :: "Address \<Rightarrow> AddressMask \<Rightarrow> (subnet_error + Subnet) option" where
  "NewSubnet a m =
     (if Address_Len a \<noteq> Mask_Len m then Some (Inl errSubnetLengthMismatch)
      else do {
        ok \<leftarrow> for_all (\<lambda>i. do {
            x \<leftarrow> byte_at (a_addr a) i;
            k \<leftarrow> byte_at (m_mask m) i;
            Some (x AND NOT k = 0) }) [0..<Address_Len a];
        Some (if ok then Inr \<lparr>s_address = a, s_mask = m\<rparr> else Inl errSubnetAddressMasked) })"

definition Subnet_Contains :: "Subnet \<Rightarrow> Address \<Rightarrow> bool option" where
  "Subnet_Contains s a =
     (if Address_Len a \<noteq> Address_Len (s_address s) then Some False
      else for_all (\<lambda>i. do {
          x \<leftarrow> byte_at (a_addr a) i;
          k \<leftarrow> byte_at (m_mask (s_mask s)) i;
          y \<leftarrow> byte_at (a_addr (s_address s)) i;
          Some (x AND k = y) }) [0..<Address_Len a])"

definition Subnet_ID :: "Subnet \<Rightarrow> Address" where
  "Subnet_ID s = s_address s"

definition Subnet_Prefix :: "Subnet \<Rightarrow> nat option" where
  "Subnet_Prefix s = Mask_Prefix (s_mask s)"

definition Subnet_Bits :: "Subnet \<Rightarrow> (nat \<times> int) option" where
  "Subnet_Bits s = do {
     ones \<leftarrow> Mask_Prefix (s_mask s);
     Some (ones, int (Mask_BitLen (s_mask s)) - int ones) }"

definition Subnet_Mask :: "Subnet \<Rightarrow> AddressMask" where
  "Subnet_Mask s = s_mask s"

definition Broadcast :: "Subnet \<Rightarrow> Address option" where
  "Broadcast s = for_each (\<lambda>i a. do {
       x \<leftarrow> byte_at (a_addr a) i;
       k \<leftarrow> byte_at (m_mask (s_mask s)) i;
       bs \<leftarrow> set_byte (a_addr a) i (x OR NOT k);
       Some (a\<lparr>a_addr := bs\<rparr>) }) [0..<Address_Len (s_address s)] (s_address s)"

definition IsBroadcast :: "Subnet \<Rightarrow> Address \<Rightarrow> bool option" where
  "IsBroadcast s address =
     (if Address_Len address \<noteq> ipv4AddressSize then Some False
      else do {
        p \<leftarrow> Subnet_Prefix s;
        if p \<le> 30 then do { b \<leftarrow> Broadcast s; Some (b = address) } else Some False })"

text \<open>The loops of \<open>AddressWithPrefix.Subnet\<close>: the state is the address, the mask and \<open>n\<close>.\<close>

definition subnet_step :: "bytes \<Rightarrow> nat \<Rightarrow> bytes \<times> bytes \<times> nat \<Rightarrow> (bytes \<times> bytes \<times> nat) option" where
  "subnet_step a i s = (case s of (sa, sm, n) \<Rightarrow> do {
     x \<leftarrow> byte_at a i;
     if 8 \<le> n then do {
       sa \<leftarrow> set_byte sa i x;
       sm \<leftarrow> set_byte sm i 0xff;
       Some (sa, sm, n - 8) }
     else do {
       sm \<leftarrow> set_byte sm i (NOT (drop_bit n 0xff));
       k \<leftarrow> byte_at sm i;
       sa \<leftarrow> set_byte sa i (x AND k);
       Some (sa, sm, 0) } })"

definition AddressWithPrefix_Subnet :: "AddressWithPrefix \<Rightarrow> Subnet option" where
  "AddressWithPrefix_Subnet p = (
     let a = p_Address p; addrLen = a_length a in
     if p_PrefixLen p \<le> 0 then
       Some \<lparr>s_address = \<lparr>a_addr = zero16, a_length = addrLen\<rparr>, s_mask = zeroMask addrLen\<rparr>
     else if int (addrLen * 8) \<le> p_PrefixLen p then do {
       sm \<leftarrow> for_each (\<lambda>i m. set_byte m i 0xff) [0..<addrLen] zero16;
       Some \<lparr>s_address = a, s_mask = \<lparr>m_mask = sm, m_length = addrLen\<rparr>\<rparr> }
     else do {
       (sa, sm, n) \<leftarrow> for_each (subnet_step (a_addr a)) [0..<addrLen] (zero16, zero16, nat (p_PrefixLen p));
       r \<leftarrow> NewSubnet \<lparr>a_addr = sa, a_length = addrLen\<rparr> \<lparr>m_mask = sm, m_length = addrLen\<rparr>;
       (case r of Inl _ \<Rightarrow> None | Inr s \<Rightarrow> Some s) })"

section \<open>Well-formed addresses\<close>

text \<open>Arrays have sixteen elements; every constructor uses none, four or sixteen of them.\<close>

definition wf_Address :: "Address \<Rightarrow> bool" where
  "wf_Address a \<longleftrightarrow> length (a_addr a) = 16 \<and> a_length a \<in> {0, 4, 16}"

lemma wf_Address_le: "wf_Address a \<Longrightarrow> a_length a \<le> 16"
  by (auto simp: wf_Address_def)

lemma AsSlice_wf: "wf_Address a \<Longrightarrow> AsSlice a = Some (take (a_length a) (a_addr a))"
  by (simp add: AsSlice_def go_simps wf_Address_le wf_Address_def [THEN iffD1])

lemma AddrFromSlice_wf: "returns (AddrFromSlice bs) wf_Address"
  by (simp add: AddrFromSlice_def AddrFrom4Slice_def AddrFrom16Slice_def wf_Address_def)

lemma AsSlice_AddrFromSlice:
  assumes "length bs \<in> {4, 16}"
  shows "AddrFromSlice bs \<bind> AsSlice = Some bs"
  using assms
  by (auto simp: AddrFromSlice_def AddrFrom4Slice_def AddrFrom16Slice_def AsSlice_def go_copy_def go_simps)

section \<open>Prefixes as bits\<close>

definition byte_bits :: "u8 \<Rightarrow> bool list" where
  "byte_bits x = map (bit x) [7, 6, 5, 4, 3, 2, 1, 0]"

definition addr_bits :: "bytes \<Rightarrow> bool list" where
  "addr_bits bs = concat (map byte_bits bs)"

definition mask_byte :: "nat \<Rightarrow> u8" where
  "mask_byte m = (if 8 \<le> m then 0xff else NOT (drop_bit m 0xff))"

lemma bit_ff: "bit (0xff :: u8) j \<longleftrightarrow> j < 8"
proof -
  have "(0xff :: u8) = mask 8" by (simp add: mask_eq_exp_minus_1)
  then show ?thesis by (simp only: bit_mask_iff) (simp add: possible_bit_def)
qed

lemma and_ff: "x AND (0xff :: u8) = x"
proof -
  have "(0xff :: u8) = - 1" by simp
  then show ?thesis by (simp only: bit.conj_one_right)
qed

lemma bit_mask_byte: "bit (mask_byte m) i \<longleftrightarrow> i < 8 \<and> 8 \<le> m + i"
  by (cases "8 \<le> m")
    (simp_all only: mask_byte_def if_True if_False bit_ff bit_not_iff bit_drop_bit_eq o_apply possible_bit_def, auto)

lemma mask_byte_0: "mask_byte 0 = 0"
  by (rule bit_word_eqI) (simp add: bit_mask_byte)

lemma mask_byte_eq_iff:
  "x AND mask_byte m = y AND mask_byte m \<longleftrightarrow> take m (byte_bits x) = take m (byte_bits y)"
proof -
  have "x AND mask_byte m = y AND mask_byte m \<longleftrightarrow> (\<forall>i<8. 8 \<le> m + i \<longrightarrow> bit x i = bit y i)"
    by (auto simp: bit_eq_iff bit_mask_byte bit_and_iff)
  also have "\<dots> \<longleftrightarrow> (\<forall>j<8. j < m \<longrightarrow> bit x (7 - j) = bit y (7 - j))"
  proof
    assume *: "\<forall>j<8. j < m \<longrightarrow> bit x (7 - j) = bit y (7 - j)"
    have "bit x i = bit y i" if "i < 8" "8 \<le> m + i" for i
      using * [rule_format, of "7 - i"] that by simp
    then show "\<forall>i<8. 8 \<le> m + i \<longrightarrow> bit x i = bit y i" by blast
  qed simp
  also have "\<dots> \<longleftrightarrow> take m (byte_bits x) = take m (byte_bits y)"
  proof -
    have nth: "byte_bits z ! j = bit z (7 - j)" if "j < 8" for z j
      using that unfolding byte_bits_def by (auto simp: less_Suc_eq numeral_eq_Suc)
    have len: "length (byte_bits z) = 8" for z by (simp add: byte_bits_def)
    show ?thesis by (auto simp: list_eq_iff_nth_eq len nth)
  qed
  finally show ?thesis .
qed

lemma length_byte_bits [simp]: "length (byte_bits x) = 8"
  by (simp add: byte_bits_def)

lemma addr_bits_Cons: "addr_bits (x # xs) = byte_bits x @ addr_bits xs"
  by (simp add: addr_bits_def)

lemma take_addr_bits_eq_iff:
  assumes "length xs = length ys"
  shows "take n (addr_bits xs) = take n (addr_bits ys) \<longleftrightarrow>
         (\<forall>i<length xs. xs ! i AND mask_byte (n - 8 * i) = ys ! i AND mask_byte (n - 8 * i))"
  using assms
proof (induction xs ys arbitrary: n rule: list_induct2)
  case (Cons x xs y ys)
  have "take n (addr_bits (x # xs)) = take n (addr_bits (y # ys)) \<longleftrightarrow>
      take n (byte_bits x) = take n (byte_bits y) \<and> take (n - 8) (addr_bits xs) = take (n - 8) (addr_bits ys)"
    by (simp add: addr_bits_Cons append_eq_append_conv)
  then show ?case
    by (simp add: Cons.IH mask_byte_eq_iff All_less_Suc2 diff_diff_eq)
qed simp

section \<open>The subnet of a prefix\<close>

lemma for_each_subnet_step:
  assumes "length a = 16" and "k \<le> 16"
  shows "for_each (subnet_step a) [0..<k] (zero16, zero16, n) =
    Some (map (\<lambda>i. a ! i AND mask_byte (n - 8 * i)) [0..<k] @ replicate (16 - k) 0,
          map (\<lambda>i. mask_byte (n - 8 * i)) [0..<k] @ replicate (16 - k) 0, n - 8 * k)"
  using assms(2)
proof (induction k)
  case (Suc k)
  have rep: "replicate (16 - k) (0 :: u8) = 0 # replicate (16 - Suc k) 0"
    using Suc.prems by (simp add: Suc_diff_Suc flip: replicate_Suc)
  have upd: "(map f [0..<k] @ replicate (16 - k) 0)[k := v] = map f [0..<k] @ v # replicate (16 - Suc k) 0"
    for f and v :: u8 by (simp add: rep list_update_append)
  have len: "k < length (map f [0..<k] @ replicate (16 - k) (0 :: u8))" for f
    using Suc.prems by simp
  have "subnet_step a k (map (\<lambda>i. a ! i AND mask_byte (n - 8 * i)) [0..<k] @ replicate (16 - k) 0,
          map (\<lambda>i. mask_byte (n - 8 * i)) [0..<k] @ replicate (16 - k) 0, n - 8 * k) =
      Some (map (\<lambda>i. a ! i AND mask_byte (n - 8 * i)) [0..<k] @ (a ! k AND mask_byte (n - 8 * k)) # replicate (16 - Suc k) 0,
          map (\<lambda>i. mask_byte (n - 8 * i)) [0..<k] @ mask_byte (n - 8 * k) # replicate (16 - Suc k) 0, n - 8 * Suc k)"
    using Suc.prems assms(1)
    by (auto simp: subnet_step_def byte_at_def set_byte_def upd mask_byte_def nth_append and_ff)
  then show ?case using Suc by (simp add: for_each_snoc)
qed simp

lemma for_each_ff:
  assumes "k \<le> 16"
  shows "for_each (\<lambda>i m. set_byte m i (0xff :: u8)) [0..<k] zero16 =
         Some (replicate k 0xff @ replicate (16 - k) 0)"
  using assms
proof (induction k)
  case (Suc k)
  have rep: "replicate (16 - k) (0 :: u8) = 0 # replicate (16 - Suc k) 0"
    using Suc.prems by (simp add: Suc_diff_Suc flip: replicate_Suc)
  show ?case
    using Suc by (simp add: for_each_snoc set_byte_in rep list_update_append replicate_app_Cons_same)
qed simp

text \<open>The parts of the subnet: the mask bytes, and the address with its host bits cleared.\<close>

lemma Subnet_parts:
  fixes n :: int
  assumes "wf_Address a"
  obtains s where "AddressWithPrefix_Subnet \<lparr>p_Address = a, p_PrefixLen = n\<rparr> = Some s"
    and "a_length (s_address s) = a_length a"
    and "length (m_mask (s_mask s)) = 16" and "length (a_addr (s_address s)) = 16"
    and "\<And>i. i < a_length a \<Longrightarrow> m_mask (s_mask s) ! i = mask_byte (nat n - 8 * i) \<and>
           a_addr (s_address s) ! i = a_addr a ! i AND mask_byte (nat n - 8 * i)"
proof -
  have len: "length (a_addr a) = 16" "a_length a \<le> 16"
    using assms by (auto simp: wf_Address_def)
  let ?L = "a_length a"
  consider "n \<le> 0" | "int (?L * 8) \<le> n" "0 < n" | "0 < n" "n < int (?L * 8)" by linarith
  then show ?thesis
  proof cases
    case 1
    then have "AddressWithPrefix_Subnet \<lparr>p_Address = a, p_PrefixLen = n\<rparr> = Some \<lparr>s_address =
        \<lparr>a_addr = zero16, a_length = ?L\<rparr>, s_mask = zeroMask ?L\<rparr>"
      by (simp add: AddressWithPrefix_Subnet_def Let_def)
    then show ?thesis
      by (rule that) (use 1 len in \<open>simp_all add: mask_byte_0\<close>)
  next
    case 2
    then have ff: "mask_byte (nat n - 8 * i) = 0xff" if "i < ?L" for i
      using that by (simp add: mask_byte_def)
    have "AddressWithPrefix_Subnet \<lparr>p_Address = a, p_PrefixLen = n\<rparr> = Some \<lparr>s_address = a,
        s_mask = \<lparr>m_mask = replicate ?L 0xff @ replicate (16 - ?L) 0, m_length = ?L\<rparr>\<rparr>"
      using 2 len by (simp add: AddressWithPrefix_Subnet_def Let_def for_each_ff)
    then show ?thesis
      by (rule that) (use ff len in \<open>simp_all add: nth_append and_ff\<close>)
  next
    case 3
    define sa where "sa = map (\<lambda>i. a_addr a ! i AND mask_byte (nat n - 8 * i)) [0..<?L] @ replicate (16 - ?L) 0"
    define sm where "sm = map (\<lambda>i. mask_byte (nat n - 8 * i)) [0..<?L] @ replicate (16 - ?L) (0 :: u8)"
    have L: "length sa = 16" "length sm = 16" using len by (simp_all add: sa_def sm_def)
    have nth: "sa ! i = a_addr a ! i AND mask_byte (nat n - 8 * i)" "sm ! i = mask_byte (nat n - 8 * i)"
      if "i < ?L" for i
      using that by (simp_all add: sa_def sm_def nth_append)
    have "NewSubnet \<lparr>a_addr = sa, a_length = ?L\<rparr> \<lparr>m_mask = sm, m_length = ?L\<rparr> =
        Some (Inr \<lparr>s_address = \<lparr>a_addr = sa, a_length = ?L\<rparr>, s_mask = \<lparr>m_mask = sm, m_length = ?L\<rparr>\<rparr>)"
      unfolding NewSubnet_def Address_Len_def Mask_Len_def using len L nth
      by (subst for_all_Some [where q = "\<lambda>_. True"]) (simp_all add: byte_at_in and.assoc)
    then have "AddressWithPrefix_Subnet \<lparr>p_Address = a, p_PrefixLen = n\<rparr> =
        Some \<lparr>s_address = \<lparr>a_addr = sa, a_length = ?L\<rparr>, s_mask = \<lparr>m_mask = sm, m_length = ?L\<rparr>\<rparr>"
      using 3 len by (simp add: AddressWithPrefix_Subnet_def Let_def for_each_subnet_step sa_def sm_def)
    then show ?thesis
      by (rule that) (use L nth in simp_all)
  qed
qed

text \<open>
  C35. Converting an address with any prefix length (also a negative or an oversized one) to a subnet
  never panics, and the subnet contains exactly the addresses of the same family whose first
  \<open>PrefixLen\<close> bits are those of the address.
\<close>

theorem Subnet_Contains_prefix:
  assumes "wf_Address a" and "wf_Address x"
  shows "(AddressWithPrefix_Subnet \<lparr>p_Address = a, p_PrefixLen = n\<rparr> \<bind> (\<lambda>s. Subnet_Contains s x)) =
    Some (a_length x = a_length a \<and>
          take (nat n) (addr_bits (take (a_length x) (a_addr x))) =
          take (nat n) (addr_bits (take (a_length a) (a_addr a))))"
proof -
  obtain s where s: "AddressWithPrefix_Subnet \<lparr>p_Address = a, p_PrefixLen = n\<rparr> = Some s"
    "a_length (s_address s) = a_length a"
    "length (m_mask (s_mask s)) = 16" "length (a_addr (s_address s)) = 16"
    "\<And>i. i < a_length a \<Longrightarrow> m_mask (s_mask s) ! i = mask_byte (nat n - 8 * i) \<and>
           a_addr (s_address s) ! i = a_addr a ! i AND mask_byte (nat n - 8 * i)"
    by (rule Subnet_parts [OF assms(1), of n]) blast
  have len: "length (a_addr a) = 16" "length (a_addr x) = 16" "a_length a \<le> 16" "a_length x \<le> 16"
    using assms by (auto simp: wf_Address_def)
  have "Subnet_Contains s x = Some (a_length x = a_length a \<and>
      (\<forall>i<a_length x. a_addr x ! i AND mask_byte (nat n - 8 * i) = a_addr a ! i AND mask_byte (nat n - 8 * i)))"
  proof (cases "a_length x = a_length a")
    case True
    then show ?thesis
      unfolding Subnet_Contains_def Address_Len_def using s len
      by (subst for_all_Some
          [where q = "\<lambda>i. a_addr x ! i AND mask_byte (nat n - 8 * i) = a_addr a ! i AND mask_byte (nat n - 8 * i)"])
        (simp_all add: byte_at_in Ball_def)
  qed (use s in \<open>simp add: Subnet_Contains_def Address_Len_def\<close>)
  then show ?thesis
    using s(1) len take_addr_bits_eq_iff [of "take (a_length x) (a_addr x)" "take (a_length a) (a_addr a)" "nat n"]
    by auto
qed

theorem Subnet_Contains_prefix_witness:
  "(AddressWithPrefix_Subnet \<lparr>p_Address = AddrFrom4 [10, 1, 2, 3], p_PrefixLen = 9\<rparr> \<bind>
      (\<lambda>s. Subnet_Contains s (AddrFrom4 [10, 127, 0, 9]))) = Some True"
  using Subnet_Contains_prefix [of "AddrFrom4 [10, 1, 2, 3]" "AddrFrom4 [10, 127, 0, 9]" 9]
  by (simp add: wf_Address_def AddrFrom4_def go_copy_def addr_bits_def byte_bits_def numeral_eq_Suc)

end
