(* ===== verification/Header_Checksum.thy ===== *)
theory Header_Checksum
  imports Gtcpip_Checksum TSChecksum Tcpip_Addr
begin

text \<open>
  \<^verbatim>\<open>internal/gtcpip/header/checksum.go\<close>: the pseudo-header checksum and the incremental updates of
  RFC 1071. The lemmas say that an update of the complemented checksum keeps the sum of the field
  and its checksum modulo 65535, which is what keeps a packet valid when a field is rewritten.
\<close>

definition PseudoHeaderChecksum :: "u32 \<Rightarrow> bytes \<Rightarrow> bytes \<Rightarrow> u16 \<Rightarrow> u16 option" where
  "PseudoHeaderChecksum protocol srcAddr dstAddr totalLen = do {
     xsum \<leftarrow> Checksum srcAddr 0;
     xsum \<leftarrow> Checksum dstAddr xsum;
     tmp \<leftarrow> BE_PutUint16 [0, 0] 0 totalLen;
     xsum \<leftarrow> Checksum tmp xsum;
     Checksum [0, ucast protocol] xsum }"

definition checksumUpdate2ByteAlignedUint16 :: "u16 \<Rightarrow> u16 \<Rightarrow> u16 \<Rightarrow> u16" where
  "checksumUpdate2ByteAlignedUint16 xsum old new =
     (if old = new then xsum else Combine xsum (Combine new (NOT old)))"

fun update_words :: "u16 \<Rightarrow> bytes \<Rightarrow> bytes \<Rightarrow> u16 option" where
  "update_words xsum [] newAddr = Some xsum"
| "update_words xsum (a # b # oldAddr) (c # d # newAddr) =
     update_words (checksumUpdate2ByteAlignedUint16 xsum (be16 a b) (be16 c d)) oldAddr newAddr"
| "update_words xsum oldAddr newAddr = None"

definition checksumUpdate2ByteAlignedAddress :: "u16 \<Rightarrow> Address \<Rightarrow> Address \<Rightarrow> u16 option" where
  "checksumUpdate2ByteAlignedAddress xsum old new =
     (if Address_BitLen old \<noteq> Address_BitLen new then None
      else if Address_BitLen old mod 16 \<noteq> 0 then None
      else do {
        oldAddr \<leftarrow> AsSlice old;
        newAddr \<leftarrow> AsSlice new;
        update_words xsum oldAddr newAddr })"

section \<open>The pseudo-header\<close>

lemma PseudoHeaderChecksum_Some:
  "PseudoHeaderChecksum protocol src dst totalLen =
     Some (word_of_nat (fold16 (sum16 src + sum16 dst + unat totalLen + unat (ucast protocol :: u8))))"
  by (simp add: PseudoHeaderChecksum_def BE_PutUint16_def word_unat_eq_iff unat_of_nat_u16 ac_simps)

lemma PseudoHeaderChecksum_eq:
  assumes "even (length src)" and "even (length dst)"
  shows "PseudoHeaderChecksum protocol src dst totalLen =
         Some (rfc1071 (pseudo_header (ucast protocol) src dst totalLen) 0)"
  using assms by (simp add: PseudoHeaderChecksum_Some rfc1071_def sum16_pseudo_header ac_simps)

text \<open>
  The pseudo-header checksum of the header package, computed slice by slice, is the one
  \<^verbatim>\<open>internal/tschecksum\<close> computes with carries, on either byte order and word size, for IPv4 and
  for IPv6 addresses.
\<close>

theorem PseudoHeaderChecksum_agree:
  assumes "length src \<in> {4, 16}" and "length dst \<in> {4, 16}"
  shows "PseudoHeaderChecksum (ucast protocol) src dst totalLen =
         PseudoHeaderChecksum_ts le IntSize protocol src dst totalLen"
proof -
  have "ucast (ucast protocol :: u32) = protocol"
    unfolding word_unat_eq_iff unat_ucast_mod
    using unat_u8_less [of protocol] by (simp del: unat_u8_less)
  then show ?thesis
    using assms PseudoHeaderChecksum_eq [of src dst "ucast protocol" totalLen]
    by (auto simp: PseudoHeaderChecksum_ts_def pseudoHeaderChecksum32_eq pseudoHeaderChecksum64_eq)
qed

theorem PseudoHeaderChecksum_agree_witness:
  "PseudoHeaderChecksum (ucast (6 :: u8)) [10, 0, 0, 1] [10, 0, 0, 2] 20 =
   PseudoHeaderChecksum_ts True 64 6 [10, 0, 0, 1] [10, 0, 0, 2] 20"
  by (rule PseudoHeaderChecksum_agree) simp_all

section \<open>Incremental updates\<close>

lemma unat_update16:
  "cong16 (unat (checksumUpdate2ByteAlignedUint16 xsum old new) + unat old) (unat xsum + unat new)"
proof (cases "old = new")
  case False
  have "unat (checksumUpdate2ByteAlignedUint16 xsum old new) = fold16 (unat xsum + (unat new + unat (NOT old)))"
    using False by (simp add: checksumUpdate2ByteAlignedUint16_def unat_Combine)
  also have "cong16 \<dots> (unat xsum + (unat new + unat (NOT old)))"
    by (rule cong16_fold16)
  finally have "cong16 (unat (checksumUpdate2ByteAlignedUint16 xsum old new) + unat old)
      (unat xsum + (unat new + unat (NOT old)) + unat old)"
    by (simp only: cong16_cancel)
  also have "unat xsum + (unat new + unat (NOT old)) + unat old = unat xsum + unat new + 65535"
    using NOT16_plus [of old] by linarith
  finally show ?thesis by (rule cong16_trans) simp
qed (simp add: checksumUpdate2ByteAlignedUint16_def)

lemma update_complement:
  fixes x' c :: u16
  assumes "cong16 (unat x' + m) (unat (NOT c) + n)"
  shows "cong16 (unat (NOT x') + n) (unat c + m)"
proof -
  have "unat (NOT x') + n + (unat x' + m) = unat c + m + (unat (NOT c) + n)"
    using NOT16_plus [of x'] NOT16_plus [of c] by linarith
  also have "cong16 \<dots> (unat c + m + (unat x' + m))"
    by (rule cong16_add [OF cong16_refl cong16_sym [OF assms]])
  finally show ?thesis by (simp only: cong16_cancel)
qed

lemma update16_complement:
  "cong16 (unat (NOT (checksumUpdate2ByteAlignedUint16 (NOT c) old new)) + unat new) (unat c + unat old)"
  by (rule update_complement [OF unat_update16])

lemma update_words_sum:
  assumes "length old = length new" and "even (length old)"
  shows "returns (update_words xsum old new) (\<lambda>x. cong16 (unat x + sum16 old) (unat xsum + sum16 new))"
  using assms
proof (induction xsum old new rule: update_words.induct)
  case (2 xsum a b old c d new)
  let ?x = "checksumUpdate2ByteAlignedUint16 xsum (be16 a b) (be16 c d)"
  have "returns (update_words ?x old new) (\<lambda>x. cong16 (unat x + sum16 old) (unat ?x + sum16 new))"
    using 2 by simp
  moreover have "cong16 (unat x + sum16 (a # b # old)) (unat xsum + sum16 (c # d # new))"
    if "cong16 (unat x + sum16 old) (unat ?x + sum16 new)" for x :: u16
  proof -
    have "cong16 (unat x + sum16 old + unat (be16 a b)) (unat ?x + sum16 new + unat (be16 a b))"
      using that by (simp only: cong16_cancel)
    also have "unat ?x + sum16 new + unat (be16 a b) = unat ?x + unat (be16 a b) + sum16 new"
      by simp
    also have "cong16 \<dots> (unat xsum + unat (be16 c d) + sum16 new)"
      by (simp only: cong16_cancel unat_update16)
    finally show ?thesis by (simp add: ac_simps)
  qed
  ultimately show ?case
    unfolding update_words.simps by (rule returns_mono)
qed auto

lemma checksumUpdate_address:
  assumes "wf_Address old" and "wf_Address new" and "a_length old = a_length new"
  shows "returns (checksumUpdate2ByteAlignedAddress xsum old new) (\<lambda>x.
           cong16 (unat x + sum16 (take (a_length old) (a_addr old)))
                  (unat xsum + sum16 (take (a_length new) (a_addr new))))"
proof -
  have "a_length old * 8 mod 16 = 0" "even (a_length old)"
    using assms(1) by (auto simp: wf_Address_def)
  then show ?thesis
    using assms
    by (simp add: checksumUpdate2ByteAlignedAddress_def Address_BitLen_def Address_Len_def AsSlice_wf)
      (rule update_words_sum, auto simp: wf_Address_def)
qed

end
