(* ===== verification/Netip.thy ===== *)
theory Netip
  imports Go_Prelude
begin

text \<open>
  What the sources use of the standard library package \<^verbatim>\<open>net/netip\<close>: addresses without a zone,
  their bytes, and pairs of an address and a port. The zero address has no bytes.
\<close>

datatype Addr = ZeroAddr | Addr4 bytes | Addr16 bytes

definition Addr_AsSlice :: "Addr \<Rightarrow> bytes" where
  "Addr_AsSlice a = (case a of ZeroAddr \<Rightarrow> [] | Addr4 b \<Rightarrow> b | Addr16 b \<Rightarrow> b)"

definition Is4 :: "Addr \<Rightarrow> bool" where
  "Is4 a = (case a of Addr4 _ \<Rightarrow> True | _ \<Rightarrow> False)"

definition Is6 :: "Addr \<Rightarrow> bool" where
  "Is6 a = (case a of Addr16 _ \<Rightarrow> True | _ \<Rightarrow> False)"

type_synonym AddrPort = "Addr \<times> u16"

text \<open>IPv4-mapped IPv6 addresses and the fixed-size views: \<^verbatim>\<open>As4\<close> panics on an IPv6 address.\<close>

definition Is4In6 :: "Addr \<Rightarrow> bool" where
  "Is4In6 a = (case a of Addr16 b \<Rightarrow> take 12 b = replicate 10 0 @ [0xff, 0xff] | _ \<Rightarrow> False)"

definition Unmap :: "Addr \<Rightarrow> Addr" where
  "Unmap a = (if Is4In6 a then Addr4 (drop 12 (Addr_AsSlice a)) else a)"

definition Addr_As4 :: "Addr \<Rightarrow> bytes option" where
  "Addr_As4 a = (case Unmap a of Addr4 b \<Rightarrow> Some b | _ \<Rightarrow> None)"

definition Addr_As16 :: "Addr \<Rightarrow> bytes" where
  "Addr_As16 a = (case a of
     ZeroAddr \<Rightarrow> replicate 16 0 | Addr4 b \<Rightarrow> replicate 10 0 @ [0xff, 0xff] @ b | Addr16 b \<Rightarrow> b)"

text \<open>The address classes; each looks through an IPv4-mapped address.\<close>

definition Addr_IsLoopback :: "Addr \<Rightarrow> bool" where
  "Addr_IsLoopback a = (case Unmap a of
     ZeroAddr \<Rightarrow> False | Addr4 b \<Rightarrow> b ! 0 = 127 | Addr16 b \<Rightarrow> b = replicate 15 0 @ [1])"

definition Addr_IsMulticast :: "Addr \<Rightarrow> bool" where
  "Addr_IsMulticast a = (case Unmap a of
     ZeroAddr \<Rightarrow> False | Addr4 b \<Rightarrow> b ! 0 AND 0xf0 = 0xe0 | Addr16 b \<Rightarrow> b ! 0 = 0xff)"

definition Addr_IsLinkLocalUnicast :: "Addr \<Rightarrow> bool" where
  "Addr_IsLinkLocalUnicast a = (case Unmap a of
     ZeroAddr \<Rightarrow> False | Addr4 b \<Rightarrow> b ! 0 = 169 \<and> b ! 1 = 254
   | Addr16 b \<Rightarrow> b ! 0 = 0xfe \<and> b ! 1 AND 0xc0 = 0x80)"

definition IsGlobalUnicast :: "Addr \<Rightarrow> bool" where
  "IsGlobalUnicast a =
     (if a = ZeroAddr then False
      else let a = Unmap a in
        if Is4 a \<and> (a = Addr4 [0, 0, 0, 0] \<or> a = Addr4 [255, 255, 255, 255]) then False
        else a \<noteq> Addr16 (replicate 16 0) \<and> \<not> Addr_IsLoopback a \<and> \<not> Addr_IsMulticast a \<and>
          \<not> Addr_IsLinkLocalUnicast a)"

text \<open>The arrays inside an address have four or sixteen bytes.\<close>

definition wf_Addr :: "Addr \<Rightarrow> bool" where
  "wf_Addr a = (case a of ZeroAddr \<Rightarrow> True | Addr4 b \<Rightarrow> length b = 4 | Addr16 b \<Rightarrow> length b = 16)"

lemma Addr_AsSlice_simps [simp]:
  "Addr_AsSlice ZeroAddr = []" "Addr_AsSlice (Addr4 b) = b" "Addr_AsSlice (Addr16 b) = b"
  by (simp_all add: Addr_AsSlice_def)

end
