(* ===== verification/Header_IPv4.thy ===== *)
theory Header_IPv4
  imports Header_Checksum Netip
begin

text \<open>
  \<^verbatim>\<open>internal/gtcpip/header/ipv4.go\<close> without its options part (theory \<open>IPv4_Options\<close>) and the IPv4
  half of \<^verbatim>\<open>netip.go\<close>. A header is the byte slice it starts; a getter that reads past the slice
  panics. \<open>le\<close> in the accessors for raw sockets on Darwin is the byte order of the machine.
\<close>

type_synonym IPv4 = bytes

abbreviation (input) IPv4MinimumSize :: nat where "IPv4MinimumSize \<equiv> 20"
abbreviation (input) IPv4AddressSize :: nat where "IPv4AddressSize \<equiv> 4"
abbreviation (input) versIHL :: nat where "versIHL \<equiv> 0"
abbreviation (input) ip_tos :: nat where "ip_tos \<equiv> 1"
abbreviation (input) IPv4TotalLenOffset :: nat where "IPv4TotalLenOffset \<equiv> 2"
abbreviation (input) ip_id :: nat where "ip_id \<equiv> 4"
abbreviation (input) ip_flagsFO :: nat where "ip_flagsFO \<equiv> 6"
abbreviation (input) ip_ttl :: nat where "ip_ttl \<equiv> 8"
abbreviation (input) ip_protocol :: nat where "ip_protocol \<equiv> 9"
abbreviation (input) ip_xsum :: nat where "ip_xsum \<equiv> 10"
abbreviation (input) ip_srcAddr :: nat where "ip_srcAddr \<equiv> 12"
abbreviation (input) ip_dstAddr :: nat where "ip_dstAddr \<equiv> 16"
abbreviation (input) ip_options :: nat where "ip_options \<equiv> 20"

section \<open>Getters\<close>

definition IPVersion :: "bytes \<Rightarrow> int" where
  "IPVersion b = (if length b < versIHL + 1 then -1 else int (unat (drop_bit 4 (b ! versIHL))))"

definition IPv4_HeaderLength :: "IPv4 \<Rightarrow> u8 option" where
  "IPv4_HeaderLength b = do { v \<leftarrow> byte_at b versIHL; Some ((v AND 0x0f) * 4) }"

definition IPv4_ID :: "IPv4 \<Rightarrow> u16 option" where
  "IPv4_ID b = BE_Uint16 b ip_id"

definition IPv4_Protocol :: "IPv4 \<Rightarrow> u8 option" where
  "IPv4_Protocol b = byte_at b ip_protocol"

definition IPv4_Flags :: "IPv4 \<Rightarrow> u8 option" where
  "IPv4_Flags b = do { v \<leftarrow> BE_Uint16 b ip_flagsFO; Some (ucast (drop_bit 13 v)) }"

definition FlagsDarwinRaw :: "IPv4 \<Rightarrow> u8 option" where
  "FlagsDarwinRaw b = do { v \<leftarrow> BE_Uint16 b ip_flagsFO; Some (ucast (drop_bit 13 v)) }"

definition IPv4_More :: "IPv4 \<Rightarrow> bool option" where
  "IPv4_More b = do { f \<leftarrow> IPv4_Flags b; Some (f AND 1 \<noteq> 0) }"

definition IPv4_TTL :: "IPv4 \<Rightarrow> u8 option" where
  "IPv4_TTL b = byte_at b ip_ttl"

definition IPv4_FragmentOffset :: "IPv4 \<Rightarrow> u16 option" where
  "IPv4_FragmentOffset b = do { v \<leftarrow> BE_Uint16 b ip_flagsFO; Some (push_bit 3 v) }"

definition FragmentOffsetDarwinRaw :: "bool \<Rightarrow> IPv4 \<Rightarrow> u16 option" where
  "FragmentOffsetDarwinRaw le b = do { v \<leftarrow> load le 2 b ip_flagsFO; Some (push_bit 3 v) }"

definition IPv4_TotalLength :: "IPv4 \<Rightarrow> u16 option" where
  "IPv4_TotalLength b = BE_Uint16 b IPv4TotalLenOffset"

definition TotalLengthDarwinRaw :: "bool \<Rightarrow> IPv4 \<Rightarrow> u16 option" where
  "TotalLengthDarwinRaw le b = do {
     v \<leftarrow> load le 2 b IPv4TotalLenOffset;
     hl \<leftarrow> IPv4_HeaderLength b;
     Some (v + ucast hl) }"

definition IPv4_Checksum :: "IPv4 \<Rightarrow> u16 option" where
  "IPv4_Checksum b = BE_Uint16 b ip_xsum"

definition IPv4_SourceAddressSlice :: "IPv4 \<Rightarrow> bytes option" where
  "IPv4_SourceAddressSlice b = slice b ip_srcAddr (ip_srcAddr + IPv4AddressSize)"

definition IPv4_DestinationAddressSlice :: "IPv4 \<Rightarrow> bytes option" where
  "IPv4_DestinationAddressSlice b = slice b ip_dstAddr (ip_dstAddr + IPv4AddressSize)"

definition IPv4_SourceAddress :: "IPv4 \<Rightarrow> Address option" where
  "IPv4_SourceAddress b = do { s \<leftarrow> slice b ip_srcAddr (ip_srcAddr + IPv4AddressSize); Some (AddrFrom4 s) }"

definition IPv4_DestinationAddress :: "IPv4 \<Rightarrow> Address option" where
  "IPv4_DestinationAddress b = do { s \<leftarrow> slice b ip_dstAddr (ip_dstAddr + IPv4AddressSize); Some (AddrFrom4 s) }"

definition IPv4_SourceAddr :: "IPv4 \<Rightarrow> Addr option" where
  "IPv4_SourceAddr b = do { s \<leftarrow> slice b ip_srcAddr (ip_srcAddr + IPv4AddressSize); Some (Addr4 s) }"

definition IPv4_DestinationAddr :: "IPv4 \<Rightarrow> Addr option" where
  "IPv4_DestinationAddr b = do { s \<leftarrow> slice b ip_dstAddr (ip_dstAddr + IPv4AddressSize); Some (Addr4 s) }"

definition IPv4_Options :: "IPv4 \<Rightarrow> bytes option" where
  "IPv4_Options b = do { hl \<leftarrow> IPv4_HeaderLength b; slice b ip_options (unat hl) }"

definition IPv4_TransportProtocol :: "IPv4 \<Rightarrow> u32 option" where
  "IPv4_TransportProtocol b = do { p \<leftarrow> IPv4_Protocol b; Some (ucast p) }"

definition IPv4_PayloadLength :: "IPv4 \<Rightarrow> u16 option" where
  "IPv4_PayloadLength b = do {
     tl \<leftarrow> IPv4_TotalLength b;
     hl \<leftarrow> IPv4_HeaderLength b;
     Some (tl - ucast hl) }"

definition IPv4_Payload :: "IPv4 \<Rightarrow> bytes option" where
  "IPv4_Payload b = do {
     hl \<leftarrow> IPv4_HeaderLength b;
     r \<leftarrow> slice_from b (unat hl);
     pl \<leftarrow> IPv4_PayloadLength b;
     slice r 0 (unat pl) }"

definition IPv4_TOS :: "IPv4 \<Rightarrow> (u8 \<times> u32) option" where
  "IPv4_TOS b = do { t \<leftarrow> byte_at b ip_tos; Some (t, 0) }"

section \<open>Setters\<close>

definition IPv4_SetHeaderLength :: "IPv4 \<Rightarrow> u8 \<Rightarrow> IPv4 option" where
  "IPv4_SetHeaderLength b hdrLen =
     (if 60 < hdrLen then None else set_byte b versIHL (0x40 OR ((hdrLen div 4) AND 0x0f)))"

definition IPv4_SetTOS :: "IPv4 \<Rightarrow> u8 \<Rightarrow> u32 \<Rightarrow> IPv4 option" where
  "IPv4_SetTOS b v _ = set_byte b ip_tos v"

definition IPv4_SetTTL :: "IPv4 \<Rightarrow> u8 \<Rightarrow> IPv4 option" where
  "IPv4_SetTTL b v = set_byte b ip_ttl v"

definition IPv4_SetTotalLength :: "IPv4 \<Rightarrow> u16 \<Rightarrow> IPv4 option" where
  "IPv4_SetTotalLength b totalLength = BE_PutUint16 b IPv4TotalLenOffset totalLength"

definition Native_PutUint16 :: "bool \<Rightarrow> bytes \<Rightarrow> nat \<Rightarrow> u16 \<Rightarrow> bytes option" where
  "Native_PutUint16 le b off v =
     (if off + 2 \<le> length b then Some (put_slice off (native16 le v) b) else None)"

definition SetTotalLengthDarwinRaw :: "bool \<Rightarrow> IPv4 \<Rightarrow> u16 \<Rightarrow> IPv4 option" where
  "SetTotalLengthDarwinRaw le b totalLength = Native_PutUint16 le b IPv4TotalLenOffset totalLength"

definition IPv4_SetChecksum :: "IPv4 \<Rightarrow> u16 \<Rightarrow> IPv4 option" where
  "IPv4_SetChecksum b v = BE_PutUint16 b ip_xsum v"

definition IPv4_SetFlagsFragmentOffset :: "IPv4 \<Rightarrow> u8 \<Rightarrow> u16 \<Rightarrow> IPv4 option" where
  "IPv4_SetFlagsFragmentOffset b flags offset =
     BE_PutUint16 b ip_flagsFO (push_bit 13 (ucast flags) OR drop_bit 3 offset)"

definition SetFlagsFragmentOffsetDarwinRaw :: "bool \<Rightarrow> IPv4 \<Rightarrow> u8 \<Rightarrow> u16 \<Rightarrow> IPv4 option" where
  "SetFlagsFragmentOffsetDarwinRaw le b flags offset =
     Native_PutUint16 le b ip_flagsFO (push_bit 13 (ucast flags) OR drop_bit 3 offset)"

definition IPv4_SetID :: "IPv4 \<Rightarrow> u16 \<Rightarrow> IPv4 option" where
  "IPv4_SetID b v = BE_PutUint16 b ip_id v"

definition IPv4_SetSourceAddress :: "IPv4 \<Rightarrow> Address \<Rightarrow> IPv4 option" where
  "IPv4_SetSourceAddress b addr = do {
     s \<leftarrow> AsSlice addr;
     copy_into ip_srcAddr (ip_srcAddr + IPv4AddressSize) s b }"

definition IPv4_SetDestinationAddress :: "IPv4 \<Rightarrow> Address \<Rightarrow> IPv4 option" where
  "IPv4_SetDestinationAddress b addr = do {
     s \<leftarrow> AsSlice addr;
     copy_into ip_dstAddr (ip_dstAddr + IPv4AddressSize) s b }"

definition IPv4_SetSourceAddr :: "IPv4 \<Rightarrow> Addr \<Rightarrow> IPv4 option" where
  "IPv4_SetSourceAddr b addr = copy_into ip_srcAddr (ip_srcAddr + IPv4AddressSize) (Addr_AsSlice addr) b"

definition IPv4_SetDestinationAddr :: "IPv4 \<Rightarrow> Addr \<Rightarrow> IPv4 option" where
  "IPv4_SetDestinationAddr b addr = copy_into ip_dstAddr (ip_dstAddr + IPv4AddressSize) (Addr_AsSlice addr) b"

definition IPv4_SetSourceAddressWithChecksumUpdate :: "IPv4 \<Rightarrow> Address \<Rightarrow> IPv4 option" where
  "IPv4_SetSourceAddressWithChecksumUpdate b new = do {
     c \<leftarrow> IPv4_Checksum b;
     old \<leftarrow> IPv4_SourceAddress b;
     x \<leftarrow> checksumUpdate2ByteAlignedAddress (NOT c) old new;
     b \<leftarrow> IPv4_SetChecksum b (NOT x);
     IPv4_SetSourceAddress b new }"

definition IPv4_SetDestinationAddressWithChecksumUpdate :: "IPv4 \<Rightarrow> Address \<Rightarrow> IPv4 option" where
  "IPv4_SetDestinationAddressWithChecksumUpdate b new = do {
     c \<leftarrow> IPv4_Checksum b;
     old \<leftarrow> IPv4_DestinationAddress b;
     x \<leftarrow> checksumUpdate2ByteAlignedAddress (NOT c) old new;
     b \<leftarrow> IPv4_SetChecksum b (NOT x);
     IPv4_SetDestinationAddress b new }"

section \<open>Checksums and validation\<close>

definition IPv4_CalculateChecksum :: "IPv4 \<Rightarrow> u16 option" where
  "IPv4_CalculateChecksum b = do {
     s \<leftarrow> slice b 0 ip_xsum;
     xsum0 \<leftarrow> Checksum s 0;
     hl \<leftarrow> IPv4_HeaderLength b;
     s \<leftarrow> slice b (ip_xsum + 2) (unat hl);
     Checksum s xsum0 }"

definition IPv4_IsChecksumValid :: "IPv4 \<Rightarrow> bool option" where
  "IPv4_IsChecksumValid b = do {
     hl \<leftarrow> IPv4_HeaderLength b;
     s \<leftarrow> slice b 0 (unat hl);
     x \<leftarrow> Checksum s 0;
     Some (x = 0xffff) }"

definition IPv4_EncodePartial :: "IPv4 \<Rightarrow> u16 \<Rightarrow> u16 \<Rightarrow> IPv4 option" where
  "IPv4_EncodePartial b partialChecksum totalLength = do {
     b \<leftarrow> IPv4_SetTotalLength b totalLength;
     s \<leftarrow> slice b IPv4TotalLenOffset (IPv4TotalLenOffset + 2);
     xsum \<leftarrow> Checksum s partialChecksum;
     IPv4_SetChecksum b (NOT xsum) }"

definition IPv4_IsValid :: "IPv4 \<Rightarrow> nat \<Rightarrow> bool option" where
  "IPv4_IsValid b pktSize =
     (if length b < IPv4MinimumSize then Some False
      else do {
        hlen \<leftarrow> IPv4_HeaderLength b;
        tlen \<leftarrow> IPv4_TotalLength b;
        Some (\<not> (unat hlen < IPv4MinimumSize \<or> unat hlen > unat tlen \<or> unat tlen > pktSize) \<and>
              IPVersion b = 4) })"

definition IsV4LinkLocalUnicastAddress :: "Address \<Rightarrow> bool option" where
  "IsV4LinkLocalUnicastAddress addr = do {
     r \<leftarrow> NewSubnet (AddrFrom4 [0xa9, 0xfe, 0x00, 0x00]) (MaskFromBytes [0xff, 0xff, 0x00, 0x00]);
     (case r of Inl _ \<Rightarrow> None | Inr s \<Rightarrow> Subnet_Contains s addr) }"

definition IsV4LinkLocalMulticastAddress :: "Address \<Rightarrow> bool option" where
  "IsV4LinkLocalMulticastAddress addr = do {
     r \<leftarrow> NewSubnet (AddrFrom4 [0xe0, 0x00, 0x00, 0x00]) (MaskFromBytes [0xff, 0xff, 0xff, 0x00]);
     (case r of Inl _ \<Rightarrow> None | Inr s \<Rightarrow> Subnet_Contains s addr) }"

definition IsV4MulticastAddress :: "Address \<Rightarrow> bool option" where
  "IsV4MulticastAddress addr =
     (if Address_BitLen addr \<noteq> 32 then Some False
      else do { b \<leftarrow> As4 addr; x \<leftarrow> byte_at b 0; Some (x AND 0xf0 = 0xe0) })"

definition IsV4LoopbackAddress :: "Address \<Rightarrow> bool option" where
  "IsV4LoopbackAddress addr =
     (if Address_BitLen addr \<noteq> 32 then Some False
      else do { b \<leftarrow> As4 addr; x \<leftarrow> byte_at b 0; Some (x = 0x7f) })"

section \<open>Reading a header\<close>

text \<open>The lengths a header declares, as numbers of bytes.\<close>

definition hlen4 :: "bytes \<Rightarrow> nat" where
  "hlen4 b = unat (b ! 0) mod 16 * 4"

definition tlen4 :: "bytes \<Rightarrow> nat" where
  "tlen4 b = unat (be16 (b ! 2) (b ! 3))"

definition valid4 :: "bytes \<Rightarrow> nat \<Rightarrow> bool" where
  "valid4 b n \<longleftrightarrow> 20 \<le> length b \<and> 20 \<le> hlen4 b \<and> hlen4 b \<le> tlen4 b \<and> tlen4 b \<le> n \<and> unat (b ! 0) div 16 = 4"

lemma unat_and_0f: "unat ((v :: u8) AND 0x0f) = unat v mod 16"
proof -
  have "v AND 0x0f = take_bit 4 v" by (simp add: take_bit_eq_mask mask_eq_exp_minus_1)
  then have "unat (v AND 0x0f) = take_bit 4 (unat v)" by (simp only: unsigned_take_bit_eq)
  then show ?thesis by (simp add: take_bit_eq_mod)
qed

lemma hlen4_le: "hlen4 b \<le> 60"
  using mod_less_divisor [of 16 "unat (b ! 0)"] by (simp add: hlen4_def)

lemma hlen4_even [simp]: "even (hlen4 b)"
  by (simp add: hlen4_def)

lemma unat_hlen4 [simp]: "unat (word_of_nat (hlen4 b) :: u8) = hlen4 b"
  using hlen4_le [of b] by (intro unat_of_nat_u8) simp

lemma IPv4_HeaderLength_eq: "b \<noteq> [] \<Longrightarrow> IPv4_HeaderLength b = Some (word_of_nat (hlen4 b))"
proof -
  have "unat (((b ! 0) AND 0x0f) * 4) = hlen4 b"
    using mod_less_divisor [of 16 "unat (b ! 0)"] unat_and_0f [of "b ! 0"]
    by (simp add: hlen4_def unat_word_ariths)
  then have "((b ! 0) AND 0x0f) * 4 = word_of_nat (hlen4 b)"
    by (rule unat_eqD)
  then show "b \<noteq> [] \<Longrightarrow> ?thesis"
    by (simp add: IPv4_HeaderLength_def byte_at_def)
qed

lemma IPv4_TotalLength_eq: "4 \<le> length b \<Longrightarrow> IPv4_TotalLength b = Some (be16 (b ! 2) (b ! 3))"
  by (simp add: IPv4_TotalLength_def go_simps numeral_3_eq_3)

lemma IPVersion_eq: "b \<noteq> [] \<Longrightarrow> IPVersion b = int (unat (b ! 0) div 16)"
  by (simp add: IPVersion_def unat_drop_bit)

lemma IPv4_IsValid_eq: "IPv4_IsValid b n = Some (valid4 b n)"
proof (cases "20 \<le> length b")
  case True
  then have "b \<noteq> []" by auto
  have "(int (unat (b ! 0) div 16) = 4) = (unat (b ! 0) div 16 = 4)" by linarith
  then show ?thesis
    using True IPv4_HeaderLength_eq [OF \<open>b \<noteq> []\<close>] IPv4_TotalLength_eq [of b] IPVersion_eq [OF \<open>b \<noteq> []\<close>]
    by (auto simp: IPv4_IsValid_def valid4_def tlen4_def not_less)
qed (simp add: IPv4_IsValid_def valid4_def)

lemma valid4D:
  assumes "valid4 b n"
  shows "20 \<le> length b" "b \<noteq> []" "20 \<le> hlen4 b" "hlen4 b \<le> tlen4 b" "tlen4 b \<le> n" "unat (b ! 0) div 16 = 4"
  using assms by (auto simp: valid4_def)

lemma IPv4_PayloadLength_eq:
  assumes "4 \<le> length b" and "hlen4 b \<le> tlen4 b"
  shows "IPv4_PayloadLength b = Some (word_of_nat (tlen4 b - hlen4 b))"
proof -
  have "b \<noteq> []" using assms(1) by auto
  let ?t = "be16 (b ! 2) (b ! 3)" and ?h = "ucast (word_of_nat (hlen4 b) :: u8) :: u16"
  have h: "unat ?h = hlen4 b" by (simp add: unat_ucast_up)
  have "?h \<le> ?t" using assms(2) h by (simp add: word_le_nat_alt tlen4_def)
  then have "unat (?t - ?h) = tlen4 b - hlen4 b"
    using h by (simp add: unat_sub tlen4_def)
  from unat_eqD [OF this] show ?thesis
    using \<open>b \<noteq> []\<close> assms(1) IPv4_HeaderLength_eq [OF \<open>b \<noteq> []\<close>] IPv4_TotalLength_eq [of b]
    by (simp add: IPv4_PayloadLength_def)
qed

lemma tlen4_less [simp]: "tlen4 b < 65536"
  unfolding tlen4_def by (rule unat_u16_less)

lemma IPv4_Payload_eq:
  assumes "valid4 b n" and "n \<le> length b"
  shows "IPv4_Payload b = Some (take (tlen4 b - hlen4 b) (drop (hlen4 b) b))"
proof -
  note v = valid4D [OF assms(1)]
  have "unat (word_of_nat (tlen4 b - hlen4 b) :: u16) = tlen4 b - hlen4 b"
    by (intro unat_of_nat_u16) (simp add: less_imp_diff_less)
  then show ?thesis
    using v assms(2) IPv4_HeaderLength_eq [OF v(2)] IPv4_PayloadLength_eq [of b]
    by (simp add: IPv4_Payload_def go_simps)
qed

lemma IPv4_IsChecksumValid_eq:
  assumes "b \<noteq> []" and "hlen4 b \<le> length b"
  shows "IPv4_IsChecksumValid b = Some (rfc1071 (take (hlen4 b) b) 0 = 0xffff)"
  using assms by (simp add: IPv4_IsChecksumValid_def IPv4_HeaderLength_eq go_simps)

lemma IPv4_CalculateChecksum_eq:
  assumes "12 \<le> hlen4 b" and "hlen4 b \<le> length b"
  shows "IPv4_CalculateChecksum b =
    Some (word_of_nat (fold16 (sum16 (take 10 b) + sum16 (drop 12 (take (hlen4 b) b)))))"
proof -
  have "b \<noteq> []" using assms by auto
  then show ?thesis
    using assms by (simp add: IPv4_CalculateChecksum_def IPv4_HeaderLength_eq go_simps
        word_unat_eq_iff unat_of_nat_u16 drop_take)
qed

section \<open>Writing the checksum\<close>

text \<open>Writing the checksum field keeps the lengths, and its place in the sum of the header.\<close>

lemma IPv4_SetChecksum_in: "12 \<le> length b \<Longrightarrow> IPv4_SetChecksum b v = Some (b[10 := hi8 v, 11 := lo8 v])"
  by (simp add: IPv4_SetChecksum_def go_simps)

lemma sum16_xsum_field:
  assumes "12 \<le> n" and "n \<le> length b"
  shows "sum16 (take n (b[10 := hi8 v, 11 := lo8 v])) =
         sum16 (take 10 b) + sum16 (drop 12 (take n b)) + unat v"
  using sum16_put16 [of 10 "take n b" v] sum16_field [of 10 "take n b"] assms
  by (simp add: take_update_swap min_absorb1)

lemma valid4_put_xsum: "valid4 b n \<Longrightarrow> valid4 (b[10 := x, 11 := y]) n"
  by (simp add: valid4_def hlen4_def tlen4_def)

lemma IPv4_fresh_checksum:
  assumes "valid4 b (length b)"
  shows "\<exists>c. IPv4_CalculateChecksum b = Some c \<and>
    IPv4_SetChecksum b (NOT c) = Some (b[10 := hi8 (NOT c), 11 := lo8 (NOT c)]) \<and>
    rfc1071 (take (hlen4 b) (b[10 := hi8 (NOT c), 11 := lo8 (NOT c)])) 0 = 0xffff"
proof -
  note v = valid4D [OF assms]
  let ?n = "sum16 (take 10 b) + sum16 (drop 12 (take (hlen4 b) b))"
  have "rfc1071 (take (hlen4 b) (b[10 := hi8 (NOT (word_of_nat (fold16 ?n))), 11 := lo8 (NOT (word_of_nat (fold16 ?n)))])) 0 = 0xffff"
    using v by (intro rfc1071_valid_complement [where n = ?n]) (simp add: sum16_xsum_field)
  then show ?thesis
    using v by (simp add: IPv4_CalculateChecksum_eq IPv4_SetChecksum_in)
qed

section \<open>Rewriting an address\<close>

lemma rewrite_address_valid:
  assumes v: "valid4 b (length b)" and ck: "rfc1071 (take (hlen4 b) b) 0 = 0xffff"
    and k: "even k" "12 \<le> k" "k + 4 \<le> 20" and new: "length new = 4"
    and x: "cong16 (unat x + sum16 (take 4 (drop k b))) (unat (NOT (be16 (b ! 10) (b ! 11))) + sum16 new)"
  defines "b' \<equiv> put_slice k new (b[10 := hi8 (NOT x), 11 := lo8 (NOT x)])"
  shows "rfc1071 (take (hlen4 b') b') 0 = 0xffff" and "valid4 b' (length b')" and "hlen4 b' = hlen4 b"
proof -
  note v = valid4D [OF v] and v0 = v
  have len: "length b' = length b" using v k new by (simp add: b'_def)
  have low: "b' ! i = b ! i" if "i < 10" for i
    using that k new v by (simp add: b'_def nth_put_slice)
  show h: "hlen4 b' = hlen4 b" and "valid4 b' (length b')"
    using v0 len low by (simp_all add: valid4_def hlen4_def tlen4_def)
  let ?c = "b[10 := hi8 (NOT x), 11 := lo8 (NOT x)]" and ?n = "hlen4 b"
  have k4: "k + 4 \<le> ?n" "k + 4 \<le> length b" using k v by linarith+
  have "take ?n b' = put_slice k new (take ?n ?c)"
    unfolding b'_def using k4 new by (intro take_put_slice) simp
  then have "sum16 (take ?n b') + sum16 (take 4 (drop k (take ?n ?c))) = sum16 (take ?n ?c) + sum16 new"
    using sum16_put_slice [of k new "take ?n ?c"] k k4 new v by simp
  moreover have "take 4 (drop k (take ?n ?c)) = take 4 (drop k b)"
    using k k4 by (simp add: drop_take)
  ultimately have s: "sum16 (take ?n b') + sum16 (take 4 (drop k b)) = sum16 (take 10 b) + sum16 (drop 12 (take ?n b)) + unat (NOT x) + sum16 new"
    using v by (simp add: sum16_xsum_field)
  have t: "sum16 (take ?n b) = sum16 (take 10 b) + sum16 (drop 12 (take ?n b)) + unat (be16 (b ! 10) (b ! 11))"
    using sum16_field [of 10 "take ?n b"] v by (simp add: min_absorb1)
  have "cong16 (unat (NOT x) + sum16 new) (unat (be16 (b ! 10) (b ! 11)) + sum16 (take 4 (drop k b)))"
    using x by (rule update_complement)
  then have "cong16 (unat (NOT x) + sum16 new + (sum16 (take 10 b) + sum16 (drop 12 (take ?n b))))
      (unat (be16 (b ! 10) (b ! 11)) + sum16 (take 4 (drop k b)) + (sum16 (take 10 b) + sum16 (drop 12 (take ?n b))))"
    by (simp only: cong16_cancel)
  then have "cong16 (sum16 (take ?n b') + sum16 (take 4 (drop k b))) (sum16 (take ?n b) + sum16 (take 4 (drop k b)))"
    unfolding s t by (simp add: ac_simps)
  then have "cong16 (sum16 (take ?n b')) (sum16 (take ?n b))"
    by (simp only: cong16_cancel)
  moreover have "0 < sum16 (take ?n b')"
  proof (rule sum16_pos)
    have "0 < length (take ?n b')" using v(1,2,3) len by simp
    then show "take ?n b' \<noteq> []" by (rule length_greater_0_conv [THEN iffD1])
    have "b ! 0 \<noteq> 0" using v(6) by auto
    then show "take ?n b' ! 0 \<noteq> 0" using v(3) low [of 0] by simp
  qed
  ultimately show "rfc1071 (take (hlen4 b') b') 0 = 0xffff"
    unfolding h by (intro rfc1071_valid_cong [OF _ _ ck]) simp_all
qed

lemma AddrFrom4_wf: "length s = 4 \<Longrightarrow> wf_Address (AddrFrom4 s) \<and> a_length (AddrFrom4 s) = 4 \<and>
    take 4 (a_addr (AddrFrom4 s)) = s"
  by (simp add: wf_Address_def AddrFrom4_def go_copy_def)

lemma IPv4_SetSourceUpdate:
  assumes "valid4 b (length b)" and "rfc1071 (take (hlen4 b) b) 0 = 0xffff"
    and "wf_Address new" and "a_length new = 4"
  shows "returns (IPv4_SetSourceAddressWithChecksumUpdate b new) (\<lambda>b'.
    rfc1071 (take (hlen4 b') b') 0 = 0xffff \<and> valid4 b' (length b') \<and>
    take 4 (drop 12 b') = take 4 (a_addr new) \<and> take 4 (drop 16 b') = take 4 (drop 16 b) \<and>
    length b' = length b \<and> take 10 b' = take 10 b \<and> drop 20 b' = drop 20 b)"
proof -
  note v = valid4D [OF assms(1)]
  let ?old = "take 4 (drop 12 b)"
  have old: "wf_Address (AddrFrom4 ?old)" "a_length (AddrFrom4 ?old) = 4" "take 4 (a_addr (AddrFrom4 ?old)) = ?old"
    using AddrFrom4_wf [of ?old] v by simp_all
  have new: "length (take 4 (a_addr new)) = 4" "AsSlice new = Some (take 4 (a_addr new))"
    using assms(3,4) AsSlice_wf [of new] by (simp_all add: wf_Address_def)
  obtain x where x: "checksumUpdate2ByteAlignedAddress (NOT (be16 (b ! 10) (b ! 11))) (AddrFrom4 ?old) new = Some x"
    "cong16 (unat x + sum16 ?old) (unat (NOT (be16 (b ! 10) (b ! 11))) + sum16 (take 4 (a_addr new)))"
    using checksumUpdate_address [OF old(1) assms(3)] old assms(4) by (auto simp: returns_iff)
  let ?b = "put_slice 12 (take 4 (a_addr new)) (b[10 := hi8 (NOT x), 11 := lo8 (NOT x)])"
  have r: "rfc1071 (take (hlen4 ?b) ?b) 0 = 0xffff" "valid4 ?b (length ?b)"
    by (rule rewrite_address_valid [OF assms(1,2) _ _ _ new(1) x(2)]; simp)+
  have at: "take 4 (drop 12 ?b) = take 4 (a_addr new)"
    using v new(1) by (intro take_drop_put_slice) simp_all
  have rest: "take 4 (drop 16 ?b) = take 4 (drop 16 b)" "length ?b = length b" "take 10 ?b = take 10 b" "drop 20 ?b = drop 20 b"
    using v new(1) by (auto simp: put_slice_def intro!: nth_equalityI)
  have "IPv4_SetSourceAddressWithChecksumUpdate b new = Some ?b"
    using v x(1) new by (simp add: IPv4_SetSourceAddressWithChecksumUpdate_def IPv4_Checksum_def
        IPv4_SourceAddress_def IPv4_SetChecksum_def IPv4_SetSourceAddress_def go_simps)
  then show ?thesis using r at rest by (simp only: returns_Some)
qed

lemma IPv4_SetDestinationUpdate:
  assumes "valid4 b (length b)" and "rfc1071 (take (hlen4 b) b) 0 = 0xffff"
    and "wf_Address new" and "a_length new = 4"
  shows "returns (IPv4_SetDestinationAddressWithChecksumUpdate b new) (\<lambda>b'.
    rfc1071 (take (hlen4 b') b') 0 = 0xffff \<and> valid4 b' (length b') \<and>
    take 4 (drop 16 b') = take 4 (a_addr new) \<and> take 4 (drop 12 b') = take 4 (drop 12 b) \<and>
    length b' = length b \<and> take 10 b' = take 10 b \<and> drop 20 b' = drop 20 b)"
proof -
  note v = valid4D [OF assms(1)]
  let ?old = "take 4 (drop 16 b)"
  have old: "wf_Address (AddrFrom4 ?old)" "a_length (AddrFrom4 ?old) = 4" "take 4 (a_addr (AddrFrom4 ?old)) = ?old"
    using AddrFrom4_wf [of ?old] v by simp_all
  have new: "length (take 4 (a_addr new)) = 4" "AsSlice new = Some (take 4 (a_addr new))"
    using assms(3,4) AsSlice_wf [of new] by (simp_all add: wf_Address_def)
  obtain x where x: "checksumUpdate2ByteAlignedAddress (NOT (be16 (b ! 10) (b ! 11))) (AddrFrom4 ?old) new = Some x"
    "cong16 (unat x + sum16 ?old) (unat (NOT (be16 (b ! 10) (b ! 11))) + sum16 (take 4 (a_addr new)))"
    using checksumUpdate_address [OF old(1) assms(3)] old assms(4) by (auto simp: returns_iff)
  let ?b = "put_slice 16 (take 4 (a_addr new)) (b[10 := hi8 (NOT x), 11 := lo8 (NOT x)])"
  have r: "rfc1071 (take (hlen4 ?b) ?b) 0 = 0xffff" "valid4 ?b (length ?b)"
    by (rule rewrite_address_valid [OF assms(1,2) _ _ _ new(1) x(2)]; simp)+
  have at: "take 4 (drop 16 ?b) = take 4 (a_addr new)"
    using v new(1) by (intro take_drop_put_slice) simp_all
  have rest: "take 4 (drop 12 ?b) = take 4 (drop 12 b)" "length ?b = length b" "take 10 ?b = take 10 b" "drop 20 ?b = drop 20 b"
    using v new(1) by (auto simp: put_slice_def intro!: nth_equalityI)
  have "IPv4_SetDestinationAddressWithChecksumUpdate b new = Some ?b"
    using v x(1) new by (simp add: IPv4_SetDestinationAddressWithChecksumUpdate_def IPv4_Checksum_def
        IPv4_DestinationAddress_def IPv4_SetChecksum_def IPv4_SetDestinationAddress_def go_simps)
  then show ?thesis using r at rest by (simp only: returns_Some)
qed

section \<open>Properties\<close>

text \<open>
  C30. A packet that \<open>IsValid\<close> accepts can be taken apart without a panic: it is the twenty fixed
  bytes, the options, the payload and whatever trails the declared total length, in that order.
\<close>

theorem IPv4_valid_parts:
  assumes "IPv4_IsValid b (length b) = Some True"
  shows "\<exists>hl tl opts payload. IPv4_HeaderLength b = Some hl \<and> IPv4_TotalLength b = Some tl \<and>
    IPv4_Options b = Some opts \<and> IPv4_Payload b = Some payload \<and>
    b = take 20 b @ opts @ payload @ drop (unat tl) b \<and>
    length opts = unat hl - 20 \<and> length payload = unat tl - unat hl \<and> unat hl \<le> 60"
proof -
  have "valid4 b (length b)" using assms by (simp add: IPv4_IsValid_eq)
  note v = valid4D [OF this] and p = IPv4_Payload_eq [OF this order_refl]
  have o: "IPv4_Options b = Some (take (hlen4 b - 20) (drop 20 b))"
    using v by (simp add: IPv4_Options_def IPv4_HeaderLength_eq go_simps)
  have "b = take 20 b @ take (hlen4 b - 20) (drop 20 b) @ take (tlen4 b - hlen4 b) (drop (hlen4 b) b) @ drop (tlen4 b) b"
  proof -
    have "drop 20 b = take (hlen4 b - 20) (drop 20 b) @ drop (hlen4 b) b"
      using v(3) append_take_drop_id [of "hlen4 b - 20" "drop 20 b"] by simp
    moreover have "drop (hlen4 b) b = take (tlen4 b - hlen4 b) (drop (hlen4 b) b) @ drop (tlen4 b) b"
      using v(4) append_take_drop_id [of "tlen4 b - hlen4 b" "drop (hlen4 b) b"] by simp
    ultimately show ?thesis by (metis append_take_drop_id)
  qed
  then show ?thesis
    using v o p hlen4_le [of b] IPv4_HeaderLength_eq [OF v(2)] IPv4_TotalLength_eq [of b]
    by (auto simp: tlen4_def)
qed

theorem IPv4_valid_parts_witness:
  "\<exists>hl tl opts payload. IPv4_HeaderLength (0x45 # 0 # 0 # 20 # replicate 16 7) = Some hl \<and>
    IPv4_TotalLength (0x45 # 0 # 0 # 20 # replicate 16 7) = Some tl \<and>
    IPv4_Options (0x45 # 0 # 0 # 20 # replicate 16 7) = Some opts \<and>
    IPv4_Payload (0x45 # 0 # 0 # 20 # replicate 16 7) = Some payload"
proof -
  have "IPv4_IsValid (0x45 # 0 # 0 # 20 # replicate 16 7) (length (0x45 # 0 # 0 # 20 # replicate 16 (7 :: u8))) = Some True"
    by (simp add: IPv4_IsValid_eq valid4_def hlen4_def tlen4_def)
  from IPv4_valid_parts [OF this] show ?thesis by blast
qed

text \<open>
  On a packet \<open>IsValid\<close> accepts, storing the complement of \<open>CalculateChecksum\<close> gives a header
  whose checksum verifies, and the packet is still accepted.
\<close>

theorem IPv4_checksum_roundtrip:
  assumes "IPv4_IsValid b (length b) = Some True"
  shows "returns (do { c \<leftarrow> IPv4_CalculateChecksum b; IPv4_SetChecksum b (NOT c) }) (\<lambda>b'.
    IPv4_IsChecksumValid b' = Some True \<and> IPv4_IsValid b' (length b') = Some True \<and>
    IPv4_Payload b' = IPv4_Payload b)"
proof -
  have v0: "valid4 b (length b)" using assms by (simp add: IPv4_IsValid_eq)
  note v = valid4D [OF v0]
  obtain c where c: "IPv4_CalculateChecksum b = Some c"
    "IPv4_SetChecksum b (NOT c) = Some (b[10 := hi8 (NOT c), 11 := lo8 (NOT c)])"
    "rfc1071 (take (hlen4 b) (b[10 := hi8 (NOT c), 11 := lo8 (NOT c)])) 0 = 0xffff"
    using IPv4_fresh_checksum [OF v0] by blast
  let ?b = "b[10 := hi8 (NOT c), 11 := lo8 (NOT c)]"
  have v': "valid4 ?b (length ?b)" using valid4_put_xsum [OF v0] by simp
  have h: "hlen4 ?b = hlen4 b" "tlen4 ?b = tlen4 b" by (simp_all add: hlen4_def tlen4_def)
  have "drop (hlen4 b) ?b = drop (hlen4 b) b" using v by simp
  then have "IPv4_Payload ?b = IPv4_Payload b"
    using IPv4_Payload_eq [OF v' order_refl] IPv4_Payload_eq [OF v0 order_refl] h by simp
  then show ?thesis
    using c v' v h IPv4_IsChecksumValid_eq [of ?b] by (simp add: IPv4_IsValid_eq)
qed

theorem IPv4_checksum_roundtrip_witness:
  "returns (do { c \<leftarrow> IPv4_CalculateChecksum (0x45 # 0 # 0 # 20 # replicate 16 7);
      IPv4_SetChecksum (0x45 # 0 # 0 # 20 # replicate 16 7) (NOT c) }) (\<lambda>b'.
    IPv4_IsChecksumValid b' = Some True \<and> IPv4_IsValid b' (length b') = Some True \<and>
    IPv4_Payload b' = IPv4_Payload (0x45 # 0 # 0 # 20 # replicate 16 7))"
  by (rule IPv4_checksum_roundtrip)
    (simp add: IPv4_IsValid_eq valid4_def hlen4_def tlen4_def)

text \<open>
  C29. Rewriting the source or the destination address with the incremental checksum update keeps a
  verified header verified and stores the new address.
\<close>

theorem IPv4_address_update:
  assumes "IPv4_IsValid b (length b) = Some True" and "IPv4_IsChecksumValid b = Some True"
    and "wf_Address new" and "a_length new = 4"
  shows "returns (IPv4_SetSourceAddressWithChecksumUpdate b new) (\<lambda>b'.
      IPv4_IsChecksumValid b' = Some True \<and> IPv4_SourceAddressSlice b' = AsSlice new) \<and>
    returns (IPv4_SetDestinationAddressWithChecksumUpdate b new) (\<lambda>b'.
      IPv4_IsChecksumValid b' = Some True \<and> IPv4_DestinationAddressSlice b' = AsSlice new)"
proof -
  have v0: "valid4 b (length b)" using assms(1) by (simp add: IPv4_IsValid_eq)
  then have ck: "rfc1071 (take (hlen4 b) b) 0 = 0xffff"
    using assms(2) valid4D [OF v0] by (simp add: IPv4_IsChecksumValid_eq)
  have use: "IPv4_IsChecksumValid b' = Some True \<and> slice b' k (k + 4) = AsSlice new"
    if "rfc1071 (take (hlen4 b') b') 0 = 0xffff" "valid4 b' (length b')" "take 4 (drop k b') = take 4 (a_addr new)"
      "k \<le> 16" for b' k
    using that valid4D [OF that(2)] assms(3,4) by (simp add: IPv4_IsChecksumValid_eq go_simps AsSlice_wf)
  have "returns (IPv4_SetSourceAddressWithChecksumUpdate b new) (\<lambda>b'.
      IPv4_IsChecksumValid b' = Some True \<and> slice b' 12 (12 + 4) = AsSlice new)"
    by (rule returns_mono [OF IPv4_SetSourceUpdate [OF v0 ck assms(3,4)]], rule use) auto
  moreover have "returns (IPv4_SetDestinationAddressWithChecksumUpdate b new) (\<lambda>b'.
      IPv4_IsChecksumValid b' = Some True \<and> slice b' 16 (16 + 4) = AsSlice new)"
    by (rule returns_mono [OF IPv4_SetDestinationUpdate [OF v0 ck assms(3,4)]], rule use) auto
  ultimately show ?thesis
    unfolding IPv4_SourceAddressSlice_def IPv4_DestinationAddressSlice_def by blast
qed

theorem IPv4_address_update_witness:
  "returns (IPv4_SetSourceAddressWithChecksumUpdate
      [0x45, 0, 0, 20, 0, 0, 0, 0, 64, 6, 0x66, 0xe2, 10, 0, 0, 1, 10, 0, 0, 2] (AddrFrom4 [172, 18, 0, 1])) (\<lambda>b'.
      IPv4_IsChecksumValid b' = Some True \<and> IPv4_SourceAddressSlice b' = AsSlice (AddrFrom4 [172, 18, 0, 1]))"
proof -
  let ?b = "[0x45, 0, 0, 20, 0, 0, 0, 0, 64, 6, 0x66, 0xe2, 10, 0, 0, 1, 10, 0, 0, 2] :: bytes"
  have "IPv4_IsValid ?b (length ?b) = Some True"
    by (simp add: IPv4_IsValid_eq valid4_def hlen4_def tlen4_def)
  moreover have "IPv4_IsChecksumValid ?b = Some True"
    by (simp add: IPv4_IsChecksumValid_eq hlen4_def rfc1071_valid_iff)
  moreover have "wf_Address (AddrFrom4 [172, 18, 0, 1])" "a_length (AddrFrom4 [172, 18, 0, 1]) = 4"
    using AddrFrom4_wf [of "[172, 18, 0, 1]"] by simp_all
  ultimately show ?thesis using IPv4_address_update by blast
qed

text \<open>
  The accessors for raw sockets on Darwin disagree about the byte order of the flags: on a
  little-endian machine \<open>FlagsDarwinRaw\<close> does not return the flags that
  \<open>SetFlagsFragmentOffsetDarwinRaw\<close> stored (it reads the field big-endian), while
  \<open>FragmentOffsetDarwinRaw\<close> reads back the offset, for the don't-fragment flag and offset 8.
\<close>

theorem FlagsDarwinRaw_not_roundtrip:
  "(SetFlagsFragmentOffsetDarwinRaw True (replicate 20 0) 2 8 \<bind> FlagsDarwinRaw) = Some 0 \<and>
   (SetFlagsFragmentOffsetDarwinRaw True (replicate 20 0) 2 8 \<bind> FragmentOffsetDarwinRaw True) = Some 8 \<and>
   (IPv4_SetFlagsFragmentOffset (replicate 20 0) 2 8 \<bind> IPv4_Flags) = Some 2"
  by (simp add: SetFlagsFragmentOffsetDarwinRaw_def IPv4_SetFlagsFragmentOffset_def Native_PutUint16_def
      FlagsDarwinRaw_def IPv4_Flags_def FragmentOffsetDarwinRaw_def put_slice_def native16_def load_def
      order_nat_def BE_PutUint16_def BE_Uint16_def be16_def hi8_def lo8_def nth_append)

end
