(* ===== verification/IPv4_Options.thy ===== *)
theory IPv4_Options
  imports Header_IPv4
begin

text \<open>
  The options of the IPv4 header (second half of \<^verbatim>\<open>internal/gtcpip/header/ipv4.go\<close>): the iterator
  that parses them and builds a replacement, the timestamp, record-route and router-alert options,
  the serializer, and \<^verbatim>\<open>IPv4.Encode\<close>, which calls it. The clock of the timestamp option is the
  argument \<open>now\<close>, the milliseconds since midnight.
\<close>

abbreviation (input) IPv4OptionListEndType :: u8 where "IPv4OptionListEndType \<equiv> 0"
abbreviation (input) IPv4OptionNOPType :: u8 where "IPv4OptionNOPType \<equiv> 1"
abbreviation (input) IPv4OptionRecordRouteType :: u8 where "IPv4OptionRecordRouteType \<equiv> 7"
abbreviation (input) IPv4OptionTimestampType :: u8 where "IPv4OptionTimestampType \<equiv> 68"
abbreviation (input) IPv4OptionRouterAlertType :: u8 where "IPv4OptionRouterAlertType \<equiv> 148"
abbreviation (input) IPv4MaximumOptionsSize :: nat where "IPv4MaximumOptionsSize \<equiv> 40"

datatype IPv4Option =
  IPv4OptionGeneric bytes
| IPv4OptionTimestamp bytes
| IPv4OptionRecordRoute bytes
| IPv4OptionRouterAlert bytes

definition Option_Contents :: "IPv4Option \<Rightarrow> bytes" where
  "Option_Contents opt = (case opt of
     IPv4OptionGeneric b \<Rightarrow> b | IPv4OptionTimestamp b \<Rightarrow> b
   | IPv4OptionRecordRoute b \<Rightarrow> b | IPv4OptionRouterAlert b \<Rightarrow> b)"

definition Option_Type :: "IPv4Option \<Rightarrow> u8 option" where
  "Option_Type opt = (case opt of
     IPv4OptionGeneric b \<Rightarrow> byte_at b 0
   | IPv4OptionTimestamp b \<Rightarrow> Some IPv4OptionTimestampType
   | IPv4OptionRecordRoute b \<Rightarrow> Some IPv4OptionRecordRouteType
   | IPv4OptionRouterAlert b \<Rightarrow> Some IPv4OptionRouterAlertType)"

definition Option_Size :: "IPv4Option \<Rightarrow> u8" where
  "Option_Size opt = word_of_nat (length (Option_Contents opt))"

record IPv4OptionIterator =
  it_options :: bytes
  it_ErrCursor :: u8
  it_nextErrCursor :: u8
  it_newOptions :: bytes
  it_writePoint :: nat

text \<open>What \<open>Next\<close> returns: no more options, an option, or a parameter problem (its pointer).\<close>

datatype next_result = Done | NextOption IPv4Option | ParameterProblem u8 bool

definition MakeIterator :: "bytes \<Rightarrow> IPv4OptionIterator" where
  "MakeIterator opts = \<lparr>it_options = opts, it_ErrCursor = 0, it_nextErrCursor = 20,
     it_newOptions = replicate IPv4MaximumOptionsSize 0, it_writePoint = 0\<rparr>"

definition RemainingBuffer :: "IPv4OptionIterator \<Rightarrow> bytes option" where
  "RemainingBuffer it = slice_from (it_newOptions it) (it_writePoint it)"

definition InitReplacement :: "IPv4OptionIterator \<Rightarrow> IPv4Option \<Rightarrow> (IPv4OptionIterator \<times> bytes) option" where
  "InitReplacement it opt = do {
     rest \<leftarrow> RemainingBuffer it;
     r \<leftarrow> slice rest 0 (unat (Option_Size opt));
     if min (length r) (length (Option_Contents opt)) \<noteq> length r then None
     else do {
       bs \<leftarrow> copy_into (it_writePoint it) (it_writePoint it + unat (Option_Size opt))
              (Option_Contents opt) (it_newOptions it);
       Some (it\<lparr>it_newOptions := bs\<rparr>, go_copy r (Option_Contents opt)) } }"

definition ConsumeBuffer :: "IPv4OptionIterator \<Rightarrow> nat \<Rightarrow> IPv4OptionIterator" where
  "ConsumeBuffer it sz = it\<lparr>it_writePoint := it_writePoint it + sz\<rparr>"

definition PushNOPOrEnd :: "IPv4OptionIterator \<Rightarrow> u8 \<Rightarrow> IPv4OptionIterator option" where
  "PushNOPOrEnd it val =
     (if val > IPv4OptionNOPType then None
      else do {
        bs \<leftarrow> set_byte (it_newOptions it) (it_writePoint it) val;
        Some (it\<lparr>it_newOptions := bs, it_writePoint := it_writePoint it + 1\<rparr>) })"

definition Finalize :: "IPv4OptionIterator \<Rightarrow> (IPv4OptionIterator \<times> bytes) option" where
  "Finalize it = do {
     opts \<leftarrow> slice (it_newOptions it) 0 ((it_writePoint it + 3) div 4 * 4);
     Some (it\<lparr>it_writePoint := length (it_newOptions it)\<rparr>, opts) }"

definition known_option :: "IPv4OptionIterator \<Rightarrow> u8 \<Rightarrow> u8 \<Rightarrow> bytes \<Rightarrow> IPv4OptionIterator \<times> next_result" where
  "known_option it optType optLen optionBody = (
     let it' = it\<lparr>it_ErrCursor := it_ErrCursor it + 1\<rparr>;
         problem = (it', ParameterProblem (it_ErrCursor it') True) in
     if optType = IPv4OptionTimestampType then
       if optLen < 4 then problem else (it, NextOption (IPv4OptionTimestamp optionBody))
     else if optType = IPv4OptionRecordRouteType then
       if optLen < 3 then problem else (it, NextOption (IPv4OptionRecordRoute optionBody))
     else if optType = IPv4OptionRouterAlertType then
       if optLen \<noteq> 4 then problem else (it, NextOption (IPv4OptionRouterAlert optionBody))
     else (it, NextOption (IPv4OptionGeneric optionBody)))"

definition Next :: "IPv4OptionIterator \<Rightarrow> (IPv4OptionIterator \<times> next_result) option" where
  "Next it =
     (if length (it_options it) = 0 then Some (it, Done)
      else do {
        let it = it\<lparr>it_ErrCursor := it_nextErrCursor it\<rparr>;
        optType \<leftarrow> byte_at (it_options it) 0;
        if optType = IPv4OptionNOPType \<or> optType = IPv4OptionListEndType then do {
          optionBody \<leftarrow> slice (it_options it) 0 1;
          rest \<leftarrow> slice_from (it_options it) 1;
          Some (it\<lparr>it_options := rest, it_nextErrCursor := it_ErrCursor it + 1\<rparr>,
                NextOption (IPv4OptionGeneric optionBody)) }
        else if length (it_options it) = 1 then Some (it, ParameterProblem (it_ErrCursor it) True)
        else do {
          optLen \<leftarrow> byte_at (it_options it) 1;
          if optLen \<le> 1 \<or> optLen > word_of_nat (length (it_options it)) then
            Some (it, ParameterProblem (it_ErrCursor it) True)
          else do {
            optionBody \<leftarrow> slice (it_options it) 0 (unat optLen);
            rest \<leftarrow> slice_from (it_options it) (unat optLen);
            Some (known_option (it\<lparr>it_nextErrCursor := it_ErrCursor it + optLen, it_options := rest\<rparr>)
                    optType optLen optionBody) } } })"

section \<open>The known options\<close>

definition Timestamp_Pointer :: "bytes \<Rightarrow> u8 option" where
  "Timestamp_Pointer ts = byte_at ts 2"

definition Timestamp_Flags :: "bytes \<Rightarrow> u8 option" where
  "Timestamp_Flags ts = do { x \<leftarrow> byte_at ts 3; Some (x AND 0x0f) }"

definition Timestamp_Overflow :: "bytes \<Rightarrow> u8 option" where
  "Timestamp_Overflow ts = do { x \<leftarrow> byte_at ts 3; Some (drop_bit 4 x) }"

definition IncOverflow :: "bytes \<Rightarrow> (bytes \<times> u8) option" where
  "IncOverflow ts = do {
     x \<leftarrow> byte_at ts 3;
     ts \<leftarrow> set_byte ts 3 (x + 16);
     r \<leftarrow> Timestamp_Overflow ts;
     Some (ts, r) }"

definition bump_pointer :: "bytes \<Rightarrow> u8 \<Rightarrow> bytes option" where
  "bump_pointer ts n = do { x \<leftarrow> byte_at ts 2; set_byte ts 2 (x + n) }"

definition UpdateTimestamp :: "bytes \<Rightarrow> Address \<Rightarrow> u32 \<Rightarrow> bytes option" where
  "UpdateTimestamp ts addr now = do {
     p \<leftarrow> Timestamp_Pointer ts;
     let at = unat (p - 1);
     slot \<leftarrow> slice_from ts at;
     flags \<leftarrow> Timestamp_Flags ts;
     if flags = 0 then do {
       ts \<leftarrow> BE_PutUint32 ts at now;
       bump_pointer ts 4 }
     else if flags = 1 then do {
       a \<leftarrow> AsSlice addr;
       if min (length slot) (length a) \<noteq> 4 then None
       else do {
         ts \<leftarrow> copy_into at (length ts) a ts;
         ts \<leftarrow> BE_PutUint32 ts (at + 4) now;
         bump_pointer ts 8 } }
     else if flags = 3 then do {
       a \<leftarrow> slice slot 0 4;
       if AddrFrom4 a = addr then do {
         ts \<leftarrow> BE_PutUint32 ts (at + 4) now;
         bump_pointer ts 8 }
       else Some ts }
     else Some ts }"

definition RecordRoute_Pointer :: "bytes \<Rightarrow> u8 option" where
  "RecordRoute_Pointer rr = byte_at rr 2"

definition StoreAddress :: "bytes \<Rightarrow> Address \<Rightarrow> bytes option" where
  "StoreAddress rr addr = do {
     p \<leftarrow> RecordRoute_Pointer rr;
     let start = unat (p - 1);
     slot \<leftarrow> slice_from rr start;
     a \<leftarrow> AsSlice addr;
     if min (length slot) (length a) \<noteq> 4 then None
     else do {
       rr \<leftarrow> copy_into start (length rr) a rr;
       bump_pointer rr 4 } }"

definition RouterAlert_Value :: "bytes \<Rightarrow> u16 option" where
  "RouterAlert_Value ra = BE_Uint16 ra 2"

section \<open>The serializer\<close>

datatype IPv4SerializableOption =
  IPv4SerializableRouterAlertOption
| IPv4SerializableNOPOption
| IPv4SerializableListEndOption

definition padIPv4OptionsLength :: "u8 \<Rightarrow> u8" where
  "padIPv4OptionsLength len = (len + 4 - 1) AND NOT (4 - 1)"

definition optionType :: "IPv4SerializableOption \<Rightarrow> u8" where
  "optionType opt = (case opt of
     IPv4SerializableRouterAlertOption \<Rightarrow> IPv4OptionRouterAlertType
   | IPv4SerializableNOPOption \<Rightarrow> IPv4OptionNOPType
   | IPv4SerializableListEndOption \<Rightarrow> IPv4OptionListEndType)"

text \<open>The router alert is the one option with a payload: its length and its bytes.\<close>

definition payload_length :: "IPv4SerializableOption \<Rightarrow> u8 option" where
  "payload_length opt = (case opt of IPv4SerializableRouterAlertOption \<Rightarrow> Some (4 - 2) | _ \<Rightarrow> None)"

definition serializeInto :: "bytes \<Rightarrow> (bytes \<times> u8) option" where
  "serializeInto buffer = do { b \<leftarrow> BE_PutUint16 buffer 0 0; Some (b, 2) }"

definition Serializer_Length :: "IPv4SerializableOption list \<Rightarrow> u8" where
  "Serializer_Length s = padIPv4OptionsLength
     (foldl (\<lambda>total opt. case payload_length opt of
        Some n \<Rightarrow> total + 1 + (1 + n) | None \<Rightarrow> total + 1) 0 s)"

text \<open>The loop of \<open>Serialize\<close>: what is written, what is left of the buffer, and the total.\<close>

fun serialize_loop :: "IPv4SerializableOption list \<Rightarrow> bytes \<Rightarrow> bytes \<Rightarrow> u8 \<Rightarrow> (bytes \<times> bytes \<times> u8) option" where
  "serialize_loop [] out b tot = Some (out, b, tot)"
| "serialize_loop (opt # s) out b tot = (
     let ty = optionType opt in
     case payload_length opt of
       Some _ \<Rightarrow> do {
         tail \<leftarrow> slice_from b 2;
         (tail, n) \<leftarrow> serializeInto tail;
         let l = 2 + n;
         b \<leftarrow> set_byte (take 2 b @ tail) 0 ty;
         b \<leftarrow> set_byte b 1 l;
         opt_bytes \<leftarrow> slice b 0 (unat l);
         rest \<leftarrow> slice_from b (unat l);
         serialize_loop s (out @ opt_bytes) rest (tot + l) }
     | None \<Rightarrow> do {
         b \<leftarrow> set_byte b 0 ty;
         opt_bytes \<leftarrow> slice b 0 1;
         rest \<leftarrow> slice_from b 1;
         serialize_loop s (out @ opt_bytes) rest (tot + 1) })"

definition Serialize :: "IPv4SerializableOption list \<Rightarrow> bytes \<Rightarrow> (bytes \<times> u8) option" where
  "Serialize s b = do {
     (out, b, tot) \<leftarrow> serialize_loop s [] b 0;
     let padded = padIPv4OptionsLength tot;
     pad \<leftarrow> slice b 0 (unat (padded - tot));
     Some (out @ replicate (length pad) 0 @ drop (length pad) b, padded) }"

section \<open>Encoding a header\<close>

record IPv4Fields =
  f4_TOS :: u8
  f4_TotalLength :: u16
  f4_ID :: u16
  f4_Flags :: u8
  f4_FragmentOffset :: u16
  f4_TTL :: u8
  f4_Protocol :: u8
  f4_Checksum :: u16
  f4_SrcAddr :: Addr
  f4_DstAddr :: Addr
  f4_Options :: "IPv4SerializableOption list"

definition IPv4_Encode :: "IPv4 \<Rightarrow> IPv4Fields \<Rightarrow> IPv4 option" where
  "IPv4_Encode b i = do {
     (b, hdrLen) \<leftarrow> (if f4_Options i \<noteq> [] then do {
         tail \<leftarrow> slice_from b ip_options;
         (tail, n) \<leftarrow> Serialize (f4_Options i) tail;
         Some (take ip_options b @ tail, 20 + n) }
       else Some (b, 20));
     if hdrLen > 60 then None
     else do {
       b \<leftarrow> IPv4_SetHeaderLength b hdrLen;
       b \<leftarrow> set_byte b ip_tos (f4_TOS i);
       b \<leftarrow> IPv4_SetTotalLength b (f4_TotalLength i);
       b \<leftarrow> BE_PutUint16 b ip_id (f4_ID i);
       b \<leftarrow> IPv4_SetFlagsFragmentOffset b (f4_Flags i) (f4_FragmentOffset i);
       b \<leftarrow> set_byte b ip_ttl (f4_TTL i);
       b \<leftarrow> set_byte b ip_protocol (f4_Protocol i);
       b \<leftarrow> IPv4_SetChecksum b (f4_Checksum i);
       b \<leftarrow> copy_into ip_srcAddr (ip_srcAddr + IPv4AddressSize) (Addr_AsSlice (f4_SrcAddr i)) b;
       copy_into ip_dstAddr (ip_dstAddr + IPv4AddressSize) (Addr_AsSlice (f4_DstAddr i)) b } }"

section \<open>The iterator\<close>

lemma Contents_simps [simp]:
  "Option_Contents (IPv4OptionGeneric b) = b" "Option_Contents (IPv4OptionTimestamp b) = b"
  "Option_Contents (IPv4OptionRecordRoute b) = b" "Option_Contents (IPv4OptionRouterAlert b) = b"
  by (simp_all add: Option_Contents_def)

lemma unat_le_length:
  assumes "\<not> optLen > (word_of_nat (length xs) :: u8)"
  shows "unat optLen \<le> length xs"
proof -
  have "unat optLen \<le> length xs mod 256"
    using assms by (simp add: not_less word_le_nat_alt unat_of_nat)
  then show ?thesis using mod_less_eq_dividend [of "length xs" 256] by linarith
qed

lemma known_option_cases:
  obtains (option) opt where "known_option it optType optLen body = (it, NextOption opt)" and "Option_Contents opt = body"
  | (problem) it' where "known_option it optType optLen body = (it', ParameterProblem (it_ErrCursor it + 1) True)"
proof (atomize_elim)
  show "(\<exists>opt. known_option it optType optLen body = (it, NextOption opt) \<and> Option_Contents opt = body) \<or>
    (\<exists>it'. known_option it optType optLen body = (it', ParameterProblem (it_ErrCursor it + 1) True))"
    by (auto simp: known_option_def Let_def)
qed

text \<open>
  C21. \<open>Next\<close> never panics, whatever the bytes: it reports the end exactly on an empty list,
  otherwise it either splits a non-empty option off the front of the remaining bytes and moves the
  error cursor by its size, or it asks for an ICMP parameter problem that points at the first or
  the second byte of the offending option.
\<close>

theorem Next_contract:
  "returns (Next it) (\<lambda>(it', r). case r of
     Done \<Rightarrow> it_options it = [] \<and> it' = it
   | NextOption opt \<Rightarrow> it_options it = Option_Contents opt @ it_options it' \<and> Option_Contents opt \<noteq> [] \<and>
       it_nextErrCursor it' = it_nextErrCursor it + Option_Size opt
   | ParameterProblem p icmp \<Rightarrow> it_options it \<noteq> [] \<and> icmp \<and>
       p \<in> {it_nextErrCursor it, it_nextErrCursor it + 1})"
proof (cases "it_options it")
  case Nil
  then show ?thesis by (simp add: Next_def)
next
  case (Cons ty rest)
  consider "ty = 1 \<or> ty = 0" | "ty \<noteq> 1" "ty \<noteq> 0" "rest = []"
    | optLen more where "ty \<noteq> 1" "ty \<noteq> 0" "rest = optLen # more"
    by (cases rest) auto
  then show ?thesis
  proof cases
    case 1
    then show ?thesis
      using Cons by (auto simp: Next_def go_simps Option_Size_def)
  next
    case 2
    then show ?thesis using Cons by (simp add: Next_def go_simps)
  next
    case (3 optLen more)
    show ?thesis
    proof (cases "optLen \<le> 1 \<or> optLen > word_of_nat (length (it_options it))")
      case True
      then show ?thesis using 3 Cons by (auto simp: Next_def go_simps)
    next
      case False
      then have n: "unat optLen \<le> length (it_options it)" "1 < unat optLen"
        using unat_le_length [of "it_options it" optLen] by (auto simp: word_le_nat_alt)
      let ?body = "take (unat optLen) (it_options it)"
      let ?it = "it\<lparr>it_ErrCursor := it_nextErrCursor it, it_nextErrCursor := it_nextErrCursor it + optLen,
        it_options := drop (unat optLen) (it_options it)\<rparr>"
      have eq: "Next it = Some (known_option ?it ty optLen ?body)"
        using 3 Cons False n by (simp add: Next_def go_simps)
      have size: "word_of_nat (length ?body) = optLen" using n by (simp add: min_absorb2)
      show ?thesis
      proof (rule known_option_cases [of ?it ty optLen ?body])
        fix opt assume "known_option ?it ty optLen ?body = (?it, NextOption opt)" and "Option_Contents opt = ?body"
        then show ?thesis using n size by (simp add: eq Option_Size_def) auto
      qed (use Cons in \<open>simp add: eq\<close>)
    qed
  qed
qed

section \<open>The serializer\<close>

definition serialized :: "IPv4SerializableOption \<Rightarrow> bytes" where
  "serialized opt = (case opt of
     IPv4SerializableRouterAlertOption \<Rightarrow> [148, 4, 0, 0]
   | IPv4SerializableNOPOption \<Rightarrow> [1]
   | IPv4SerializableListEndOption \<Rightarrow> [0])"

definition padded4 :: "nat \<Rightarrow> nat" where
  "padded4 n = (n + 3) div 4 * 4"

lemma serialize_loop_eq:
  assumes "length (concat (map serialized s)) \<le> length b"
  shows "serialize_loop s out b tot = Some (out @ concat (map serialized s),
    drop (length (concat (map serialized s))) b, tot + word_of_nat (length (concat (map serialized s))))"
  using assms
proof (induction s arbitrary: out b tot)
  case (Cons opt s)
  show ?case
  proof (cases opt)
    case IPv4SerializableRouterAlertOption
    then have len: "4 \<le> length b" using Cons.prems by (simp add: serialized_def)
    then obtain b0 b1 b2 b3 r where b: "b = b0 # b1 # b2 # b3 # r"
      by (metis Suc_le_length_iff numeral_eq_Suc pred_numeral_simps(2) numeral_3_eq_3 numeral_2_eq_2 One_nat_def semiring_norm(26,27))
    show ?thesis
      using Cons IPv4SerializableRouterAlertOption
      by (simp add: b serialized_def optionType_def payload_length_def serializeInto_def go_simps Let_def
          hi8_def lo8_def add.assoc)
  next
    case IPv4SerializableNOPOption
    then obtain b0 r where "b = b0 # r" using Cons.prems by (cases b) (auto simp: serialized_def)
    then show ?thesis
      using Cons IPv4SerializableNOPOption
      by (simp add: serialized_def optionType_def payload_length_def go_simps Let_def add.assoc)
  next
    case IPv4SerializableListEndOption
    then obtain b0 r where "b = b0 # r" using Cons.prems by (cases b) (auto simp: serialized_def)
    then show ?thesis
      using Cons IPv4SerializableListEndOption
      by (simp add: serialized_def optionType_def payload_length_def go_simps Let_def add.assoc)
  qed
qed simp

lemma unat_and_m4: "unat ((x :: u8) AND - 4) = unat x div 4 * 4"
proof -
  have "(- 4 :: u8) = NOT (mask 2)" by (simp add: mask_eq_exp_minus_1)
  moreover have "x AND NOT (mask 2) = push_bit 2 (drop_bit 2 x)"
    by (rule bit_word_eqI) (auto simp: bit_and_iff bit_not_iff bit_mask_iff bit_push_bit_iff bit_drop_bit_eq possible_bit_def
        not_less dest!: le_Suc_ex)
  ultimately have "x AND - 4 = push_bit 2 (drop_bit 2 x)" by simp
  moreover have "unat (push_bit 2 (drop_bit 2 x)) = (unat x div 4 * 4) mod 256"
    by (simp add: push_bit_eq_mult unat_word_ariths unat_drop_bit)
  moreover have "unat x div 4 * 4 < 256"
    using div_times_less_eq_dividend [of "unat x" 4] unat_u8_less [of x] by linarith
  ultimately show ?thesis by simp
qed

lemma padIPv4OptionsLength_eq:
  assumes "n \<le> 252"
  shows "padIPv4OptionsLength (word_of_nat n) = word_of_nat (padded4 n)"
proof -
  have "unat (3 + word_of_nat n :: u8) = n + 3"
    using assms by (subst unat_plus_small) (simp_all add: unat_of_nat_u8)
  then have "unat (padIPv4OptionsLength (word_of_nat n)) = padded4 n"
    by (simp add: padIPv4OptionsLength_def unat_and_m4 padded4_def)
  then show ?thesis by (rule unat_eqD)
qed

lemma padded4_bounds: "n \<le> padded4 n" "padded4 n < n + 4" "padded4 n mod 4 = 0"
  using mult_div_mod_eq [of 4 "n + 3"] mod_less_divisor [of 4 "n + 3"]
  by (simp_all add: padded4_def)

lemma Serialize_eq:
  assumes "length (concat (map serialized s)) \<le> 40"
    and "padded4 (length (concat (map serialized s))) \<le> length b"
  shows "Serialize s b = Some (concat (map serialized s) @
      replicate (padded4 (length (concat (map serialized s))) - length (concat (map serialized s))) 0 @
      drop (padded4 (length (concat (map serialized s)))) b, Serializer_Length s) \<and>
    unat (Serializer_Length s) = padded4 (length (concat (map serialized s)))"
proof -
  let ?n = "length (concat (map serialized s))"
  note p = padded4_bounds [of ?n]
  have fold: "foldl (\<lambda>total opt. case payload_length opt of Some n \<Rightarrow> total + 1 + (1 + n) | None \<Rightarrow> total + 1) t s =
      (t :: u8) + word_of_nat ?n" for t
  proof (induction s arbitrary: t)
    case (Cons opt s)
    then show ?case by (cases opt) (simp_all add: serialized_def payload_length_def)
  qed simp
  have L: "Serializer_Length s = word_of_nat (padded4 ?n)"
    using fold [of 0] padIPv4OptionsLength_eq [of ?n] assms(1) by (simp add: Serializer_Length_def)
  have u: "unat (word_of_nat (padded4 ?n) :: u8) = padded4 ?n" "unat (word_of_nat ?n :: u8) = ?n"
    using p assms(1) by (auto intro!: unat_of_nat_u8 simp del: length_concat)
  have d: "unat (word_of_nat (padded4 ?n) - word_of_nat ?n :: u8) = padded4 ?n - ?n"
    using p(1) u by (subst unat_sub) (simp_all add: word_le_nat_alt del: length_concat)
  have "Serialize s b = Some (concat (map serialized s) @ replicate (padded4 ?n - ?n) 0 @
      drop (padded4 ?n - ?n) (drop ?n b), word_of_nat (padded4 ?n))"
    using serialize_loop_eq [of s b "[]" 0] p assms padIPv4OptionsLength_eq [of ?n] d
    by (simp add: Serialize_def go_simps Let_def del: length_concat)
  then show ?thesis using L u p(1) by (simp del: length_concat)
qed

text \<open>
  For options of at most forty bytes and a buffer with room for them, \<open>Serialize\<close> writes the
  options one after the other, fills up with zeros to a multiple of four, leaves the rest of the
  buffer alone and returns the length \<open>Length\<close> announced.
\<close>

theorem Serialize_correct:
  assumes "length (concat (map serialized s)) \<le> 40"
    and "padded4 (length (concat (map serialized s))) \<le> length b"
  shows "Serialize s b = Some (concat (map serialized s) @
      replicate (padded4 (length (concat (map serialized s))) - length (concat (map serialized s))) 0 @
      drop (padded4 (length (concat (map serialized s)))) b, Serializer_Length s) \<and>
    unat (Serializer_Length s) = padded4 (length (concat (map serialized s)))"
  using assms by (rule Serialize_eq)

theorem Serialize_correct_witness:
  "Serialize [IPv4SerializableRouterAlertOption, IPv4SerializableNOPOption] (replicate 9 7) =
     Some ([148, 4, 0, 0, 1, 0, 0, 0, 7], 8)"
proof -
  have "replicate 3 (0 :: u8) = [0, 0, 0]" by (simp add: numeral_3_eq_3)
  then show ?thesis
    using Serialize_correct [of "[IPv4SerializableRouterAlertOption, IPv4SerializableNOPOption]" "replicate 9 7"]
    by (simp add: serialized_def padded4_def Serializer_Length_def padIPv4OptionsLength_def payload_length_def)
qed

section \<open>Encoding\<close>

lemma bit_le_unat: "bit (x :: 'a::len word) n \<Longrightarrow> 2 ^ n \<le> unat x"
proof (rule ccontr)
  assume "bit x n" and "\<not> 2 ^ n \<le> unat x"
  then have "bit (unat x) n" and "unat x div 2 ^ n = 0" by (simp_all add: bit_unsigned_iff bit_imp_le_length)
  then show False by (simp add: bit_iff_odd)
qed

lemma flags_roundtrip:
  assumes "flags < (8 :: u8)"
  shows "ucast (drop_bit 13 (push_bit 13 (ucast flags) OR drop_bit 3 offset :: u16)) = flags"
proof (rule bit_word_eqI)
  fix n assume "n < LENGTH(8)"
  have "n < 3" if "bit flags n"
  proof (rule ccontr)
    assume "\<not> n < 3"
    then have "(2 :: nat) ^ 3 \<le> 2 ^ n" by (intro power_increasing) auto
    then show False using bit_le_unat [OF that] assms by (simp add: word_less_nat_alt)
  qed
  moreover have "\<not> bit offset (16 + n)" using bit_imp_le_length [of offset "16 + n"] by auto
  ultimately show "bit (ucast (drop_bit 13 (push_bit 13 (ucast flags) OR drop_bit 3 offset :: u16)) :: u8) n = bit flags n"
    using \<open>n < LENGTH(8)\<close>
    by (auto simp: bit_ucast_iff bit_drop_bit_eq bit_or_iff bit_push_bit_iff possible_bit_def)
qed

lemma offset_roundtrip:
  assumes "unat offset mod 8 = 0"
  shows "push_bit 3 (push_bit 13 (ucast (flags :: u8)) OR drop_bit 3 offset :: u16) = offset"
proof (rule bit_word_eqI)
  fix n assume n: "n < LENGTH(16)"
  have "\<not> bit offset n" if "n < 3"
  proof -
    have "take_bit 3 (unat offset) = 0" using assms by (simp add: take_bit_eq_mod)
    then have "\<not> bit (unat offset) n" using that by (metis bit_take_bit_iff bit_0_eq bot_apply bot_bool_def)
    then show ?thesis using n by (simp add: bit_unsigned_iff)
  qed
  then show "bit (push_bit 3 (push_bit 13 (ucast flags) OR drop_bit 3 offset :: u16)) n = bit offset n"
    using n by (cases "n < 3")
      (auto simp: bit_drop_bit_eq bit_or_iff bit_push_bit_iff possible_bit_def not_less dest!: le_Suc_ex)
qed

lemma version_byte:
  assumes "unat h \<le> 60"
  shows "unat (0x40 OR ((h div 4) AND 0x0f) :: u8) = 64 + unat h div 4"
proof -
  let ?k = "(h div 4) AND 0x0f :: u8"
  have k: "unat ?k = unat h div 4"
    using assms by (simp add: unat_and_0f unat_div_distrib)
  have "0x40 AND ?k = 0" by (simp add: and.left_commute [of 64])
  then have "0x40 OR ?k = 0x40 + ?k" by (rule disjunctive_add_eq_or [symmetric])
  moreover have "unat (0x40 + ?k) = 64 + unat h div 4"
    using assms k by (subst unat_plus_small) simp_all
  ultimately show ?thesis by simp
qed

text \<open>The bytes \<open>Encode\<close> writes over the first twenty bytes of the buffer.\<close>

definition encoded4 :: "IPv4Fields \<Rightarrow> u8 \<Rightarrow> bytes \<Rightarrow> bytes" where
  "encoded4 i hdrLen b = put_slice 16 (Addr_AsSlice (f4_DstAddr i)) (put_slice 12 (Addr_AsSlice (f4_SrcAddr i))
     (b[0 := 0x40 OR ((hdrLen div 4) AND 0x0f), 1 := f4_TOS i,
        2 := hi8 (f4_TotalLength i), 3 := lo8 (f4_TotalLength i),
        4 := hi8 (f4_ID i), 5 := lo8 (f4_ID i),
        6 := hi8 (push_bit 13 (ucast (f4_Flags i)) OR drop_bit 3 (f4_FragmentOffset i)),
        7 := lo8 (push_bit 13 (ucast (f4_Flags i)) OR drop_bit 3 (f4_FragmentOffset i)),
        8 := f4_TTL i, 9 := f4_Protocol i,
        10 := hi8 (f4_Checksum i), 11 := lo8 (f4_Checksum i)]))"

lemma IPv4_Encode_eq:
  fixes i :: IPv4Fields
  defines "opts \<equiv> concat (map serialized (f4_Options i))"
  defines "n \<equiv> padded4 (length opts)"
  assumes "length opts \<le> 40" and "20 + n \<le> length b"
    and "f4_SrcAddr i = Addr4 s" "length s = 4" and "f4_DstAddr i = Addr4 d" "length d = 4"
  shows "IPv4_Encode b i = Some (encoded4 i (word_of_nat (20 + n))
           (take 20 b @ opts @ replicate (n - length opts) 0 @ drop (20 + n) b))"
proof -
  let ?b1 = "take 20 b @ opts @ replicate (n - length opts) 0 @ drop (20 + n) b"
  note p = padded4_bounds [of "length opts", folded n_def]
  have "n \<le> 40" using p assms(3) by (auto simp: mod_eq_0_iff_dvd elim!: dvdE)
  then have h: "unat (word_of_nat (20 + n) :: u8) = 20 + n" by (intro unat_of_nat_u8) simp
  have "opts = [] \<and> n = 0" if "f4_Options i = []"
    using that by (simp add: opts_def n_def padded4_def)
  moreover have "Serialize (f4_Options i) (drop 20 b) = Some (opts @ replicate (n - length opts) 0 @ drop n (drop 20 b), word_of_nat n)"
    using Serialize_eq [of "f4_Options i" "drop 20 b"] assms(3,4) unat_eqD [of "Serializer_Length (f4_Options i)" n]
    by (simp add: opts_def n_def del: length_concat)
  ultimately have stage: "(if f4_Options i \<noteq> [] then do {
         tail \<leftarrow> slice_from b 20;
         (tail, n) \<leftarrow> Serialize (f4_Options i) tail;
         Some (take 20 b @ tail, 20 + n) }
       else Some (b, 20)) = Some (?b1, word_of_nat (20 + n) :: u8)"
    using assms(4) by (auto simp: go_simps add.commute)
  have len: "length ?b1 = length b" using p(1) assms(4) by simp
  have "\<not> (word_of_nat (20 + n) :: u8) > 60" using h \<open>n \<le> 40\<close> by (simp only: word_less_nat_alt) simp
  moreover define c where "c = ?b1"
  moreover have "c \<noteq> []" "20 \<le> length c" using len assms(4) by (auto simp: c_def)
  ultimately show ?thesis
    unfolding IPv4_Encode_def stage c_def [symmetric]
    using \<open>c \<noteq> []\<close> \<open>20 \<le> length c\<close> assms(5-) by (simp add: IPv4_SetHeaderLength_def IPv4_SetTotalLength_def
        IPv4_SetFlagsFragmentOffset_def IPv4_SetChecksum_def go_simps encoded4_def del: of_nat_add)
qed

lemma encoded4_bytes:
  assumes "20 \<le> length c" and "f4_SrcAddr i = Addr4 s" "length s = 4" and "f4_DstAddr i = Addr4 d" "length d = 4"
  shows "length (encoded4 i h c) = length c" and "drop 20 (encoded4 i h c) = drop 20 c"
    and "take 4 (drop 12 (encoded4 i h c)) = s" and "take 4 (drop 16 (encoded4 i h c)) = d"
    and "encoded4 i h c ! 0 = 0x40 OR ((h div 4) AND 0x0f)"
    "encoded4 i h c ! 1 = f4_TOS i"
    "encoded4 i h c ! 2 = hi8 (f4_TotalLength i)"
    "encoded4 i h c ! 3 = lo8 (f4_TotalLength i)"
    "encoded4 i h c ! 4 = hi8 (f4_ID i)"
    "encoded4 i h c ! 5 = lo8 (f4_ID i)"
    "encoded4 i h c ! 6 = hi8 (push_bit 13 (ucast (f4_Flags i)) OR drop_bit 3 (f4_FragmentOffset i))"
    "encoded4 i h c ! 7 = lo8 (push_bit 13 (ucast (f4_Flags i)) OR drop_bit 3 (f4_FragmentOffset i))"
    "encoded4 i h c ! 8 = f4_TTL i"
    "encoded4 i h c ! 9 = f4_Protocol i"
    "encoded4 i h c ! 10 = hi8 (f4_Checksum i)"
    "encoded4 i h c ! 11 = lo8 (f4_Checksum i)"
proof -
  show len: "length (encoded4 i h c) = length c"
    using assms by (simp add: encoded4_def)
  show "drop 20 (encoded4 i h c) = drop 20 c"
    using assms by (simp add: encoded4_def drop_put_slice)
  show "take 4 (drop 16 (encoded4 i h c)) = d"
    using assms by (simp add: encoded4_def)
  show "take 4 (drop 12 (encoded4 i h c)) = s"
    using assms by (intro nth_equalityI) (auto simp: encoded4_def nth_put_slice)
  have "c \<noteq> []" using assms(1) by auto
  then show "encoded4 i h c ! 0 = 0x40 OR ((h div 4) AND 0x0f)"
    "encoded4 i h c ! 1 = f4_TOS i"
    "encoded4 i h c ! 2 = hi8 (f4_TotalLength i)"
    "encoded4 i h c ! 3 = lo8 (f4_TotalLength i)"
    "encoded4 i h c ! 4 = hi8 (f4_ID i)"
    "encoded4 i h c ! 5 = lo8 (f4_ID i)"
    "encoded4 i h c ! 6 = hi8 (push_bit 13 (ucast (f4_Flags i)) OR drop_bit 3 (f4_FragmentOffset i))"
    "encoded4 i h c ! 7 = lo8 (push_bit 13 (ucast (f4_Flags i)) OR drop_bit 3 (f4_FragmentOffset i))"
    "encoded4 i h c ! 8 = f4_TTL i"
    "encoded4 i h c ! 9 = f4_Protocol i"
    "encoded4 i h c ! 10 = hi8 (f4_Checksum i)"
    "encoded4 i h c ! 11 = lo8 (f4_Checksum i)"
    using assms by (simp_all add: encoded4_def nth_put_slice)
qed

text \<open>
  C22. \<open>Encode\<close> and the getters are inverse: into any buffer with room for the header it writes the
  fields and the options, every getter returns the field that was given (the flags fit three bits
  and the fragment offset is a multiple of eight), \<open>Options\<close> returns the bytes of the options in their order with zeros up to
  the next multiple of four, and the bytes after the header stay the same.
\<close>

theorem IPv4_Encode_roundtrip:
  assumes "length (concat (map serialized (f4_Options i))) \<le> 40"
    and "20 + unat (Serializer_Length (f4_Options i)) \<le> length b"
    and "f4_SrcAddr i = Addr4 s" "length s = 4" and "f4_DstAddr i = Addr4 d" "length d = 4"
    and "f4_Flags i < 8" and "unat (f4_FragmentOffset i) mod 8 = 0"
  shows "returns (IPv4_Encode b i) (\<lambda>b'. length b' = length b \<and> IPVersion b' = 4 \<and>
    IPv4_HeaderLength b' = Some (20 + Serializer_Length (f4_Options i)) \<and>
    IPv4_TOS b' = Some (f4_TOS i, 0) \<and> IPv4_TotalLength b' = Some (f4_TotalLength i) \<and>
    IPv4_ID b' = Some (f4_ID i) \<and> IPv4_Flags b' = Some (f4_Flags i) \<and>
    IPv4_FragmentOffset b' = Some (f4_FragmentOffset i) \<and> IPv4_TTL b' = Some (f4_TTL i) \<and>
    IPv4_Protocol b' = Some (f4_Protocol i) \<and> IPv4_Checksum b' = Some (f4_Checksum i) \<and>
    IPv4_SourceAddr b' = Some (f4_SrcAddr i) \<and> IPv4_DestinationAddr b' = Some (f4_DstAddr i) \<and>
    IPv4_Options b' = Some (concat (map serialized (f4_Options i)) @
      replicate (unat (Serializer_Length (f4_Options i)) - length (concat (map serialized (f4_Options i)))) 0) \<and>
    drop (20 + unat (Serializer_Length (f4_Options i))) b' =
    drop (20 + unat (Serializer_Length (f4_Options i))) b)"
proof -
  let ?opts = "concat (map serialized (f4_Options i))"
  let ?n = "padded4 (length ?opts)"
  note p = padded4_bounds [of "length ?opts"]
  have L: "unat (Serializer_Length (f4_Options i)) = ?n"
    using Serialize_eq [of "f4_Options i" "replicate ?n 0"] assms(1) by simp
  have n40: "?n \<le> 40" using p assms(1) by (auto simp: mod_eq_0_iff_dvd simp del: length_concat elim!: dvdE)
  let ?h = "word_of_nat (20 + ?n) :: u8"
  have h: "unat ?h = 20 + ?n" using n40 by (intro unat_of_nat_u8) simp
  define c where "c = take 20 b @ ?opts @ replicate (?n - length ?opts) 0 @ drop (20 + ?n) b"
  have c: "length c = length b" "20 \<le> length c" using p(1) assms(2) L by (simp_all add: c_def del: length_concat)
  define e where "e = encoded4 i ?h c"
  note e = encoded4_bytes [OF c(2) assms(3-6), of ?h, folded e_def]
  have enc: "IPv4_Encode b i = Some e"
    using IPv4_Encode_eq [of i b s d] assms(1-6) L by (simp add: e_def c_def del: length_concat of_nat_add)
  note nth = e(5-)
  have len: "length e = length b" "20 \<le> length e" "e \<noteq> []" using e(1) c by auto
  have v: "unat (e ! 0) = 64 + (20 + ?n) div 4"
    unfolding nth(1) by (subst version_byte) (use h n40 in simp_all)
  have q: "(20 + ?n) div 4 * 4 = 20 + ?n" "(20 + ?n) div 4 < 16"
    using p(3) n40 by (auto simp: mod_eq_0_iff_dvd)
  have "hlen4 e = 20 + ?n" unfolding hlen4_def v using q by (simp add: mod_add_left_eq [symmetric])
  then have hl: "IPv4_HeaderLength e = Some (20 + Serializer_Length (f4_Options i))"
    using IPv4_HeaderLength_eq [OF len(3)] unat_eqD [OF L] by simp
  have "IPv4_Options e = Some (?opts @ replicate (?n - length ?opts) 0)"
  proof -
    have "take ?n (drop 20 e) = ?opts @ replicate (?n - length ?opts) 0"
      unfolding e(2) using p(1) assms(2) L by (simp add: c_def del: length_concat)
    then show ?thesis using hl L h len(1) assms(2) n40 unat_eqD [OF L]
      by (simp add: IPv4_Options_def slice_def unat_of_nat_u8 del: length_concat)
  qed
  moreover note hl
  moreover have "IPVersion e = 4" using IPVersion_eq [OF len(3)] v q(2) by simp
  moreover have "drop (20 + ?n) e = drop (20 + ?n) b"
  proof -
    have "drop (20 + ?n) e = drop ?n (drop 20 c)" using e(2) by (metis add.commute drop_drop)
    then show ?thesis using p(1) assms(2) L by (simp add: c_def del: length_concat)
  qed
  ultimately show ?thesis
    unfolding enc returns_Some L using len nth e(3,4) assms(3-) flags_roundtrip offset_roundtrip
    by (simp add: IPv4_TOS_def IPv4_TotalLength_def IPv4_ID_def IPv4_Flags_def IPv4_FragmentOffset_def IPv4_TTL_def
        IPv4_Protocol_def IPv4_Checksum_def IPv4_SourceAddr_def IPv4_DestinationAddr_def go_simps)
qed

theorem IPv4_Encode_roundtrip_witness:
  "returns (IPv4_Encode (replicate 28 0) \<lparr>f4_TOS = 0, f4_TotalLength = 28, f4_ID = 7, f4_Flags = 2,
      f4_FragmentOffset = 8, f4_TTL = 64, f4_Protocol = 17, f4_Checksum = 0, f4_SrcAddr = Addr4 [10, 0, 0, 1],
      f4_DstAddr = Addr4 [10, 0, 0, 2], f4_Options = [IPv4SerializableRouterAlertOption]\<rparr>)
    (\<lambda>b'. IPv4_HeaderLength b' = Some 24 \<and> IPv4_Flags b' = Some 2 \<and> IPv4_FragmentOffset b' = Some 8 \<and>
      IPv4_Options b' = Some [148, 4, 0, 0])"
proof -
  let ?i = "\<lparr>f4_TOS = 0, f4_TotalLength = 28, f4_ID = 7, f4_Flags = 2, f4_FragmentOffset = 8, f4_TTL = 64,
      f4_Protocol = 17, f4_Checksum = 0, f4_SrcAddr = Addr4 [10, 0, 0, 1], f4_DstAddr = Addr4 [10, 0, 0, 2],
      f4_Options = [IPv4SerializableRouterAlertOption]\<rparr>"
  have L: "Serializer_Length [IPv4SerializableRouterAlertOption] = 4"
    by (simp add: Serializer_Length_def padIPv4OptionsLength_def payload_length_def)
  show ?thesis
    by (rule returns_mono [OF IPv4_Encode_roundtrip [of ?i "replicate 28 0" "[10, 0, 0, 1]" "[10, 0, 0, 2]"]])
      (simp_all add: L serialized_def)
qed

end
