(* ===== verification/Transport_Interface.thy ===== *)
theory Transport_Interface
  imports Header_Checksum
begin

text \<open>
  What the TCP and UDP headers promise to code that rewrites packets, the Go interface
  \<^verbatim>\<open>ChecksummableTransport\<close> of \<^verbatim>\<open>internal/gtcpip/header/interfaces.go\<close>: the ports can be replaced and
  the addresses of the pseudo-header exchanged while the checksum is kept right. A segment
  \<^emph>\<open>verifies\<close> against the sum \<open>n\<close> of its pseudo-header when the two sums together are a
  multiple of 65535. From the contract the locale proves that a whole address translation, of
  address and port, keeps a segment good; \<open>Header_TCP\<close> and \<open>Header_UDP\<close> are its instances.
\<close>

definition verifies :: "nat \<Rightarrow> bytes \<Rightarrow> bool" where
  "verifies n b \<longleftrightarrow> 65535 dvd n + sum16 b"

definition addr_sum :: "Address \<Rightarrow> nat" where
  "addr_sum a = sum16 (take (a_length a) (a_addr a))"

lemma fold16_pos [simp]: "0 < fold16 n \<longleftrightarrow> 0 < n"
  by (metis fold16_eq_0 not_gr_zero)

text \<open>The check of a header whose initial value holds the pseudo-header and the payload.\<close>

lemma rfc1071_verifies:
  assumes "even k" and "k \<le> length b" and "0 < n" and i: "unat i = fold16 (n + sum16 (drop k b))"
  shows "rfc1071 (take k b) i = 0xffff \<longleftrightarrow> verifies n b"
proof -
  have "sum16 b = sum16 (take k b) + sum16 (drop k b)" using assms(1,2) by (rule sum16_take_drop)
  then have "cong16 (unat i + sum16 (take k b)) (n + sum16 b)"
    using cong16_add [OF cong16_fold16 cong16_refl, of "n + sum16 (drop k b)" "sum16 (take k b)"] i
    by (simp add: ac_simps)
  moreover have "0 < unat i" using i assms(3) by simp
  ultimately show ?thesis
    by (simp add: rfc1071_valid_iff verifies_def cong16_def dvd_eq_mod_eq_0)
qed

lemma verifies_cong:
  assumes "cong16 (m + sum16 b) (n + sum16 c)"
  shows "verifies m b \<longleftrightarrow> verifies n c"
  using assms by (simp add: verifies_def cong16_def flip: mod_eq_0_iff_dvd)

section \<open>Rewriting sixteen-bit fields\<close>

lemma length_put16 [simp]: "length (b[k := x, Suc k := y]) = length b"
  by simp

lemma nth_put16:
  assumes "k + 2 \<le> length b"
  shows "b[k := hi8 v, k + 1 := lo8 v] ! k = hi8 v" "b[k := hi8 v, k + 1 := lo8 v] ! (k + 1) = lo8 v"
    "i \<noteq> k \<Longrightarrow> i \<noteq> k + 1 \<Longrightarrow> b[k := hi8 v, k + 1 := lo8 v] ! i = b ! i"
  using assms by simp_all

text \<open>A field at \<open>j\<close> is replaced and the checksum at \<open>k\<close> adjusted by the same amount.\<close>

lemma rewrite_field:
  assumes "even j" "even k" and "j + 2 \<le> length b" "k + 2 \<le> length b" and "j + 2 \<le> k \<or> k + 2 \<le> j"
    and "cong16 (unat x + unat v) (unat (be16 (b ! k) (b ! (k + 1))) + unat (be16 (b ! j) (b ! (j + 1))))"
  shows "cong16 (sum16 (b[j := hi8 v, j + 1 := lo8 v, k := hi8 x, k + 1 := lo8 x])) (sum16 b)"
proof -
  let ?b = "b[j := hi8 v, j + 1 := lo8 v]"
  let ?ok = "unat (be16 (b ! k) (b ! (k + 1)))" and ?oj = "unat (be16 (b ! j) (b ! (j + 1)))"
  have "?b ! k = b ! k" "?b ! (k + 1) = b ! (k + 1)" using assms(5) by auto
  then have "sum16 (?b[k := hi8 x, k + 1 := lo8 x]) + ?ok = sum16 ?b + unat x"
    using sum16_put16 [of k ?b x] assms(2,4) by simp
  moreover have "sum16 ?b + ?oj = sum16 b + unat v"
    using sum16_put16 [of j b v] assms(1,3) by simp
  ultimately have "sum16 (?b[k := hi8 x, k + 1 := lo8 x]) + (?ok + ?oj) = sum16 b + (unat x + unat v)"
    by linarith
  also have "cong16 \<dots> (sum16 b + (?ok + ?oj))"
    by (rule cong16_add [OF cong16_refl assms(6)])
  finally show ?thesis by (simp only: cong16_cancel)
qed

lemma replace_xsum:
  assumes "even k" and "k + 2 \<le> length b"
    and "cong16 (unat x + m) (unat (be16 (b ! k) (b ! (k + 1))) + n)"
  shows "cong16 (m + sum16 (b[k := hi8 x, k + 1 := lo8 x])) (n + sum16 b)"
proof -
  let ?o = "unat (be16 (b ! k) (b ! (k + 1)))"
  have "m + sum16 (b[k := hi8 x, k + 1 := lo8 x]) + ?o = sum16 b + (unat x + m)"
    using sum16_put16 [OF assms(1,2), of x] by linarith
  also have "cong16 \<dots> (sum16 b + (?o + n))"
    by (rule cong16_add [OF cong16_refl assms(3)])
  also have "sum16 b + (?o + n) = n + sum16 b + ?o" by simp
  finally show ?thesis by (simp only: cong16_cancel)
qed

text \<open>Storing the complement of the sum of everything but the checksum field.\<close>

lemma fresh_xsum:
  assumes "even k" and "k + 2 \<le> length b"
    and "cong16 (unat c) (n + sum16 (take k b) + sum16 (drop (k + 2) b))"
  shows "verifies n (b[k := hi8 (NOT c), k + 1 := lo8 (NOT c)])"
proof -
  let ?r = "n + sum16 (take k b) + sum16 (drop (k + 2) b)"
  have s: "n + sum16 (b[k := hi8 (NOT c), k + 1 := lo8 (NOT c)]) = ?r + unat (NOT c)"
    using sum16_put16 [OF assms(1,2), of "NOT c"] sum16_field [OF assms(1,2)] by linarith
  have "cong16 (?r + unat (NOT c)) (unat c + unat (NOT c))"
    by (rule cong16_add [OF cong16_sym [OF assms(3)] cong16_refl])
  then have "(?r + unat (NOT c)) mod 65535 = 0"
    unfolding NOT16_plus by (simp add: cong16_def)
  then show ?thesis unfolding verifies_def s by (simp add: mod_eq_0_iff_dvd)
qed

section \<open>The interface\<close>

locale checksummable_transport =
  fixes wf :: "bytes \<Rightarrow> bool"
    and good :: "nat \<Rightarrow> bytes \<Rightarrow> bool"
    and SourcePort DestinationPort :: "bytes \<Rightarrow> u16 option"
    and SetSource SetDestination :: "bytes \<Rightarrow> u16 \<Rightarrow> bytes option"
    and UpdateAddress :: "bytes \<Rightarrow> Address \<Rightarrow> Address \<Rightarrow> bool \<Rightarrow> bytes option"
  assumes SetSource_good: "wf b \<Longrightarrow> good n b \<Longrightarrow> returns (SetSource b p) (\<lambda>b'.
      wf b' \<and> good n b' \<and> SourcePort b' = Some p \<and> DestinationPort b' = DestinationPort b)"
    and SetDestination_good: "wf b \<Longrightarrow> good n b \<Longrightarrow> returns (SetDestination b p) (\<lambda>b'.
      wf b' \<and> good n b' \<and> DestinationPort b' = Some p \<and> SourcePort b' = SourcePort b)"
    and UpdateAddress_good: "wf b \<Longrightarrow> good (n + addr_sum old) b \<Longrightarrow>
      wf_Address old \<Longrightarrow> wf_Address new \<Longrightarrow> a_length old = a_length new \<Longrightarrow>
      returns (UpdateAddress b old new True) (\<lambda>b'. wf b' \<and> good (n + addr_sum new) b' \<and>
        SourcePort b' = SourcePort b \<and> DestinationPort b' = DestinationPort b)"
begin

text \<open>Source and destination translation of a segment.\<close>

lemma translate_source:
  assumes "wf b" and "good (n + addr_sum old) b"
    and "wf_Address old" and "wf_Address new" and "a_length old = a_length new"
  shows "returns (do { b \<leftarrow> UpdateAddress b old new True; SetSource b p }) (\<lambda>b'.
    wf b' \<and> good (n + addr_sum new) b' \<and> SourcePort b' = Some p \<and> DestinationPort b' = DestinationPort b)"
  unfolding returns_bind
  by (rule returns_mono [OF UpdateAddress_good [OF assms]]) (auto elim!: returns_mono [OF SetSource_good])

lemma translate_destination:
  assumes "wf b" and "good (n + addr_sum old) b"
    and "wf_Address old" and "wf_Address new" and "a_length old = a_length new"
  shows "returns (do { b \<leftarrow> UpdateAddress b old new True; SetDestination b p }) (\<lambda>b'.
    wf b' \<and> good (n + addr_sum new) b' \<and> DestinationPort b' = Some p \<and> SourcePort b' = SourcePort b)"
  unfolding returns_bind
  by (rule returns_mono [OF UpdateAddress_good [OF assms]]) (auto elim!: returns_mono [OF SetDestination_good])

end

end
