(* ===== verification/Header_UDP.thy ===== *)
theory Header_UDP
  imports Transport_Interface
begin

text \<open>
  \<^verbatim>\<open>internal/gtcpip/header/udp.go\<close>: the UDP header stored in a byte slice. The lemmas say that a
  computed checksum verifies, that the incremental updates keep it right (and never turn it into
  zero, which would mean that there is none), and what \<open>UDPValid\<close> accepts.
\<close>

abbreviation (input) udpSrcPort :: nat where "udpSrcPort \<equiv> 0"
abbreviation (input) udpDstPort :: nat where "udpDstPort \<equiv> 2"
abbreviation (input) udpLength :: nat where "udpLength \<equiv> 4"
abbreviation (input) udpChecksum :: nat where "udpChecksum \<equiv> 6"
abbreviation (input) UDPMinimumSize :: nat where "UDPMinimumSize \<equiv> 8"
abbreviation (input) UDPProtocolNumber :: u32 where "UDPProtocolNumber \<equiv> 17"
abbreviation (input) IPv4ProtocolNumber :: u32 where "IPv4ProtocolNumber \<equiv> 0x0800"

type_synonym UDP = bytes

record UDPFields =
  fu_SrcPort :: u16
  fu_DstPort :: u16
  fu_Length :: u16
  fu_Checksum :: u16

definition UDP_SourcePort :: "UDP \<Rightarrow> u16 option" where
  "UDP_SourcePort b = BE_Uint16 b udpSrcPort"

definition UDP_DestinationPort :: "UDP \<Rightarrow> u16 option" where
  "UDP_DestinationPort b = BE_Uint16 b udpDstPort"

definition UDP_Length :: "UDP \<Rightarrow> u16 option" where
  "UDP_Length b = BE_Uint16 b udpLength"

definition UDP_Payload :: "UDP \<Rightarrow> bytes option" where
  "UDP_Payload b = slice_from b UDPMinimumSize"

definition UDP_Checksum :: "UDP \<Rightarrow> u16 option" where
  "UDP_Checksum b = BE_Uint16 b udpChecksum"

definition UDP_SetSourcePort :: "UDP \<Rightarrow> u16 \<Rightarrow> UDP option" where
  "UDP_SetSourcePort b port = BE_PutUint16 b udpSrcPort port"

definition UDP_SetDestinationPort :: "UDP \<Rightarrow> u16 \<Rightarrow> UDP option" where
  "UDP_SetDestinationPort b port = BE_PutUint16 b udpDstPort port"

definition UDP_SetChecksum :: "UDP \<Rightarrow> u16 \<Rightarrow> UDP option" where
  "UDP_SetChecksum b xsum = BE_PutUint16 b udpChecksum xsum"

definition UDP_SetLength :: "UDP \<Rightarrow> u16 \<Rightarrow> UDP option" where
  "UDP_SetLength b len = BE_PutUint16 b udpLength len"

definition UDP_CalculateChecksum :: "UDP \<Rightarrow> u16 \<Rightarrow> u16 option" where
  "UDP_CalculateChecksum b partialChecksum = do {
     s \<leftarrow> slice b 0 udpChecksum;
     xsum \<leftarrow> Checksum s partialChecksum;
     s \<leftarrow> slice b (udpChecksum + 2) UDPMinimumSize;
     Checksum s xsum }"

definition UDP_IsChecksumValid :: "UDP \<Rightarrow> Address \<Rightarrow> Address \<Rightarrow> u16 \<Rightarrow> bool option" where
  "UDP_IsChecksumValid b src dst payloadChecksum = do {
     d \<leftarrow> AsSlice dst;
     s \<leftarrow> AsSlice src;
     l \<leftarrow> UDP_Length b;
     xsum \<leftarrow> PseudoHeaderChecksum UDPProtocolNumber d s l;
     let xsum = Combine xsum payloadChecksum;
     h \<leftarrow> slice b 0 UDPMinimumSize;
     x \<leftarrow> Checksum h xsum;
     Some (x = 0xffff) }"

definition UDP_Encode :: "UDP \<Rightarrow> UDPFields \<Rightarrow> UDP option" where
  "UDP_Encode b u = do {
     b \<leftarrow> UDP_SetSourcePort b (fu_SrcPort u);
     b \<leftarrow> UDP_SetDestinationPort b (fu_DstPort u);
     b \<leftarrow> UDP_SetLength b (fu_Length u);
     UDP_SetChecksum b (fu_Checksum u) }"

definition NormalizeUDPChecksum :: "u16 \<Rightarrow> u16" where
  "NormalizeUDPChecksum xsum = (if xsum = 0 then 0xffff else xsum)"

definition UDP_SetSourcePortWithChecksumUpdate :: "UDP \<Rightarrow> u16 \<Rightarrow> UDP option" where
  "UDP_SetSourcePortWithChecksumUpdate b new = do {
     old \<leftarrow> UDP_SourcePort b;
     b \<leftarrow> UDP_SetSourcePort b new;
     c \<leftarrow> UDP_Checksum b;
     if c = 0 then Some b
     else UDP_SetChecksum b (NormalizeUDPChecksum (NOT (checksumUpdate2ByteAlignedUint16 (NOT c) old new))) }"

definition UDP_SetDestinationPortWithChecksumUpdate :: "UDP \<Rightarrow> u16 \<Rightarrow> UDP option" where
  "UDP_SetDestinationPortWithChecksumUpdate b new = do {
     old \<leftarrow> UDP_DestinationPort b;
     b \<leftarrow> UDP_SetDestinationPort b new;
     c \<leftarrow> UDP_Checksum b;
     if c = 0 then Some b
     else UDP_SetChecksum b (NormalizeUDPChecksum (NOT (checksumUpdate2ByteAlignedUint16 (NOT c) old new))) }"

definition UDP_UpdateChecksumPseudoHeaderAddress :: "UDP \<Rightarrow> Address \<Rightarrow> Address \<Rightarrow> bool \<Rightarrow> UDP option" where
  "UDP_UpdateChecksumPseudoHeaderAddress b old new fullChecksum = do {
     xsum \<leftarrow> UDP_Checksum b;
     if fullChecksum \<and> xsum = 0 then Some b
     else do {
       let xsum = (if fullChecksum then NOT xsum else xsum);
       xsum \<leftarrow> checksumUpdate2ByteAlignedAddress xsum old new;
       let xsum = (if fullChecksum then NormalizeUDPChecksum (NOT xsum) else xsum);
       UDP_SetChecksum b xsum } }"

text \<open>The checksum of the payload is a function the caller passes; it is called only when needed.\<close>

definition UDPValid ::
    "UDP \<Rightarrow> u16 option \<Rightarrow> u16 \<Rightarrow> u32 \<Rightarrow> Address \<Rightarrow> Address \<Rightarrow> bool \<Rightarrow> (bool \<times> bool) option" where
  "UDPValid hdr payloadChecksum payloadSize netProto srcAddr dstAddr skipChecksumValidation = do {
     len \<leftarrow> UDP_Length hdr;
     if len > payloadSize + 8 \<or> len < 8 then Some (False, False)
     else do {
       c \<leftarrow> UDP_Checksum hdr;
       if c = 0 then Some (True, netProto = IPv4ProtocolNumber)
       else if skipChecksumValidation then Some (True, True)
       else do {
         p \<leftarrow> payloadChecksum;
         v \<leftarrow> UDP_IsChecksumValid hdr srcAddr dstAddr p;
         Some (True, v) } } }"

section \<open>Fields\<close>

lemmas udp_fields = UDP_SourcePort_def UDP_DestinationPort_def UDP_Length_def UDP_Checksum_def UDP_Payload_def
  UDP_SetSourcePort_def UDP_SetDestinationPort_def UDP_SetLength_def UDP_SetChecksum_def

lemma UDP_Encode_fields:
  assumes "8 \<le> length b"
  shows "returns (UDP_Encode b u) (\<lambda>b'.
     length b' = length b \<and> UDP_SourcePort b' = Some (fu_SrcPort u) \<and> UDP_DestinationPort b' = Some (fu_DstPort u) \<and>
     UDP_Length b' = Some (fu_Length u) \<and> UDP_Checksum b' = Some (fu_Checksum u) \<and> UDP_Payload b' = UDP_Payload b)"
proof -
  have "b \<noteq> []" using assms by auto
  then show ?thesis using assms by (simp add: UDP_Encode_def udp_fields go_simps)
qed

section \<open>The checksum\<close>

lemma UDP_CalculateChecksum_eq:
  "8 \<le> length b \<Longrightarrow> UDP_CalculateChecksum b p = Some (rfc1071 (take 6 b) p)"
  by (simp add: UDP_CalculateChecksum_def go_simps word_unat_eq_iff)

lemma UDP_IsChecksumValid_eq:
  assumes "8 \<le> length b" and "wf_Address src" and "wf_Address dst"
  shows "UDP_IsChecksumValid b src dst (rfc1071 (drop 8 b) 0) =
    Some (verifies (addr_sum src + addr_sum dst + unat (be16 (b ! 4) (b ! 5)) + 17) b)"
proof -
  let ?n = "addr_sum src + addr_sum dst + unat (be16 (b ! 4) (b ! 5)) + 17"
  let ?i = "Combine (word_of_nat (fold16 ?n)) (rfc1071 (drop 8 b) 0)"
  have i: "unat ?i = fold16 (?n + sum16 (drop 8 b))"
    by (simp add: unat_Combine unat_of_nat_u16)
  have "rfc1071 (take 8 b) ?i = 0xffff \<longleftrightarrow> verifies ?n b"
    by (rule rfc1071_verifies [OF _ assms(1) _ i]) simp_all
  moreover have "PseudoHeaderChecksum 17 (take (a_length dst) (a_addr dst)) (take (a_length src) (a_addr src))
      (be16 (b ! 4) (b ! 5)) = Some (word_of_nat (fold16 ?n))"
    by (simp add: PseudoHeaderChecksum_Some addr_sum_def add.commute [of "sum16 (take (a_length dst) (a_addr dst))"])
  moreover have "UDP_Length b = Some (be16 (b ! 4) (b ! 5))"
    using assms(1) by (simp add: UDP_Length_def go_simps)
  ultimately show ?thesis
    using assms by (simp add: UDP_IsChecksumValid_def AsSlice_wf slice_in del: unat_be16)
qed

section \<open>Incremental updates\<close>

lemma NormalizeUDPChecksum: "NormalizeUDPChecksum x \<noteq> 0" "cong16 (unat (NormalizeUDPChecksum x)) (unat x)"
  by (simp_all add: NormalizeUDPChecksum_def cong16_def)

text \<open>A datagram is good when it has no checksum or one that verifies.\<close>

definition udp_good :: "nat \<Rightarrow> UDP \<Rightarrow> bool" where
  "udp_good n b \<longleftrightarrow> be16 (b ! 6) (b ! 7) = 0 \<or> verifies n b"

lemma udp_port_update:
  fixes v :: u16
  assumes "8 \<le> length b" and "j = 0 \<or> j = 2"
  defines "c \<equiv> be16 (b ! 6) (b ! 7)" and "old \<equiv> be16 (b ! j) (b ! (j + 1))"
  defines "x \<equiv> NormalizeUDPChecksum (NOT (checksumUpdate2ByteAlignedUint16 (NOT c) old v))"
  shows "verifies n (b[j := hi8 v, j + 1 := lo8 v, 6 := hi8 x, 7 := lo8 x]) \<longleftrightarrow> verifies n b"
proof -
  have "cong16 (unat x + unat v) (unat c + unat old)"
    unfolding x_def by (rule cong16_trans [OF cong16_add [OF NormalizeUDPChecksum(2) cong16_refl] update16_complement])
  then have "cong16 (sum16 (b[j := hi8 v, j + 1 := lo8 v, 6 := hi8 x, 6 + 1 := lo8 x])) (sum16 b)"
    using assms(1,2) unfolding c_def old_def by (intro rewrite_field) auto
  then show ?thesis
    by (intro verifies_cong cong16_add cong16_refl) simp
qed

text \<open>A datagram with length field \<open>l\<close> and payload \<open>d\<close>, without (\<open>z\<close>) or with a checksum.\<close>

definition udp_datagram :: "bool \<Rightarrow> u16 \<Rightarrow> bytes \<Rightarrow> UDP \<Rightarrow> bool" where
  "udp_datagram z l d b \<longleftrightarrow> 8 \<le> length b \<and> be16 (b ! 4) (b ! 5) = l \<and> drop 8 b = d \<and> z = (be16 (b ! 6) (b ! 7) = 0)"

interpretation udp: checksummable_transport "udp_datagram z l d" udp_good UDP_SourcePort UDP_DestinationPort
    UDP_SetSourcePortWithChecksumUpdate UDP_SetDestinationPortWithChecksumUpdate UDP_UpdateChecksumPseudoHeaderAddress
  for z l d
proof unfold_locales
  fix b p n
  assume b: "udp_datagram z l d b" and g: "udp_good n b"
  have ne: "b \<noteq> []" using b by (auto simp: udp_datagram_def)
  show "returns (UDP_SetSourcePortWithChecksumUpdate b p) (\<lambda>b'. udp_datagram z l d b' \<and> udp_good n b' \<and>
      UDP_SourcePort b' = Some p \<and> UDP_DestinationPort b' = UDP_DestinationPort b)"
    using b ne g udp_port_update [of b 0 n p]
    by (auto simp: UDP_SetSourcePortWithChecksumUpdate_def udp_fields go_simps udp_good_def udp_datagram_def NormalizeUDPChecksum(1))
  show "returns (UDP_SetDestinationPortWithChecksumUpdate b p) (\<lambda>b'. udp_datagram z l d b' \<and> udp_good n b' \<and>
      UDP_DestinationPort b' = Some p \<and> UDP_SourcePort b' = UDP_SourcePort b)"
    using b ne g udp_port_update [of b 2 n p]
    by (auto simp: UDP_SetDestinationPortWithChecksumUpdate_def udp_fields go_simps udp_good_def udp_datagram_def NormalizeUDPChecksum(1))
next
  fix b n old new
  assume d: "udp_datagram z l d b" and g: "udp_good (n + addr_sum old) b"
    and a: "wf_Address old" "wf_Address new" "a_length old = a_length new"
  let ?c = "be16 (b ! 6) (b ! 7)"
  have b: "8 \<le> length b" using d by (simp add: udp_datagram_def)
  obtain x where x: "checksumUpdate2ByteAlignedAddress (NOT ?c) old new = Some x"
      "cong16 (unat x + addr_sum old) (unat (NOT ?c) + addr_sum new)"
    using checksumUpdate_address [OF a, of "NOT ?c"] by (auto simp: returns_iff addr_sum_def)
  let ?y = "NormalizeUDPChecksum (NOT x)"
  have "cong16 (unat ?y + addr_sum new) (unat ?c + addr_sum old)"
    by (rule cong16_trans [OF cong16_add [OF NormalizeUDPChecksum(2) cong16_refl] update_complement [OF x(2)]])
  then have "cong16 (n + (unat ?y + addr_sum new)) (n + (unat ?c + addr_sum old))"
    by (rule cong16_add [OF cong16_refl])
  then have "cong16 (n + addr_sum new + sum16 (b[6 := hi8 ?y, 6 + 1 := lo8 ?y])) (n + addr_sum old + sum16 b)"
    using b by (intro replace_xsum) (simp_all add: ac_simps)
  then have "verifies (n + addr_sum new) (b[6 := hi8 ?y, 6 + 1 := lo8 ?y]) \<longleftrightarrow> verifies (n + addr_sum old) b"
    by (rule verifies_cong)
  then have v: "udp_good (n + addr_sum new) (b[6 := hi8 ?y, 7 := lo8 ?y])" if "?c \<noteq> 0"
    using that g by (simp add: udp_good_def)
  have e: "UDP_UpdateChecksumPseudoHeaderAddress b old new True =
      Some (if ?c = 0 then b else b[6 := hi8 ?y, 7 := lo8 ?y])"
    using b x(1) by (simp add: UDP_UpdateChecksumPseudoHeaderAddress_def UDP_Checksum_def UDP_SetChecksum_def go_simps)
  show "returns (UDP_UpdateChecksumPseudoHeaderAddress b old new True) (\<lambda>b'. udp_datagram z l d b' \<and>
      udp_good (n + addr_sum new) b' \<and> UDP_SourcePort b' = UDP_SourcePort b \<and> UDP_DestinationPort b' = UDP_DestinationPort b)"
  proof (cases "?c = 0")
    case True
    then show ?thesis unfolding e using d by (simp add: udp_good_def)
  next
    case False
    then show ?thesis
      unfolding e if_not_P [OF False] returns_Some using b d v False by (simp add: udp_fields go_simps udp_datagram_def NormalizeUDPChecksum(1))
  qed
qed

section \<open>Properties\<close>

text \<open>
  The checksum the stack computes for a datagram verifies: storing the complement of
  \<open>CalculateChecksum\<close>, started with the pseudo-header and the payload, makes \<open>IsChecksumValid\<close> true.
\<close>

theorem UDP_checksum_roundtrip:
  assumes "UDP_Length b = Some l" and "UDP_Payload b = Some payload" and "wf_Address src" and "wf_Address dst"
    and "AsSlice src = Some s" and "AsSlice dst = Some d"
  shows "returns (do { ph \<leftarrow> PseudoHeaderChecksum 17 s d l;
      i \<leftarrow> Checksum payload ph;
      c \<leftarrow> UDP_CalculateChecksum b i;
      UDP_SetChecksum b (NOT c) })
    (\<lambda>b'. UDP_IsChecksumValid b' src dst (rfc1071 payload 0) = Some True \<and> UDP_Payload b' = Some payload)"
proof -
  have b: "8 \<le> length b" "payload = drop 8 b"
    using assms(2) by (auto simp: UDP_Payload_def slice_from_def split: if_splits)
  have l: "l = be16 (b ! 4) (b ! 5)" using assms(1) b(1) by (simp add: UDP_Length_def go_simps)
  have sd: "sum16 s = addr_sum src" "sum16 d = addr_sum dst"
    using assms(3-6) by (simp_all add: AsSlice_wf addr_sum_def)
  let ?n = "addr_sum src + addr_sum dst + unat l + 17"
  let ?i = "rfc1071 payload (word_of_nat (fold16 ?n))"
  let ?c = "rfc1071 (take 6 b) ?i" and ?b = "b[6 := hi8 (NOT (rfc1071 (take 6 b) ?i)), 6 + 1 := lo8 (NOT (rfc1071 (take 6 b) ?i))]"
  have "cong16 (unat ?c) (?n + sum16 (take 6 b) + sum16 (drop (6 + 2) b))"
    using cong16_fold16 [of "?n + sum16 (drop 8 b) + sum16 (take 6 b)"] b(2)
    by (simp add: unat_of_nat_u16 add.commute add.left_commute)
  then have "verifies ?n ?b" using b(1) by (intro fresh_xsum) simp_all
  then have "UDP_IsChecksumValid ?b src dst (rfc1071 (drop 8 ?b) 0) = Some True"
    using b(1) assms(3,4) l by (subst UDP_IsChecksumValid_eq) simp_all
  then show ?thesis
    using b sd by (simp add: PseudoHeaderChecksum_Some UDP_CalculateChecksum_eq UDP_SetChecksum_def UDP_Payload_def go_simps)
qed

theorem UDP_checksum_roundtrip_witness:
  "returns (do { ph \<leftarrow> PseudoHeaderChecksum 17 [10, 0, 0, 1] [10, 0, 0, 2] 9;
      i \<leftarrow> Checksum [104] ph;
      c \<leftarrow> UDP_CalculateChecksum [4, 0, 0, 53, 0, 9, 0, 0, 104] i;
      UDP_SetChecksum [4, 0, 0, 53, 0, 9, 0, 0, 104] (NOT c) })
    (\<lambda>b'. UDP_IsChecksumValid b' (AddrFrom4 [10, 0, 0, 1]) (AddrFrom4 [10, 0, 0, 2]) (rfc1071 [104] 0) = Some True \<and>
      UDP_Payload b' = Some [104])"
  by (rule UDP_checksum_roundtrip)
    (simp_all add: UDP_Length_def UDP_Payload_def go_simps be16_def AddrFrom4_def wf_Address_def AsSlice_def go_copy_def)

lemma UDPValid_iff:
  "UDPValid b (Some (rfc1071 (drop 8 b) 0)) n proto src dst False = Some (True, True) \<longleftrightarrow>
     8 \<le> length b \<and> be16 (b ! 4) (b ! 5) \<le> n + 8 \<and> 8 \<le> be16 (b ! 4) (b ! 5) \<and> (be16 (b ! 6) (b ! 7) = 0 \<longrightarrow> proto = 0x0800) \<and>
     udp_good (addr_sum dst + unat (be16 (b ! 4) (b ! 5)) + 17 + addr_sum src) b"
  if "wf_Address src" "wf_Address dst"
proof (cases "8 \<le> length b")
  case True
  then show ?thesis
    using UDP_IsChecksumValid_eq [OF True that]
    by (auto simp: UDPValid_def UDP_Length_def UDP_Checksum_def go_simps udp_good_def not_less ac_simps
        simp del: unat_be16)
next
  case False
  then have "UDP_Checksum b = None" by (simp add: UDP_Checksum_def BE_Uint16_def)
  with False show ?thesis
    by (cases "UDP_Length b") (auto simp: UDPValid_def)
qed

text \<open>
  C24. Address translation of a datagram, over IPv4 and over IPv6: one that \<open>UDPValid\<close> accepts is still accepted for the new source
  address after \<open>UpdateChecksumPseudoHeaderAddress\<close> and \<open>SetSourcePortWithChecksumUpdate\<close>; it carries the new
  source port, the old destination port and the same data. A datagram without a checksum (accepted over IPv4 only) stays without one,
  and one with a checksum keeps a checksum: it is never turned into the zero that means that there is none.
\<close>

theorem UDP_translation:
  assumes "UDPValid b (Some (rfc1071 (drop 8 b) 0)) n netProto src dst False = Some (True, True)"
    and "wf_Address src" and "wf_Address dst" and "wf_Address new" and "a_length src = a_length new"
  shows "returns (do { b \<leftarrow> UDP_UpdateChecksumPseudoHeaderAddress b src new True;
      UDP_SetSourcePortWithChecksumUpdate b port }) (\<lambda>b'.
    UDPValid b' (Some (rfc1071 (drop 8 b') 0)) n netProto new dst False = Some (True, True) \<and>
    UDP_SourcePort b' = Some port \<and> UDP_DestinationPort b' = UDP_DestinationPort b \<and> UDP_Payload b' = UDP_Payload b \<and>
    (UDP_Checksum b' = Some 0 \<longleftrightarrow> UDP_Checksum b = Some 0))"
proof -
  let ?l = "be16 (b ! 4) (b ! 5)" and ?m = "addr_sum dst + unat (be16 (b ! 4) (b ! 5)) + 17" and ?z = "be16 (b ! 6) (b ! 7) = 0"
  have v: "8 \<le> length b" "?l \<le> n + 8" "8 \<le> ?l" "?z \<longrightarrow> netProto = 0x0800" "udp_good (?m + addr_sum src) b"
    using assms(1) UDPValid_iff [OF assms(2,3), of b n netProto] by simp_all
  have "udp_datagram ?z ?l (drop 8 b) b" using v(1) by (simp add: udp_datagram_def)
  note r = udp.translate_source [OF this v(5) assms(2,4,5), of port]
  show ?thesis
  proof (rule returns_mono [OF r])
    fix b'
    assume t: "udp_datagram ?z ?l (drop 8 b) b' \<and> udp_good (?m + addr_sum new) b' \<and>
      UDP_SourcePort b' = Some port \<and> UDP_DestinationPort b' = UDP_DestinationPort b"
    then have "UDPValid b' (Some (rfc1071 (drop 8 b') 0)) n netProto new dst False = Some (True, True)"
      using v(2-4) UDPValid_iff [OF assms(4,3), of b' n netProto] by (simp add: udp_datagram_def del: unat_be16)
    moreover have "UDP_Payload b' = UDP_Payload b" "UDP_Checksum b' = Some 0 \<longleftrightarrow> UDP_Checksum b = Some 0"
      using t v(1) by (simp_all add: udp_datagram_def UDP_Payload_def UDP_Checksum_def go_simps)
    ultimately show "UDPValid b' (Some (rfc1071 (drop 8 b') 0)) n netProto new dst False = Some (True, True) \<and>
      UDP_SourcePort b' = Some port \<and> UDP_DestinationPort b' = UDP_DestinationPort b \<and> UDP_Payload b' = UDP_Payload b \<and>
      (UDP_Checksum b' = Some 0 \<longleftrightarrow> UDP_Checksum b = Some 0)"
      using t by blast
  qed
qed

text \<open>A datagram from 2001:db8::1 to 2001:db8::2, translated to the source 2001:db8::9.\<close>

abbreviation (input) doc_addr :: "u8 \<Rightarrow> Address" where
  "doc_addr n \<equiv> AddrFrom16 [0x20, 1, 0xd, 0xb8, 0, 0, 0, 0, 0, 0, 0, 0, 0, 0, 0, n]"

theorem UDP_translation_witness:
  "returns (do { b \<leftarrow> UDP_UpdateChecksumPseudoHeaderAddress [4, 0, 0, 53, 0, 9, 0x38, 0x32, 104] (doc_addr 1) (doc_addr 9) True;
      UDP_SetSourcePortWithChecksumUpdate b 10000 }) (\<lambda>b'.
     UDPValid b' (Some (rfc1071 (drop 8 b') 0)) 1 0x86dd (doc_addr 9) (doc_addr 2) False = Some (True, True) \<and>
     UDP_SourcePort b' = Some 10000 \<and> UDP_Checksum b' \<noteq> Some 0)"
proof -
  have wf: "wf_Address (doc_addr n)" for n by (simp add: AddrFrom16_def wf_Address_def)
  have "UDPValid [4, 0, 0, 53, 0, 9, 0x38, 0x32, 104] (Some (rfc1071 (drop 8 [4, 0, 0, 53, 0, 9, 0x38, 0x32, 104]) 0)) 1 0x86dd
      (doc_addr 1) (doc_addr 2) False = Some (True, True)"
    unfolding UDPValid_iff [OF wf wf]
    by (simp add: udp_good_def verifies_def addr_sum_def AddrFrom16_def go_copy_def be16_def)
  from UDP_translation [OF this wf wf wf, of 9 10000] show ?thesis
    by (rule returns_mono) (simp_all add: AddrFrom16_def UDP_Checksum_def go_simps be16_def)
qed

end
