(* ===== verification/Header_TCP.thy ===== *)
theory Header_TCP
  imports Transport_Interface Seqnum
begin

text \<open>
  \<^verbatim>\<open>internal/gtcpip/header/tcp.go\<close> without the options: the TCP header stored in a byte slice, its
  checksum, encoding and validation. The lemmas say that a computed checksum verifies, that the
  incremental updates keep it right, that encoded fields are read back, and what \<open>TCPValid\<close> accepts.
\<close>

abbreviation (input) TCPSrcPortOffset :: nat where "TCPSrcPortOffset \<equiv> 0"
abbreviation (input) TCPDstPortOffset :: nat where "TCPDstPortOffset \<equiv> 2"
abbreviation (input) TCPSeqNumOffset :: nat where "TCPSeqNumOffset \<equiv> 4"
abbreviation (input) TCPAckNumOffset :: nat where "TCPAckNumOffset \<equiv> 8"
abbreviation (input) TCPDataOffset :: nat where "TCPDataOffset \<equiv> 12"
abbreviation (input) TCPFlagsOffset :: nat where "TCPFlagsOffset \<equiv> 13"
abbreviation (input) TCPWinSizeOffset :: nat where "TCPWinSizeOffset \<equiv> 14"
abbreviation (input) TCPChecksumOffset :: nat where "TCPChecksumOffset \<equiv> 16"
abbreviation (input) TCPUrgentPtrOffset :: nat where "TCPUrgentPtrOffset \<equiv> 18"
abbreviation (input) TCPMinimumSize :: nat where "TCPMinimumSize \<equiv> 20"
abbreviation (input) TCPProtocolNumber :: u32 where "TCPProtocolNumber \<equiv> 6"

abbreviation (input) TCPFlagFin :: u8 where "TCPFlagFin \<equiv> 1"
abbreviation (input) TCPFlagSyn :: u8 where "TCPFlagSyn \<equiv> 2"
abbreviation (input) TCPFlagRst :: u8 where "TCPFlagRst \<equiv> 4"
abbreviation (input) TCPFlagPsh :: u8 where "TCPFlagPsh \<equiv> 8"
abbreviation (input) TCPFlagAck :: u8 where "TCPFlagAck \<equiv> 16"

type_synonym TCP = bytes
type_synonym TCPFlags = u8

definition Intersects :: "TCPFlags \<Rightarrow> TCPFlags \<Rightarrow> bool" where
  "Intersects f p \<longleftrightarrow> f AND p \<noteq> 0"

definition Flags_Contains :: "TCPFlags \<Rightarrow> TCPFlags \<Rightarrow> bool" where
  "Flags_Contains f p \<longleftrightarrow> f AND p = p"

definition Flags_String :: "TCPFlags \<Rightarrow> string" where
  "Flags_String f = map (\<lambda>(i, c). if f AND push_bit i 1 = 0 then CHR '' '' else c) (enumerate 0 ''FSRPAUEC'')"

record TCPFields =
  ft_SrcPort :: u16
  ft_DstPort :: u16
  ft_SeqNum :: u32
  ft_AckNum :: u32
  ft_DataOffset :: u8
  ft_Flags :: TCPFlags
  ft_WindowSize :: u16
  ft_Checksum :: u16
  ft_UrgentPointer :: u16

section \<open>Getters\<close>

definition TCP_SourcePort :: "TCP \<Rightarrow> u16 option" where
  "TCP_SourcePort b = BE_Uint16 b TCPSrcPortOffset"

definition TCP_DestinationPort :: "TCP \<Rightarrow> u16 option" where
  "TCP_DestinationPort b = BE_Uint16 b TCPDstPortOffset"

definition TCP_SequenceNumber :: "TCP \<Rightarrow> u32 option" where
  "TCP_SequenceNumber b = BE_Uint32 b TCPSeqNumOffset"

definition TCP_AckNumber :: "TCP \<Rightarrow> u32 option" where
  "TCP_AckNumber b = BE_Uint32 b TCPAckNumOffset"

definition TCP_DataOffset :: "TCP \<Rightarrow> u8 option" where
  "TCP_DataOffset b = do { v \<leftarrow> byte_at b TCPDataOffset; Some (drop_bit 4 v * 4) }"

definition TCP_Payload :: "TCP \<Rightarrow> bytes option" where
  "TCP_Payload b = do { d \<leftarrow> TCP_DataOffset b; slice_from b (unat d) }"

definition TCP_Flags :: "TCP \<Rightarrow> TCPFlags option" where
  "TCP_Flags b = byte_at b TCPFlagsOffset"

definition TCP_WindowSize :: "TCP \<Rightarrow> u16 option" where
  "TCP_WindowSize b = BE_Uint16 b TCPWinSizeOffset"

definition TCP_Checksum :: "TCP \<Rightarrow> u16 option" where
  "TCP_Checksum b = BE_Uint16 b TCPChecksumOffset"

definition TCP_UrgentPointer :: "TCP \<Rightarrow> u16 option" where
  "TCP_UrgentPointer b = BE_Uint16 b TCPUrgentPtrOffset"

section \<open>Setters\<close>

definition TCP_SetSourcePort :: "TCP \<Rightarrow> u16 \<Rightarrow> TCP option" where
  "TCP_SetSourcePort b port = BE_PutUint16 b TCPSrcPortOffset port"

definition TCP_SetDestinationPort :: "TCP \<Rightarrow> u16 \<Rightarrow> TCP option" where
  "TCP_SetDestinationPort b port = BE_PutUint16 b TCPDstPortOffset port"

definition TCP_SetChecksum :: "TCP \<Rightarrow> u16 \<Rightarrow> TCP option" where
  "TCP_SetChecksum b xsum = BE_PutUint16 b TCPChecksumOffset xsum"

definition TCP_SetDataOffset :: "TCP \<Rightarrow> u8 \<Rightarrow> TCP option" where
  "TCP_SetDataOffset b headerLen = set_byte b TCPDataOffset (push_bit 4 (headerLen div 4))"

definition TCP_SetSequenceNumber :: "TCP \<Rightarrow> u32 \<Rightarrow> TCP option" where
  "TCP_SetSequenceNumber b seqNum = BE_PutUint32 b TCPSeqNumOffset seqNum"

definition TCP_SetAckNumber :: "TCP \<Rightarrow> u32 \<Rightarrow> TCP option" where
  "TCP_SetAckNumber b ackNum = BE_PutUint32 b TCPAckNumOffset ackNum"

definition TCP_SetFlags :: "TCP \<Rightarrow> u8 \<Rightarrow> TCP option" where
  "TCP_SetFlags b flags = set_byte b TCPFlagsOffset flags"

definition TCP_SetWindowSize :: "TCP \<Rightarrow> u16 \<Rightarrow> TCP option" where
  "TCP_SetWindowSize b rcvwnd = BE_PutUint16 b TCPWinSizeOffset rcvwnd"

definition TCP_SetUrgentPointer :: "TCP \<Rightarrow> u16 \<Rightarrow> TCP option" where
  "TCP_SetUrgentPointer b urgentPointer = BE_PutUint16 b TCPUrgentPtrOffset urgentPointer"

section \<open>Checksum, encoding, validation\<close>

definition TCP_CalculateChecksum :: "TCP \<Rightarrow> u16 \<Rightarrow> u16 option" where
  "TCP_CalculateChecksum b partialChecksum = do {
     s \<leftarrow> slice b 0 TCPChecksumOffset;
     xsum \<leftarrow> Checksum s partialChecksum;
     d \<leftarrow> TCP_DataOffset b;
     s \<leftarrow> slice b (TCPChecksumOffset + 2) (unat d);
     Checksum s xsum }"

definition TCP_IsChecksumValid :: "TCP \<Rightarrow> Address \<Rightarrow> Address \<Rightarrow> u16 \<Rightarrow> u16 \<Rightarrow> bool option" where
  "TCP_IsChecksumValid b src dst payloadChecksum payloadLength = do {
     s \<leftarrow> AsSlice src;
     d \<leftarrow> AsSlice dst;
     off \<leftarrow> TCP_DataOffset b;
     xsum \<leftarrow> PseudoHeaderChecksum TCPProtocolNumber s d (ucast off + payloadLength);
     let xsum = Combine xsum payloadChecksum;
     h \<leftarrow> slice b 0 (unat off);
     x \<leftarrow> Checksum h xsum;
     Some (x = 0xffff) }"

definition TCP_Options :: "TCP \<Rightarrow> bytes option" where
  "TCP_Options b = do { d \<leftarrow> TCP_DataOffset b; slice b TCPMinimumSize (unat d) }"

definition encodeSubset :: "TCP \<Rightarrow> u32 \<Rightarrow> u32 \<Rightarrow> TCPFlags \<Rightarrow> u16 \<Rightarrow> TCP option" where
  "encodeSubset b seq ack flags rcvwnd = do {
     b \<leftarrow> BE_PutUint32 b TCPSeqNumOffset seq;
     b \<leftarrow> BE_PutUint32 b TCPAckNumOffset ack;
     b \<leftarrow> set_byte b TCPFlagsOffset flags;
     BE_PutUint16 b TCPWinSizeOffset rcvwnd }"

definition TCP_Encode :: "TCP \<Rightarrow> TCPFields \<Rightarrow> TCP option" where
  "TCP_Encode b t = do {
     b \<leftarrow> encodeSubset b (ft_SeqNum t) (ft_AckNum t) (ft_Flags t) (ft_WindowSize t);
     b \<leftarrow> TCP_SetSourcePort b (ft_SrcPort t);
     b \<leftarrow> TCP_SetDestinationPort b (ft_DstPort t);
     b \<leftarrow> TCP_SetDataOffset b (ft_DataOffset t);
     b \<leftarrow> TCP_SetChecksum b (ft_Checksum t);
     TCP_SetUrgentPointer b (ft_UrgentPointer t) }"

definition TCP_EncodePartial :: "TCP \<Rightarrow> u16 \<Rightarrow> u16 \<Rightarrow> u32 \<Rightarrow> u32 \<Rightarrow> TCPFlags \<Rightarrow> u16 \<Rightarrow> TCP option" where
  "TCP_EncodePartial b partialChecksum len seqnum acknum flags rcvwnd = do {
     tmp \<leftarrow> BE_PutUint16 [0, 0, 0, 0] 0 len;
     tmp \<leftarrow> BE_PutUint16 tmp 2 (ucast flags);
     xsum \<leftarrow> Checksum tmp partialChecksum;
     b \<leftarrow> encodeSubset b seqnum acknum flags rcvwnd;
     s \<leftarrow> slice b TCPSeqNumOffset (TCPSeqNumOffset + 8);
     xsum \<leftarrow> Checksum s xsum;
     s \<leftarrow> slice b TCPWinSizeOffset (TCPWinSizeOffset + 2);
     xsum \<leftarrow> Checksum s xsum;
     TCP_SetChecksum b (NOT xsum) }"

definition TCP_SetSourcePortWithChecksumUpdate :: "TCP \<Rightarrow> u16 \<Rightarrow> TCP option" where
  "TCP_SetSourcePortWithChecksumUpdate b new = do {
     old \<leftarrow> TCP_SourcePort b;
     b \<leftarrow> TCP_SetSourcePort b new;
     c \<leftarrow> TCP_Checksum b;
     TCP_SetChecksum b (NOT (checksumUpdate2ByteAlignedUint16 (NOT c) old new)) }"

definition TCP_SetDestinationPortWithChecksumUpdate :: "TCP \<Rightarrow> u16 \<Rightarrow> TCP option" where
  "TCP_SetDestinationPortWithChecksumUpdate b new = do {
     old \<leftarrow> TCP_DestinationPort b;
     b \<leftarrow> TCP_SetDestinationPort b new;
     c \<leftarrow> TCP_Checksum b;
     TCP_SetChecksum b (NOT (checksumUpdate2ByteAlignedUint16 (NOT c) old new)) }"

definition TCP_UpdateChecksumPseudoHeaderAddress :: "TCP \<Rightarrow> Address \<Rightarrow> Address \<Rightarrow> bool \<Rightarrow> TCP option" where
  "TCP_UpdateChecksumPseudoHeaderAddress b old new fullChecksum = do {
     xsum \<leftarrow> TCP_Checksum b;
     let xsum = (if fullChecksum then NOT xsum else xsum);
     xsum \<leftarrow> checksumUpdate2ByteAlignedAddress xsum old new;
     let xsum = (if fullChecksum then NOT xsum else xsum);
     TCP_SetChecksum b xsum }"

definition Acceptable :: "Value \<Rightarrow> Size \<Rightarrow> Value \<Rightarrow> Value \<Rightarrow> bool" where
  "Acceptable segSeq segLen rcvNxt rcvAcc =
     (if rcvNxt = rcvAcc then segLen = 0 \<and> segSeq = rcvNxt
      else if segLen = 0 then InRange segSeq rcvNxt (Value_Add rcvAcc 1)
      else LessThan rcvNxt (Value_Add segSeq segLen) \<and> LessThanEq segSeq rcvAcc)"

definition TCPValid ::
    "TCP \<Rightarrow> u16 option \<Rightarrow> u16 \<Rightarrow> Address \<Rightarrow> Address \<Rightarrow> bool \<Rightarrow> (u16 \<times> bool \<times> bool) option" where
  "TCPValid hdr payloadChecksum payloadSize srcAddr dstAddr skipChecksumValidation = do {
     off \<leftarrow> TCP_DataOffset hdr;
     if unat off < TCPMinimumSize \<or> unat off > length hdr then Some (0, False, False)
     else if skipChecksumValidation then Some (0, True, True)
     else do {
       csum \<leftarrow> TCP_Checksum hdr;
       p \<leftarrow> payloadChecksum;
       v \<leftarrow> TCP_IsChecksumValid hdr srcAddr dstAddr p payloadSize;
       Some (csum, v, True) } }"

section \<open>Fields\<close>

lemmas tcp_fields = TCP_SourcePort_def TCP_DestinationPort_def TCP_SequenceNumber_def TCP_AckNumber_def
  TCP_Flags_def TCP_WindowSize_def TCP_Checksum_def TCP_UrgentPointer_def
  TCP_SetSourcePort_def TCP_SetDestinationPort_def TCP_SetChecksum_def TCP_SetDataOffset_def
  TCP_SetUrgentPointer_def

definition tcp_off :: "TCP \<Rightarrow> nat" where
  "tcp_off b = unat (b ! 12) div 16 * 4"

lemma tcp_off_le: "tcp_off b \<le> 60"
proof -
  have "unat (b ! 12) div 16 < 16" by (simp add: less_mult_imp_div_less)
  then show ?thesis by (simp add: tcp_off_def)
qed

lemma tcp_off_even [simp]: "even (tcp_off b)"
  by (simp add: tcp_off_def)

lemma unat_tcp_off [simp]: "unat (word_of_nat (tcp_off b) :: u8) = tcp_off b"
  using tcp_off_le [of b] by (intro unat_of_nat_u8) simp

lemma TCP_DataOffset_eq: "13 \<le> length b \<Longrightarrow> TCP_DataOffset b = Some (word_of_nat (tcp_off b))"
proof -
  have "unat (drop_bit 4 (b ! 12) * 4) = tcp_off b"
    using tcp_off_le [of b] by (simp add: tcp_off_def unat_word_ariths unat_drop_bit)
  then have "drop_bit 4 (b ! 12) * 4 = word_of_nat (tcp_off b)" by (rule unat_eqD)
  then show "13 \<le> length b \<Longrightarrow> ?thesis" by (simp add: TCP_DataOffset_def go_simps)
qed

lemma tcp_off_write [simp]: "i \<noteq> 12 \<Longrightarrow> tcp_off (b[i := x]) = tcp_off b"
  by (simp add: tcp_off_def)

lemma TCP_Payload_eq: "13 \<le> length b \<Longrightarrow> tcp_off b \<le> length b \<Longrightarrow> TCP_Payload b = Some (drop (tcp_off b) b)"
  by (simp add: TCP_Payload_def TCP_DataOffset_eq go_simps)

section \<open>The checksum\<close>

lemma TCP_CalculateChecksum_eq:
  assumes "18 \<le> tcp_off b" and "tcp_off b \<le> length b"
  shows "TCP_CalculateChecksum b p =
    Some (word_of_nat (fold16 (unat p + sum16 (take 16 b) + sum16 (drop 18 (take (tcp_off b) b)))))"
  using assms by (simp add: TCP_CalculateChecksum_def TCP_DataOffset_eq go_simps word_unat_eq_iff unat_of_nat_u16 drop_take)

text \<open>The segment length of the pseudo-header as \<open>IsChecksumValid\<close> computes it.\<close>

lemma TCP_IsChecksumValid_eq:
  assumes "18 \<le> tcp_off b" and "tcp_off b \<le> length b" and "length b < 65536"
    and "wf_Address src" and "wf_Address dst"
  shows "TCP_IsChecksumValid b src dst (rfc1071 (drop (tcp_off b) b) 0) (word_of_nat (length b - tcp_off b)) =
    Some (verifies (addr_sum src + addr_sum dst + length b + 6) b)"
proof -
  let ?n = "addr_sum src + addr_sum dst + length b + 6"
  let ?i = "Combine (word_of_nat (fold16 ?n)) (rfc1071 (drop (tcp_off b) b) 0)"
  have i: "unat ?i = fold16 (?n + sum16 (drop (tcp_off b) b))"
    by (simp add: unat_Combine unat_of_nat_u16)
  have "rfc1071 (take (tcp_off b) b) ?i = 0xffff \<longleftrightarrow> verifies ?n b"
    by (rule rfc1071_verifies [OF _ assms(2) _ i]) simp_all
  moreover have "ucast (word_of_nat (tcp_off b) :: u8) = (word_of_nat (tcp_off b) :: u16)"
    by (rule unat_eqD) (simp add: unat_ucast_up)
  then have "ucast (word_of_nat (tcp_off b) :: u8) + word_of_nat (length b - tcp_off b) = (word_of_nat (length b) :: u16)"
    using assms(2) by simp
  moreover have "PseudoHeaderChecksum 6 (take (a_length src) (a_addr src)) (take (a_length dst) (a_addr dst))
      (word_of_nat (length b)) = Some (word_of_nat (fold16 ?n))"
    using assms(3) by (simp add: PseudoHeaderChecksum_Some addr_sum_def unat_of_nat_u16)
  ultimately show ?thesis
    using assms by (simp add: TCP_IsChecksumValid_def AsSlice_wf TCP_DataOffset_eq slice_in)
qed

section \<open>Incremental updates\<close>

text \<open>A segment with a header of \<open>h\<close> bytes and payload \<open>d\<close>.\<close>

definition tcp_segment :: "nat \<Rightarrow> bytes \<Rightarrow> TCP \<Rightarrow> bool" where
  "tcp_segment h d b \<longleftrightarrow> 20 \<le> h \<and> h \<le> length b \<and> tcp_off b = h \<and> drop h b = d"

lemma tcp_segmentD:
  assumes "tcp_segment h d b"
  shows "20 \<le> length b" "b \<noteq> []" "20 \<le> h" "h \<le> length b" "tcp_off b = h" "drop h b = d"
  using assms by (auto simp: tcp_segment_def)

lemma tcp_segment_write: "tcp_segment h d b \<Longrightarrow> i < 20 \<Longrightarrow> i \<noteq> 12 \<Longrightarrow> tcp_segment h d (b[i := x])"
  by (auto simp: tcp_segment_def)

lemma tcp_port_update:
  fixes v :: u16
  assumes "20 \<le> length b" and "j = 0 \<or> j = 2"
  defines "c \<equiv> be16 (b ! 16) (b ! 17)" and "old \<equiv> be16 (b ! j) (b ! (j + 1))"
  defines "x \<equiv> NOT (checksumUpdate2ByteAlignedUint16 (NOT c) old v)"
  shows "verifies n (b[j := hi8 v, j + 1 := lo8 v, 16 := hi8 x, 17 := lo8 x]) \<longleftrightarrow> verifies n b"
proof -
  have "cong16 (unat x + unat v) (unat c + unat old)"
    unfolding x_def by (rule update16_complement)
  then have "cong16 (sum16 (b[j := hi8 v, j + 1 := lo8 v, 16 := hi8 x, 16 + 1 := lo8 x])) (sum16 b)"
    using assms(1,2) unfolding c_def old_def by (intro rewrite_field) auto
  then show ?thesis
    by (intro verifies_cong cong16_add cong16_refl) simp
qed

interpretation tcp: checksummable_transport "tcp_segment h d" verifies TCP_SourcePort TCP_DestinationPort
    TCP_SetSourcePortWithChecksumUpdate TCP_SetDestinationPortWithChecksumUpdate TCP_UpdateChecksumPseudoHeaderAddress
  for h d
proof unfold_locales
  fix b p n
  assume b: "tcp_segment h d b" and g: "verifies n b"
  note l = tcp_segmentD(1,2) [OF b]
  show "returns (TCP_SetSourcePortWithChecksumUpdate b p) (\<lambda>b'. tcp_segment h d b' \<and> verifies n b' \<and>
      TCP_SourcePort b' = Some p \<and> TCP_DestinationPort b' = TCP_DestinationPort b)"
    using l b g tcp_port_update [of b 0 n p]
    by (simp add: TCP_SetSourcePortWithChecksumUpdate_def tcp_fields go_simps tcp_segment_write)
  show "returns (TCP_SetDestinationPortWithChecksumUpdate b p) (\<lambda>b'. tcp_segment h d b' \<and> verifies n b' \<and>
      TCP_DestinationPort b' = Some p \<and> TCP_SourcePort b' = TCP_SourcePort b)"
    using l b g tcp_port_update [of b 2 n p]
    by (simp add: TCP_SetDestinationPortWithChecksumUpdate_def tcp_fields go_simps tcp_segment_write)
next
  fix b n old new
  assume b: "tcp_segment h d b" and g: "verifies (n + addr_sum old) b"
    and a: "wf_Address old" "wf_Address new" "a_length old = a_length new"
  note l = tcp_segmentD(1,2) [OF b]
  let ?c = "be16 (b ! 16) (b ! 17)"
  obtain x where x: "checksumUpdate2ByteAlignedAddress (NOT ?c) old new = Some x"
      "cong16 (unat x + addr_sum old) (unat (NOT ?c) + addr_sum new)"
    using checksumUpdate_address [OF a, of "NOT ?c"] by (auto simp: returns_iff addr_sum_def)
  have "cong16 (n + (unat (NOT x) + addr_sum new)) (n + (unat ?c + addr_sum old))"
    by (rule cong16_add [OF cong16_refl update_complement [OF x(2)]])
  then have "cong16 (n + addr_sum new + sum16 (b[16 := hi8 (NOT x), 16 + 1 := lo8 (NOT x)])) (n + addr_sum old + sum16 b)"
    using l by (intro replace_xsum) (simp_all add: ac_simps)
  then have "verifies (n + addr_sum new) (b[16 := hi8 (NOT x), 16 + 1 := lo8 (NOT x)])"
    using g verifies_cong by blast
  then show "returns (TCP_UpdateChecksumPseudoHeaderAddress b old new True) (\<lambda>b'. tcp_segment h d b' \<and>
      verifies (n + addr_sum new) b' \<and> TCP_SourcePort b' = TCP_SourcePort b \<and> TCP_DestinationPort b' = TCP_DestinationPort b)"
    using l b x(1) by (simp add: TCP_UpdateChecksumPseudoHeaderAddress_def tcp_fields go_simps tcp_segment_write Let_def)
qed

section \<open>Properties\<close>

text \<open>
  The checksum the stack computes for a segment verifies: storing the complement of
  \<open>CalculateChecksum\<close>, started with the pseudo-header and the payload, makes \<open>IsChecksumValid\<close> true
  and keeps the payload.
\<close>

theorem TCP_checksum_roundtrip:
  assumes "TCP_DataOffset b = Some off" and "20 \<le> off" and "TCP_Payload b = Some payload" and "length b < 65536"
    and "wf_Address src" and "wf_Address dst" and "AsSlice src = Some s" and "AsSlice dst = Some d"
  shows "returns (do { ph \<leftarrow> PseudoHeaderChecksum 6 s d (word_of_nat (length b));
      i \<leftarrow> Checksum payload ph;
      c \<leftarrow> TCP_CalculateChecksum b i;
      TCP_SetChecksum b (NOT c) })
    (\<lambda>b'. TCP_IsChecksumValid b' src dst (rfc1071 payload 0) (word_of_nat (length payload)) = Some True \<and>
      TCP_Payload b' = Some payload)"
proof -
  have "13 \<le> length b" using assms(1) by (auto simp: TCP_DataOffset_def byte_at_def split: Option.bind_splits if_splits)
  then have off: "unat off = tcp_off b" "20 \<le> tcp_off b"
    using assms(1,2) TCP_DataOffset_eq [of b] by (auto simp: word_le_nat_alt)
  moreover have "tcp_off b \<le> length b" "payload = drop (tcp_off b) b"
    using assms(1,3) off(1) by (auto simp: TCP_Payload_def slice_from_def split: if_splits)
  ultimately have b: "20 \<le> tcp_off b" "tcp_off b \<le> length b" "payload = drop (tcp_off b) b" "20 \<le> length b" by simp_all
  have sd: "sum16 s = addr_sum src" "sum16 d = addr_sum dst"
    using assms(5-8) by (simp_all add: AsSlice_wf addr_sum_def)
  let ?n = "addr_sum src + addr_sum dst + length b + 6"
  let ?i = "rfc1071 payload (word_of_nat (fold16 ?n))"
  have i: "unat ?i = fold16 (?n + sum16 payload)" by (simp add: unat_of_nat_u16)
  define m where "m = unat ?i + sum16 (take 16 b) + sum16 (drop 18 (take (tcp_off b) b))"
  define c where "c = (word_of_nat (fold16 m) :: u16)"
  let ?b = "b[16 := hi8 (NOT c), 16 + 1 := lo8 (NOT c)]"
  have "sum16 (drop 18 b) = sum16 (drop 18 (take (tcp_off b) b)) + sum16 (drop (tcp_off b) b)"
    using b sum16_take_drop [of "tcp_off b - 18" "drop 18 b"] by (simp add: drop_take)
  moreover have "cong16 m (?n + sum16 payload + (sum16 (take 16 b) + sum16 (drop 18 (take (tcp_off b) b))))"
    unfolding m_def i add.assoc [of "fold16 (?n + sum16 payload)"] by (rule cong16_add [OF cong16_fold16 cong16_refl])
  ultimately have "cong16 (unat c) (?n + sum16 (take 16 b) + sum16 (drop (16 + 2) b))"
    using cong16_trans [OF cong16_fold16] b(3) by (simp add: c_def unat_of_nat_u16 ac_simps)
  then have "verifies ?n ?b" using b(4) by (intro fresh_xsum) simp_all
  then have "TCP_IsChecksumValid ?b src dst (rfc1071 (drop (tcp_off ?b) ?b) 0) (word_of_nat (length ?b - tcp_off ?b)) = Some True"
    using b assms(4-6) by (subst TCP_IsChecksumValid_eq) simp_all
  then show ?thesis
    using b sd assms(4) by (simp add: PseudoHeaderChecksum_Some TCP_CalculateChecksum_eq TCP_SetChecksum_def TCP_Payload_eq
        unat_of_nat_u16 go_simps c_def m_def)
qed

theorem TCP_checksum_roundtrip_witness:
  "returns (do { ph \<leftarrow> PseudoHeaderChecksum 6 [10, 0, 0, 1] [10, 0, 0, 2] (word_of_nat 21);
      i \<leftarrow> Checksum [104] ph;
      c \<leftarrow> TCP_CalculateChecksum (replicate 12 1 @ 0x50 # replicate 7 0 @ [104]) i;
      TCP_SetChecksum (replicate 12 1 @ 0x50 # replicate 7 0 @ [104]) (NOT c) })
    (\<lambda>b'. TCP_Payload b' = Some [104])"
proof -
  let ?b = "replicate 12 1 @ 0x50 # replicate 7 0 @ [104] :: bytes"
  have "tcp_off ?b = 20" by (simp add: tcp_off_def nth_append)
  then have "TCP_DataOffset ?b = Some 20" "TCP_Payload ?b = Some [104]"
    by (simp_all add: TCP_DataOffset_eq TCP_Payload_eq)
  from returns_mono [OF TCP_checksum_roundtrip [OF this(1) _ this(2), of "AddrFrom4 [10, 0, 0, 1]" "AddrFrom4 [10, 0, 0, 2]"]]
  show ?thesis by (simp add: AddrFrom4_def wf_Address_def AsSlice_def go_copy_def go_simps)
qed

text \<open>What a receiver checks of a whole segment: the header lengths and the checksum.\<close>

definition accepts_tcp :: "Address \<Rightarrow> Address \<Rightarrow> TCP \<Rightarrow> bool" where
  "accepts_tcp src dst b \<longleftrightarrow> returns (do {
     p \<leftarrow> TCP_Payload b;
     TCPValid b (Checksum p 0) (word_of_nat (length p)) src dst False }) (\<lambda>(csum, csumValid, ok). csumValid \<and> ok)"

lemma accepts_tcp_iff:
  assumes "length b < 65536" and "wf_Address src" and "wf_Address dst"
  shows "accepts_tcp src dst b \<longleftrightarrow> tcp_segment (tcp_off b) (drop (tcp_off b) b) b \<and>
    verifies (addr_sum dst + length b + 6 + addr_sum src) b"
proof (cases "13 \<le> length b \<and> tcp_off b \<le> length b")
  case True
  have n: "addr_sum dst + length b + 6 + addr_sum src = addr_sum src + addr_sum dst + length b + 6" by simp
  show ?thesis
    using True assms TCP_IsChecksumValid_eq [of b src dst]
    by (auto simp: accepts_tcp_def TCP_Payload_eq TCPValid_def TCP_DataOffset_eq tcp_segment_def TCP_Checksum_def go_simps n)
next
  case False
  have "TCP_Payload b = None"
  proof (cases "13 \<le> length b")
    case True
    with False show ?thesis by (simp add: TCP_Payload_def TCP_DataOffset_eq slice_from_def)
  qed (simp add: TCP_Payload_def TCP_DataOffset_def byte_at_def)
  with False show ?thesis by (auto simp: accepts_tcp_def tcp_segment_def)
qed

text \<open>
  C25. Address translation of a segment: one that \<open>TCPValid\<close> accepts is still accepted for the new
  source address after \<open>UpdateChecksumPseudoHeaderAddress\<close> and \<open>SetSourcePortWithChecksumUpdate\<close>; it
  carries the new source port, and the destination port and the payload are kept.
\<close>

theorem TCP_translation:
  assumes "accepts_tcp src dst b" and "length b < 65536"
    and "wf_Address src" and "wf_Address dst" and "wf_Address new" and "a_length src = a_length new"
  shows "returns (do { b \<leftarrow> TCP_UpdateChecksumPseudoHeaderAddress b src new True;
      TCP_SetSourcePortWithChecksumUpdate b port }) (\<lambda>b'. accepts_tcp new dst b' \<and>
    TCP_SourcePort b' = Some port \<and> TCP_DestinationPort b' = TCP_DestinationPort b \<and> TCP_Payload b' = TCP_Payload b)"
proof -
  let ?h = "tcp_off b" and ?d = "drop (tcp_off b) b"
  have v: "tcp_segment ?h ?d b" "verifies (addr_sum dst + length b + 6 + addr_sum src) b"
    using assms(1) accepts_tcp_iff [OF assms(2-4)] by simp_all
  note r = tcp.translate_source [OF v assms(3,5,6), of port]
  show ?thesis
  proof (rule returns_mono [OF r])
    fix b'
    assume a: "tcp_segment ?h ?d b' \<and> verifies (addr_sum dst + length b + 6 + addr_sum new) b' \<and>
      TCP_SourcePort b' = Some port \<and> TCP_DestinationPort b' = TCP_DestinationPort b"
    then have "length ?d = length b' - ?h" "?h \<le> length b'" "tcp_off b' = ?h" "drop ?h b' = ?d"
      using length_drop [of ?h b'] by (auto simp: tcp_segment_def simp del: length_drop)
    moreover from this have "length b' = length b" using tcp_segmentD [OF v(1)] by simp
    ultimately show "accepts_tcp new dst b' \<and> TCP_SourcePort b' = Some port \<and>
        TCP_DestinationPort b' = TCP_DestinationPort b \<and> TCP_Payload b' = TCP_Payload b"
      using a accepts_tcp_iff [OF _ assms(5,4), of b'] assms(2) tcp_segmentD [OF v(1)] by (simp add: TCP_Payload_eq)
  qed
qed

theorem TCP_translation_witness:
  "returns (do { b \<leftarrow> TCP_UpdateChecksumPseudoHeaderAddress
        [4, 0, 0, 80, 0, 0, 0, 1, 0, 0, 0, 0, 0x50, 2, 0x20, 0, 0x77, 0x8f, 0, 0]
        (AddrFrom4 [10, 0, 0, 1]) (AddrFrom4 [172, 18, 0, 1]) True;
      TCP_SetSourcePortWithChecksumUpdate b 10000 }) (\<lambda>b'. accepts_tcp (AddrFrom4 [172, 18, 0, 1]) (AddrFrom4 [10, 0, 0, 2]) b' \<and>
      TCP_SourcePort b' = Some 10000)"
proof -
  let ?b = "[4, 0, 0, 80, 0, 0, 0, 1, 0, 0, 0, 0, 0x50, 2, 0x20, 0, 0x77, 0x8f, 0, 0] :: bytes"
  have wf: "wf_Address (AddrFrom4 [a, b, c, d])" for a b c d :: u8
    by (simp add: AddrFrom4_def wf_Address_def)
  have "accepts_tcp (AddrFrom4 [10, 0, 0, 1]) (AddrFrom4 [10, 0, 0, 2]) ?b"
    by (subst accepts_tcp_iff [OF _ wf wf])
      (simp_all add: tcp_segment_def tcp_off_def verifies_def addr_sum_def AddrFrom4_def go_copy_def)
  from TCP_translation [OF this _ wf wf wf, of 172 18 0 1 10000] show ?thesis
    by (rule returns_mono) (simp_all add: AddrFrom4_def)
qed

section \<open>Encoding\<close>

lemma BE_Uint32_write: "i < off \<or> off + 4 \<le> i \<Longrightarrow> BE_Uint32 (b[i := x]) off = BE_Uint32 b off"
  by (auto simp: BE_Uint32_def drop_update_swap)

lemma data_offset_roundtrip: "4 dvd unat h \<Longrightarrow> unat h < 64 \<Longrightarrow> drop_bit 4 (push_bit 4 (h div 4)) * 4 = (h :: u8)"
proof -
  assume h: "4 dvd unat h" "unat h < 64"
  have q: "unat (h div 4) = unat h div 4" by (simp add: unat_div)
  have "unat (push_bit 4 (h div 4)) = 16 * (unat h div 4)"
    using h(2) q by (simp add: push_bit_eq_mult unat_word_ariths)
  then show ?thesis
    using h by (simp add: word_unat_eq_iff unat_word_ariths unat_drop_bit)
qed

lemma TCP_Encode_fields:
  assumes "20 \<le> length b" and "4 dvd unat (ft_DataOffset t)" and "unat (ft_DataOffset t) < 64"
  shows "returns (TCP_Encode b t) (\<lambda>b'.
    TCP_SourcePort b' = Some (ft_SrcPort t) \<and> TCP_DestinationPort b' = Some (ft_DstPort t) \<and>
    TCP_SequenceNumber b' = Some (ft_SeqNum t) \<and> TCP_AckNumber b' = Some (ft_AckNum t) \<and>
    TCP_DataOffset b' = Some (ft_DataOffset t) \<and> TCP_Flags b' = Some (ft_Flags t) \<and>
    TCP_WindowSize b' = Some (ft_WindowSize t) \<and> TCP_Checksum b' = Some (ft_Checksum t) \<and>
    TCP_UrgentPointer b' = Some (ft_UrgentPointer t) \<and> length b' = length b \<and> drop 20 b' = drop 20 b)"
proof -
  define c where "c = take 4 b @ u32_bytes (ft_SeqNum t) @ drop 8 b"
  define d where "d = take 8 c @ u32_bytes (ft_AckNum t) @ drop 12 c"
  have l: "length c = length b" "length d = length b" "20 \<le> length d" "d \<noteq> []" "b \<noteq> []"
    using assms(1) by (auto simp: c_def d_def)
  have "drop 20 d = drop 20 b" using assms(1) by (simp add: c_def d_def)
  moreover have "BE_Uint32 d 4 = Some (ft_SeqNum t)"
    using assms(1) by (simp add: c_def d_def BE_Uint32_def be_nat_u32_bytes)
  moreover have "BE_Uint32 d 8 = Some (ft_AckNum t)"
    using assms(1) by (simp add: c_def d_def BE_Uint32_def be_nat_u32_bytes)
  moreover have "encodeSubset b (ft_SeqNum t) (ft_AckNum t) (ft_Flags t) (ft_WindowSize t) =
      Some (d[13 := ft_Flags t, 14 := hi8 (ft_WindowSize t), 15 := lo8 (ft_WindowSize t)])"
    using assms(1) l by (simp add: encodeSubset_def go_simps flip: c_def d_def)
  ultimately show ?thesis
    using l assms data_offset_roundtrip [OF assms(2,3)]
    by (simp add: TCP_Encode_def tcp_fields TCP_DataOffset_def go_simps BE_Uint32_write)
qed

text \<open>
  C37. Every getter of the TCP header returns the field \<open>Encode\<close> was given, for header lengths that
  are a multiple of four below sixty-four, and nothing after the fixed header is touched.
\<close>

theorem TCP_Encode_roundtrip:
  assumes "20 \<le> length b" and "4 dvd unat (ft_DataOffset t)" and "unat (ft_DataOffset t) < 64"
  shows "returns (TCP_Encode b t) (\<lambda>b'.
    TCP_SourcePort b' = Some (ft_SrcPort t) \<and> TCP_DestinationPort b' = Some (ft_DstPort t) \<and>
    TCP_SequenceNumber b' = Some (ft_SeqNum t) \<and> TCP_AckNumber b' = Some (ft_AckNum t) \<and>
    TCP_DataOffset b' = Some (ft_DataOffset t) \<and> TCP_Flags b' = Some (ft_Flags t) \<and>
    TCP_WindowSize b' = Some (ft_WindowSize t) \<and> TCP_Checksum b' = Some (ft_Checksum t) \<and>
    TCP_UrgentPointer b' = Some (ft_UrgentPointer t) \<and> length b' = length b \<and> drop 20 b' = drop 20 b)"
  by (rule TCP_Encode_fields [OF assms])

theorem TCP_Encode_roundtrip_witness:
  "returns (TCP_Encode (replicate 24 7) \<lparr>ft_SrcPort = 80, ft_DstPort = 1024, ft_SeqNum = 0xdeadbeef, ft_AckNum = 1,
      ft_DataOffset = 24, ft_Flags = 0x12, ft_WindowSize = 8192, ft_Checksum = 0, ft_UrgentPointer = 0\<rparr>)
    (\<lambda>b'. TCP_SequenceNumber b' = Some 0xdeadbeef \<and> TCP_DataOffset b' = Some 24 \<and> drop 20 b' = drop 20 (replicate 24 7))"
  by (rule returns_mono [OF TCP_Encode_roundtrip]) simp_all

end
