(* ===== verification/TCP_Option_Parse.thy ===== *)
theory TCP_Option_Parse
  imports Header_TCP
begin

text \<open>
  The TCP options of \<^verbatim>\<open>internal/gtcpip/header/tcp.go\<close>: the two parsers, loops over an index into the
  option bytes, and the encoders. The lemmas say that the parsers end without a panic on every
  input, what they guarantee of the values they return, and that they read back what the encoders
  wrote.
\<close>

abbreviation (input) TCPOptionEOL :: u8 where "TCPOptionEOL \<equiv> 0"
abbreviation (input) TCPOptionNOP :: u8 where "TCPOptionNOP \<equiv> 1"
abbreviation (input) TCPOptionMSS :: u8 where "TCPOptionMSS \<equiv> 2"
abbreviation (input) TCPOptionWS :: u8 where "TCPOptionWS \<equiv> 3"
abbreviation (input) TCPOptionSACKPermitted :: u8 where "TCPOptionSACKPermitted \<equiv> 4"
abbreviation (input) TCPOptionSACK :: u8 where "TCPOptionSACK \<equiv> 5"
abbreviation (input) TCPOptionTS :: u8 where "TCPOptionTS \<equiv> 8"
abbreviation (input) TCPMinimumSendMSS :: u16 where "TCPMinimumSendMSS \<equiv> 48"
abbreviation (input) TCPDefaultMSS :: u16 where "TCPDefaultMSS \<equiv> 536"
abbreviation (input) MaxWndScale :: int where "MaxWndScale \<equiv> 14"
abbreviation (input) TCPMaxSACKBlocks :: nat where "TCPMaxSACKBlocks \<equiv> 4"

record TCPSynOptions =
  so_MSS :: u16
  so_WS :: int
  so_TS :: bool
  so_TSVal :: u32
  so_TSEcr :: u32
  so_SACKPermitted :: bool
  so_Flags :: TCPFlags

record SACKBlock =
  sb_Start :: Value
  sb_End :: Value

definition SACKBlock_Less :: "SACKBlock \<Rightarrow> SACKBlock \<Rightarrow> bool" where
  "SACKBlock_Less r b = LessThan (sb_Start r) (sb_Start b)"

definition SACKBlock_Contains :: "SACKBlock \<Rightarrow> SACKBlock \<Rightarrow> bool" where
  "SACKBlock_Contains r b \<longleftrightarrow> LessThanEq (sb_Start r) (sb_Start b) \<and> LessThanEq (sb_End b) (sb_End r)"

record TCPOptions =
  to_TS :: bool
  to_TSVal :: u32
  to_TSEcr :: u32
  to_SACKBlocks :: "SACKBlock list"

section \<open>Parsers\<close>

function syn_loop :: "bytes \<Rightarrow> bool \<Rightarrow> nat \<Rightarrow> TCPSynOptions \<Rightarrow> TCPSynOptions option" where
  "syn_loop opts isAck i synOpts =
     (if i < length opts then do {
        k \<leftarrow> byte_at opts i;
        if k = TCPOptionEOL then syn_loop opts isAck (length opts) synOpts
        else if k = TCPOptionNOP then syn_loop opts isAck (i + 1) synOpts
        else if k = TCPOptionMSS then
          (if i + 4 > length opts then Some synOpts
           else do {
             n \<leftarrow> byte_at opts (i + 1);
             if n \<noteq> 4 then Some synOpts
             else do {
               h \<leftarrow> byte_at opts (i + 2);
               l \<leftarrow> byte_at opts (i + 3);
               let mss = (push_bit 8 (ucast h) OR ucast l :: u16);
               if mss = 0 then Some synOpts
               else syn_loop opts isAck (i + 4)
                 (synOpts\<lparr>so_MSS := if mss < TCPMinimumSendMSS then TCPMinimumSendMSS else mss\<rparr>) } })
        else if k = TCPOptionWS then
          (if i + 3 > length opts then Some synOpts
           else do {
             n \<leftarrow> byte_at opts (i + 1);
             if n \<noteq> 3 then Some synOpts
             else do {
               w \<leftarrow> byte_at opts (i + 2);
               let ws = int (unat w);
               syn_loop opts isAck (i + 3) (synOpts\<lparr>so_WS := if ws > MaxWndScale then MaxWndScale else ws\<rparr>) } })
        else if k = TCPOptionTS then
          (if i + 10 > length opts then Some synOpts
           else do {
             n \<leftarrow> byte_at opts (i + 1);
             if n \<noteq> 10 then Some synOpts
             else do {
               v \<leftarrow> BE_Uint32 opts (i + 2);
               e \<leftarrow> (if isAck then BE_Uint32 opts (i + 6) else Some (so_TSEcr synOpts));
               syn_loop opts isAck (i + 10)
                 (synOpts\<lparr>so_TSVal := v, so_TSEcr := e, so_TS := True\<rparr>) } })
        else if k = TCPOptionSACKPermitted then
          (if i + 2 > length opts then Some synOpts
           else do {
             n \<leftarrow> byte_at opts (i + 1);
             if n \<noteq> 2 then Some synOpts
             else syn_loop opts isAck (i + 2) (synOpts\<lparr>so_SACKPermitted := True\<rparr>) })
        else if i + 2 > length opts then Some synOpts
        else do {
          n \<leftarrow> byte_at opts (i + 1);
          let l = unat n;
          if l < 2 \<or> i + l > length opts then Some synOpts
          else syn_loop opts isAck (i + l) synOpts } }
      else Some synOpts)"
  by pat_completeness auto

termination
  by (relation "measure (\<lambda>(opts, isAck, i, s). length opts - i)") auto

definition ParseSynOptions :: "bytes \<Rightarrow> bool \<Rightarrow> TCPSynOptions option" where
  "ParseSynOptions opts isAck =
     syn_loop opts isAck 0 \<lparr>so_MSS = TCPDefaultMSS, so_WS = -1, so_TS = False, so_TSVal = 0, so_TSEcr = 0,
       so_SACKPermitted = False, so_Flags = 0\<rparr>"

fun read_blocks :: "bytes \<Rightarrow> nat \<Rightarrow> nat \<Rightarrow> SACKBlock list option" where
  "read_blocks b off 0 = Some []"
| "read_blocks b off (Suc n) = do {
     start \<leftarrow> BE_Uint32 b off;
     stop \<leftarrow> BE_Uint32 b (off + 4);
     r \<leftarrow> read_blocks b (off + 8) n;
     Some (\<lparr>sb_Start = start, sb_End = stop\<rparr> # r) }"

lemma sack_length_pos: "8 dvd uint (n :: u8) - 2 \<Longrightarrow> 0 < unat n"
  by (cases "n = 0") (simp_all add: unat_gt_0)

function options_loop :: "bytes \<Rightarrow> nat \<Rightarrow> TCPOptions \<Rightarrow> TCPOptions option" where
  "options_loop b i opts =
     (if i < length b then do {
        k \<leftarrow> byte_at b i;
        if k = TCPOptionEOL then options_loop b (length b) opts
        else if k = TCPOptionNOP then options_loop b (i + 1) opts
        else if k = TCPOptionTS then
          (if i + 10 > length b then Some opts
           else do {
             n \<leftarrow> byte_at b (i + 1);
             if n \<noteq> 10 then Some opts
             else do {
               v \<leftarrow> BE_Uint32 b (i + 2);
               e \<leftarrow> BE_Uint32 b (i + 6);
               options_loop b (i + 10) (opts\<lparr>to_TS := True, to_TSVal := v, to_TSEcr := e\<rparr>) } })
        else if k = TCPOptionSACK then
          (if i + 2 > length b then Some opts
           else do {
             n \<leftarrow> byte_at b (i + 1);
             let sackOptionLen = int (unat n);
             if int i + sackOptionLen > int (length b) \<or> (sackOptionLen - 2) mod 8 \<noteq> 0 then Some opts
             else do {
               blocks \<leftarrow> read_blocks b (i + 2) (nat ((sackOptionLen - 2) div 8));
               options_loop b (i + unat n) (opts\<lparr>to_SACKBlocks := blocks\<rparr>) } })
        else if i + 2 > length b then Some opts
        else do {
          n \<leftarrow> byte_at b (i + 1);
          let l = unat n;
          if l < 2 \<or> i + l > length b then Some opts
          else options_loop b (i + l) opts } }
      else Some opts)"
  by pat_completeness auto

termination
  by (relation "measure (\<lambda>(b, i, opts). length b - i)") (auto simp: byte_at_def split: if_splits dest: sack_length_pos)

definition ParseTCPOptions :: "bytes \<Rightarrow> TCPOptions option" where
  "ParseTCPOptions b = options_loop b 0 \<lparr>to_TS = False, to_TSVal = 0, to_TSEcr = 0, to_SACKBlocks = []\<rparr>"

definition TCP_ParsedOptions :: "TCP \<Rightarrow> TCPOptions option" where
  "TCP_ParsedOptions b = do { s \<leftarrow> TCP_Options b; ParseTCPOptions s }"

section \<open>Encoders\<close>

text \<open>The buffer after the call, and the number of bytes written.\<close>

definition EncodeMSSOption :: "u32 \<Rightarrow> bytes \<Rightarrow> (bytes \<times> nat) option" where
  "EncodeMSSOption mss b =
     (if length b < 4 then Some (b, 0)
      else do {
        b \<leftarrow> set_byte b 0 TCPOptionMSS;
        b \<leftarrow> set_byte b 1 4;
        b \<leftarrow> set_byte b 2 (ucast (drop_bit 8 mss));
        b \<leftarrow> set_byte b 3 (ucast mss);
        Some (b, 4) })"

definition EncodeWSOption :: "int \<Rightarrow> bytes \<Rightarrow> (bytes \<times> nat) option" where
  "EncodeWSOption ws b =
     (if length b < 3 then Some (b, 0)
      else do {
        b \<leftarrow> set_byte b 0 TCPOptionWS;
        b \<leftarrow> set_byte b 1 3;
        b \<leftarrow> set_byte b 2 (word_of_int ws);
        n \<leftarrow> byte_at b 1;
        Some (b, unat n) })"

definition EncodeTSOption :: "u32 \<Rightarrow> u32 \<Rightarrow> bytes \<Rightarrow> (bytes \<times> nat) option" where
  "EncodeTSOption tsVal tsEcr b =
     (if length b < 10 then Some (b, 0)
      else do {
        b \<leftarrow> set_byte b 0 TCPOptionTS;
        b \<leftarrow> set_byte b 1 10;
        b \<leftarrow> BE_PutUint32 b 2 tsVal;
        b \<leftarrow> BE_PutUint32 b 6 tsEcr;
        n \<leftarrow> byte_at b 1;
        Some (b, unat n) })"

definition EncodeSACKPermittedOption :: "bytes \<Rightarrow> (bytes \<times> nat) option" where
  "EncodeSACKPermittedOption b =
     (if length b < 2 then Some (b, 0)
      else do {
        b \<leftarrow> set_byte b 0 TCPOptionSACKPermitted;
        b \<leftarrow> set_byte b 1 2;
        n \<leftarrow> byte_at b 1;
        Some (b, unat n) })"

definition EncodeSACKBlocks :: "SACKBlock list \<Rightarrow> bytes \<Rightarrow> (bytes \<times> nat) option" where
  "EncodeSACKBlocks sackBlocks b =
     (if length sackBlocks = 0 then Some (b, 0)
      else do {
        let l = (if length sackBlocks > TCPMaxSACKBlocks then TCPMaxSACKBlocks else length sackBlocks);
        let ll = (length b - 2) div 8;
        let l = (if ll < l then ll else l);
        if l = 0 then Some (b, 0)
        else do {
          b \<leftarrow> set_byte b 0 TCPOptionSACK;
          b \<leftarrow> set_byte b 1 (word_of_nat (l * 8 + 2));
          b \<leftarrow> for_each (\<lambda>i b. do {
              b \<leftarrow> BE_PutUint32 b (i * 8 + 2) (sb_Start (sackBlocks ! i));
              BE_PutUint32 b (i * 8 + 6) (sb_End (sackBlocks ! i)) }) [0..<l] b;
          n \<leftarrow> byte_at b 1;
          Some (b, unat n) } })"

definition EncodeNOP :: "bytes \<Rightarrow> (bytes \<times> nat) option" where
  "EncodeNOP b = (if length b = 0 then Some (b, 0) else do { b \<leftarrow> set_byte b 0 TCPOptionNOP; Some (b, 1) })"

definition AddTCPOptionPadding :: "bytes \<Rightarrow> nat \<Rightarrow> (bytes \<times> nat) option" where
  "AddTCPOptionPadding options offset = do {
     let paddingToAdd = nat ((- int offset) AND 3);
     options \<leftarrow> for_each (\<lambda>i options. set_byte options i TCPOptionNOP) [offset..<offset + paddingToAdd] options;
     Some (options, paddingToAdd) }"

section \<open>The parsers end without a panic\<close>

declare syn_loop.simps [simp del] options_loop.simps [simp del]

lemma BE_Uint32_in: "off + 4 \<le> length b \<Longrightarrow> BE_Uint32 b off = Some (word_of_nat (be_nat (take 4 (drop off b))))"
  by (simp add: BE_Uint32_def)

lemma returns_ifI: "(c \<Longrightarrow> returns m Q) \<Longrightarrow> (\<not> c \<Longrightarrow> returns n Q) \<Longrightarrow> returns (if c then m else n) Q"
  by simp

definition syn_ok :: "TCPSynOptions \<Rightarrow> bool" where
  "syn_ok s \<longleftrightarrow> 48 \<le> so_MSS s \<and> -1 \<le> so_WS s \<and> so_WS s \<le> 14"

lemma syn_ok_update:
  assumes "syn_ok s"
  shows "syn_ok (s\<lparr>so_MSS := if m < 48 then 48 else m\<rparr>)" "syn_ok (s\<lparr>so_TSVal := v, so_TSEcr := e, so_TS := True\<rparr>)"
    "syn_ok (s\<lparr>so_SACKPermitted := True\<rparr>)" "syn_ok (s\<lparr>so_WS := 14\<rparr>)" "\<not> 14 < uint (w :: u8) \<Longrightarrow> syn_ok (s\<lparr>so_WS := uint w\<rparr>)"
  using assms order_trans [of "-1" 0 "uint w"] by (auto simp: syn_ok_def not_less)

lemma syn_loop_ok: "syn_ok s \<Longrightarrow> returns (syn_loop opts isAck i s) syn_ok"
proof (induction "length opts - i" arbitrary: i s rule: less_induct)
  case less
  show ?case
  proof (cases "i < length opts")
    case True
    then have IH: "i < j \<Longrightarrow> syn_ok t \<Longrightarrow> returns (syn_loop opts isAck j t) syn_ok" for j t
      using less.hyps by simp
    show ?thesis
      unfolding syn_loop.simps [of opts isAck i s] if_P [OF True] byte_at_in [OF True] Option.bind.bind_lunit
      by (intro returns_ifI) (simp_all add: byte_at_in BE_Uint32_in Let_def returns_if True less.prems IH syn_ok_update)
  qed (use less.prems in \<open>simp add: syn_loop.simps\<close>)
qed

lemma read_blocks_ok: "off + 8 * n \<le> length b \<Longrightarrow> returns (read_blocks b off n) (\<lambda>r. length r = n)"
proof (induction n arbitrary: off)
  case (Suc n)
  then have "returns (read_blocks b (off + 8) n) (\<lambda>r. length r = n)" by simp
  then show ?case using Suc.prems by (auto simp: BE_Uint32_in returns_iff)
qed simp

definition options_ok :: "nat \<Rightarrow> TCPOptions \<Rightarrow> bool" where
  "options_ok n s \<longleftrightarrow> 8 * length (to_SACKBlocks s) \<le> n"

lemma options_loop_ok: "options_ok (length b) s \<Longrightarrow> returns (options_loop b i s) (options_ok (length b))"
proof (induction "length b - i" arbitrary: i s rule: less_induct)
  case less
  show ?case
  proof (cases "i < length b")
    case True
    then have IH: "i < j \<Longrightarrow> options_ok (length b) t \<Longrightarrow> returns (options_loop b j t) (options_ok (length b))" for j t
      using less.hyps by simp
    have ts: "options_ok (length b) (s\<lparr>to_TS := True, to_TSVal := v, to_TSEcr := e\<rparr>)" for v e
      using less.prems by (simp add: options_ok_def)
    have sack: "returns (read_blocks b (i + 2) (nat ((uint n - 2) div 8))) (\<lambda>blocks.
        returns (options_loop b (i + unat n) (s\<lparr>to_SACKBlocks := blocks\<rparr>)) (options_ok (length b)))"
      if "\<not> int i + uint n > int (length b)" "(uint n - 2) mod 8 = 0" "n = b ! Suc i" for n
    proof -
      have u: "uint n = int (unat n)" by simp
      have n: "0 < unat n" using that(2) sack_length_pos by (simp add: dvd_eq_mod_eq_0)
      have le: "i + 2 + 8 * nat ((uint n - 2) div 8) \<le> length b"
      proof (cases "2 \<le> unat n")
        case True
        then have "8 * ((uint n - 2) div 8) = uint n - 2" using that(2) by (simp add: mod_eq_0_iff_dvd)
        then show ?thesis using that(1) True u by linarith
      qed (use n that(2) u in \<open>auto simp: not_le less_2_cases_iff\<close>)
      show ?thesis
        by (rule returns_mono [OF read_blocks_ok [OF le]]) (use n le in \<open>auto intro!: IH simp: options_ok_def\<close>)
    qed
    show ?thesis
      unfolding options_loop.simps [of b i s] if_P [OF True] byte_at_in [OF True] Option.bind.bind_lunit
      by (intro returns_ifI) (simp_all add: byte_at_in BE_Uint32_in Let_def returns_if True less.prems IH ts sack [simplified])
  qed (use less.prems in \<open>simp add: options_loop.simps\<close>)
qed

section \<open>Reading back what was encoded\<close>

definition sack_bytes :: "SACKBlock \<Rightarrow> bytes" where
  "sack_bytes s = u32_bytes (sb_Start s) @ u32_bytes (sb_End s)"

lemma length_sack_bytes [simp]: "length (sack_bytes s) = 8"
  by (simp add: sack_bytes_def)

lemma length_sack_list [simp]: "length (concat (map sack_bytes bs)) = 8 * length bs"
  by (induction bs) simp_all

lemma BE_Uint32_at: "off = length pre \<Longrightarrow> BE_Uint32 (pre @ u32_bytes v @ post) off = Some v"
  by (simp add: BE_Uint32_def be_nat_u32_bytes)

lemma BE_PutUint32_at:
  "off = length pre \<Longrightarrow> 4 \<le> length post \<Longrightarrow> BE_PutUint32 (pre @ post) off v = Some (pre @ u32_bytes v @ drop 4 post)"
  by (simp add: BE_PutUint32_def)

lemma read_blocks_encoded:
  "read_blocks (pre @ concat (map sack_bytes bs) @ post) (length pre) (length bs) = Some bs"
proof (induction bs arbitrary: pre)
  case (Cons s bs)
  let ?r = "concat (map sack_bytes bs) @ post"
  have "read_blocks ((pre @ sack_bytes s) @ ?r) (length pre + 8) (length bs) = Some bs"
    using Cons [of "pre @ sack_bytes s"] by simp
  moreover have "BE_Uint32 (pre @ sack_bytes s @ ?r) (length pre) = Some (sb_Start s)"
    "BE_Uint32 (pre @ sack_bytes s @ ?r) (length pre + 4) = Some (sb_End s)"
    using BE_Uint32_at [of "length pre" pre "sb_Start s" "u32_bytes (sb_End s) @ ?r"]
      BE_Uint32_at [of "length pre + 4" "pre @ u32_bytes (sb_Start s)" "sb_End s" ?r]
    by (simp_all add: sack_bytes_def [of s])
  ultimately show ?case by simp
qed simp

lemma sack_loop:
  assumes "8 * k \<le> length post" and "k \<le> length blocks" and "length pre = 2"
  shows "for_each (\<lambda>i b. do {
      b \<leftarrow> BE_PutUint32 b (i * 8 + 2) (sb_Start (blocks ! i));
      BE_PutUint32 b (i * 8 + 6) (sb_End (blocks ! i)) }) [0..<k] (pre @ post) =
    Some (pre @ concat (map sack_bytes (take k blocks)) @ drop (8 * k) post)"
  using assms
proof (induction k)
  case (Suc k)
  let ?p = "pre @ concat (map sack_bytes (take k blocks))" and ?q = "drop (8 * k) post"
  have l: "length ?p = k * 8 + 2" using Suc.prems by simp
  have "BE_PutUint32 (?p @ ?q) (k * 8 + 2) (sb_Start (blocks ! k)) =
      Some ((?p @ u32_bytes (sb_Start (blocks ! k))) @ drop 4 ?q)"
    using l Suc.prems by (subst BE_PutUint32_at) simp_all
  moreover have "BE_PutUint32 ((?p @ u32_bytes (sb_Start (blocks ! k))) @ drop 4 ?q) (k * 8 + 6) (sb_End (blocks ! k)) =
      Some ((?p @ u32_bytes (sb_Start (blocks ! k))) @ u32_bytes (sb_End (blocks ! k)) @ drop 4 (drop 4 ?q))"
    using l Suc.prems by (intro BE_PutUint32_at) simp_all
  ultimately show ?case
    using Suc by (simp add: for_each_snoc take_Suc_conv_app_nth sack_bytes_def [of "blocks ! k"] add.commute)
qed simp

lemma EncodeSACKBlocks_eq:
  assumes "blocks \<noteq> []" and "10 \<le> length b"
  defines "l \<equiv> min (min 4 (length blocks)) ((length b - 2) div 8)"
  shows "EncodeSACKBlocks blocks b = Some ([5, word_of_nat (8 * l + 2)] @ concat (map sack_bytes (take l blocks)) @
    drop (8 * l + 2) b, 8 * l + 2)" and "0 < l" and "l \<le> 4"
proof -
  have "1 \<le> (length b - 2) div 8" using assms(2) by linarith
  then show l: "0 < l" "l \<le> 4" using assms(1) by (auto simp: l_def Suc_le_eq)
  have u: "unat (word_of_nat (8 * l + 2) :: u8) = 8 * l + 2" using l by (intro unat_of_nat_u8) simp
  have "8 * l \<le> length b - 2" "l \<le> length blocks"
    using times_div_less_eq_dividend [of 8 "length b - 2"] by (auto simp: l_def min_def)
  note loop = sack_loop [OF this(1) [unfolded length_drop [symmetric]] this(2), of "[5, word_of_nat (8 * l + 2)]"]
  obtain x y r where b: "b = x # y # r" using assms(2) by (cases b; cases "tl b") auto
  have h: "drop (8 * l + 2) b = drop (8 * l) (drop 2 b)" by simp
  have m: "(let l = if 4 < length blocks then 4 else length blocks in let ll = (length b - 2) div 8 in
      let l = if ll < l then ll else l in f l) = f l" for f :: "nat \<Rightarrow> (bytes \<times> nat) option"
    by (simp add: l_def min_def Let_def)
  show "EncodeSACKBlocks blocks b = Some ([5, word_of_nat (8 * l + 2)] @ concat (map sack_bytes (take l blocks)) @
      drop (8 * l + 2) b, 8 * l + 2)"
    unfolding EncodeSACKBlocks_def m h using loop l u assms(1) b
    by (simp add: set_byte_def byte_at_def mult.commute del: of_nat_add of_nat_mult)
qed

section \<open>Properties\<close>

text \<open>
  C31. On every byte sequence the two option parsers end without a panic; the segment size they
  return is at least 48, the window scale is \<^verbatim>\<open>-1\<close> or at most 14, and the selective acknowledgement
  blocks fit in the options.
\<close>

theorem option_parsers_total:
  "(\<exists>s. ParseSynOptions opts isAck = Some s \<and> 48 \<le> so_MSS s \<and> -1 \<le> so_WS s \<and> so_WS s \<le> 14) \<and>
   (\<exists>t. ParseTCPOptions opts = Some t \<and> 8 * length (to_SACKBlocks t) \<le> length opts)"
  using syn_loop_ok [of "\<lparr>so_MSS = 536, so_WS = -1, so_TS = False, so_TSVal = 0, so_TSEcr = 0,
      so_SACKPermitted = False, so_Flags = 0\<rparr>" opts isAck 0]
    options_loop_ok [of opts "\<lparr>to_TS = False, to_TSVal = 0, to_TSEcr = 0, to_SACKBlocks = []\<rparr>" 0]
  by (auto simp: ParseSynOptions_def ParseTCPOptions_def returns_iff syn_ok_def options_ok_def)

text \<open>
  C32. \<open>EncodeSACKBlocks\<close> writes as many of the blocks as fit, at most four, and leaves the rest of
  the buffer alone; \<open>ParseTCPOptions\<close> reads exactly these blocks back.
\<close>

theorem SACK_roundtrip:
  assumes "blocks \<noteq> []" and "10 \<le> length b"
  shows "\<exists>b' n. EncodeSACKBlocks blocks b = Some (b', n) \<and> drop n b' = drop n b \<and>
    ParseTCPOptions (take n b') = Some \<lparr>to_TS = False, to_TSVal = 0, to_TSEcr = 0,
      to_SACKBlocks = take (min 4 ((length b - 2) div 8)) blocks\<rparr>"
proof -
  define l where "l = min (min 4 (length blocks)) ((length b - 2) div 8)"
  define w where "w = (word_of_nat (8 * l + 2) :: u8)"
  note e = EncodeSACKBlocks_eq [OF assms, folded l_def, folded w_def]
  define s where "s = [5, w] @ concat (map sack_bytes (take l blocks))"
  have u: "unat w = 8 * l + 2" unfolding w_def using e(3) by (intro unat_of_nat_u8) simp
  then have ui: "uint w = 8 * int l + 2" by (metis of_nat_add of_nat_mult of_nat_numeral uint_nat)
  have t: "length (take l blocks) = l" "take l blocks = take (min 4 ((length b - 2) div 8)) blocks"
    by (auto simp: l_def min_def)
  have rb: "read_blocks s (Suc (Suc 0)) l = Some (take l blocks)"
    using read_blocks_encoded [of "[5, w]" "take l blocks" "[]"] t(1) by (simp add: s_def)
  have len: "length s = 8 * l + 2" using t(1) by (simp add: s_def del: length_take)
  have at: "byte_at s 0 = Some 5" "byte_at s (0 + 1) = Some w"
    by (simp_all add: byte_at_def s_def)
  have stop: "options_loop s (0 + (8 * l + 2)) x = Some x" for x
    unfolding options_loop.simps [of s "0 + (8 * l + 2)"] using len by simp
  have "ParseTCPOptions s = Some \<lparr>to_TS = False, to_TSVal = 0, to_TSEcr = 0, to_SACKBlocks = take l blocks\<rparr>"
    unfolding ParseTCPOptions_def options_loop.simps [of s 0] at len
    using rb u ui stop by (simp add: Let_def)
  moreover have "EncodeSACKBlocks blocks b = Some (s @ drop (length s) b, length s)"
    using e(1) len by (simp add: s_def)
  ultimately show ?thesis using t(2) by simp
qed

theorem SACK_roundtrip_witness:
  "\<exists>b' n. EncodeSACKBlocks [\<lparr>sb_Start = 7, sb_End = 9\<rparr>] (replicate 12 0) = Some (b', n) \<and>
    ParseTCPOptions (take n b') = Some \<lparr>to_TS = False, to_TSVal = 0, to_TSEcr = 0, to_SACKBlocks = [\<lparr>sb_Start = 7, sb_End = 9\<rparr>]\<rparr>"
  using SACK_roundtrip [of "[\<lparr>sb_Start = 7, sb_End = 9\<rparr>]" "replicate 12 0"] by auto

end
