(* ===== verification/IPv6_Ext.thy ===== *)
theory IPv6_Ext
  imports Go_Prelude
begin

text \<open>
  The IPv6 extension headers of \<^verbatim>\<open>internal/gtcpip/header/ipv6_extension_headers.go\<close> and
  \<^verbatim>\<open>ipv6_fragment.go\<close>: the accessors of a fragment header, the padding arithmetic of hop-by-hop
  options and the serializer that chains extension headers. The Go interfaces
  \<^verbatim>\<open>IPv6SerializableExtHdr\<close> and \<^verbatim>\<open>IPv6SerializableHopByHopOption\<close> are closed (unexported methods), so
  they are datatypes with one constructor per implementation. A serializer writes into the buffer
  from an offset on; the offset stands for the Go sub-slice that starts there.
\<close>

section \<open>Fragment headers\<close>

text \<open>\<^verbatim>\<open>IPv6FragmentExtHdr\<close>, the six bytes after the next-header and reserved fields.\<close>

type_synonym IPv6FragmentExtHdr = bytes

definition ExtHdr_FragmentOffset :: "IPv6FragmentExtHdr \<Rightarrow> u16 option" where
  "ExtHdr_FragmentOffset b = do { v \<leftarrow> BE_Uint16 b 0; Some (drop_bit 3 v) }"

definition ExtHdr_More :: "IPv6FragmentExtHdr \<Rightarrow> bool option" where
  "ExtHdr_More b = do { v \<leftarrow> byte_at b 1; Some (v AND 1 \<noteq> 0) }"

definition ExtHdr_ID :: "IPv6FragmentExtHdr \<Rightarrow> u32 option" where
  "ExtHdr_ID b = BE_Uint32 b 2"

definition IsAtomic :: "IPv6FragmentExtHdr \<Rightarrow> bool option" where
  "IsAtomic b = do {
     m \<leftarrow> ExtHdr_More b;
     if m then Some False else do { off \<leftarrow> ExtHdr_FragmentOffset b; Some (off = 0) } }"

text \<open>\<^verbatim>\<open>IPv6Fragment\<close>, the fragment header with its next-header field.\<close>

type_synonym IPv6Fragment = bytes

abbreviation (input) IPv6FragmentHeaderSize :: nat where "IPv6FragmentHeaderSize \<equiv> 8"
abbreviation (input) IPv6FragmentHeader :: u8 where "IPv6FragmentHeader \<equiv> 44"
abbreviation (input) nextHdrFrag :: nat where "nextHdrFrag \<equiv> 0"
abbreviation (input) fragOff :: nat where "fragOff \<equiv> 2"
abbreviation (input) moreOff :: nat where "moreOff \<equiv> 3"
abbreviation (input) idV6 :: nat where "idV6 \<equiv> 4"

definition Fragment_IsValid :: "IPv6Fragment \<Rightarrow> bool" where
  "Fragment_IsValid b = (length b \<ge> IPv6FragmentHeaderSize)"

definition Fragment_NextHeader :: "IPv6Fragment \<Rightarrow> u8 option" where
  "Fragment_NextHeader b = byte_at b nextHdrFrag"

definition Fragment_FragmentOffset :: "IPv6Fragment \<Rightarrow> u16 option" where
  "Fragment_FragmentOffset b = do { v \<leftarrow> BE_Uint16 b fragOff; Some (drop_bit 3 v) }"

definition Fragment_More :: "IPv6Fragment \<Rightarrow> bool option" where
  "Fragment_More b = do { v \<leftarrow> byte_at b moreOff; Some (v AND 1 > 0) }"

definition Fragment_Payload :: "IPv6Fragment \<Rightarrow> bytes option" where
  "Fragment_Payload b = slice_from b IPv6FragmentHeaderSize"

definition Fragment_ID :: "IPv6Fragment \<Rightarrow> u32 option" where
  "Fragment_ID b = BE_Uint32 b idV6"

definition Fragment_TransportProtocol :: "IPv6Fragment \<Rightarrow> u32 option" where
  "Fragment_TransportProtocol b = do { p \<leftarrow> Fragment_NextHeader b; Some (ucast p) }"

section \<open>Padding\<close>

definition padIPv6OptionsLength :: "int \<Rightarrow> int" where
  "padIPv6OptionsLength len = (len + 8 - 1) AND NOT (8 - 1)"

definition ipv6OptionsAlignmentPadding :: "int \<Rightarrow> int \<Rightarrow> int \<Rightarrow> int" where
  "ipv6OptionsAlignmentPadding headerOffset align alignOffset = (
     let padLen = headerOffset - alignOffset
     in ((padLen + align - 1) AND NOT (align - 1)) - padLen)"

text \<open>
  Pad1 for a single byte, PadN with a cleared payload otherwise. \<^verbatim>\<open>ClearArray\<close> of the library sing sets the bytes of a slice to zero.
\<close>

definition padIPv6Option :: "bytes \<Rightarrow> bytes option" where
  "padIPv6Option b =
     (if length b = 0 then Some b
      else if length b = 1 then set_byte b 0 0
      else do {
        s \<leftarrow> slice_from b 2;
        b \<leftarrow> Some (take 2 b @ replicate (length s) 0);
        b \<leftarrow> set_byte b 0 1;
        set_byte b 1 (word_of_nat (length s)) })"

definition ipv6UnknownActionFromIdentifier :: "u8 \<Rightarrow> int" where
  "ipv6UnknownActionFromIdentifier oid = uint (drop_bit 6 (oid AND 192))"

section \<open>Hop-by-hop options\<close>

datatype IPv6SerializableHopByHopOption = IPv6RouterAlertOption u16

definition option_identifier :: "IPv6SerializableHopByHopOption \<Rightarrow> u8" where
  "option_identifier opt = (case opt of IPv6RouterAlertOption _ \<Rightarrow> 5)"

definition option_length :: "IPv6SerializableHopByHopOption \<Rightarrow> u8" where
  "option_length opt = (case opt of IPv6RouterAlertOption _ \<Rightarrow> 2)"

definition option_alignment :: "IPv6SerializableHopByHopOption \<Rightarrow> int \<times> int" where
  "option_alignment opt = (case opt of IPv6RouterAlertOption _ \<Rightarrow> (2, 0))"

definition RouterAlert_UnknownAction :: int where
  "RouterAlert_UnknownAction = ipv6UnknownActionFromIdentifier 5"

definition option_serializeInto :: "IPv6SerializableHopByHopOption \<Rightarrow> bytes \<Rightarrow> (u8 \<times> bytes) option" where
  "option_serializeInto opt b = (case opt of IPv6RouterAlertOption v \<Rightarrow>
     do { b \<leftarrow> BE_PutUint16 b 0 v; Some (2, b) })"

type_synonym IPv6SerializableHopByHopExtHdr = "IPv6SerializableHopByHopOption list"

definition HopByHop_length :: "IPv6SerializableHopByHopExtHdr \<Rightarrow> int" where
  "HopByHop_length h = (
     let total = fold (\<lambda>opt total.
       let (align, alignOffset) = option_alignment opt;
           total = total + ipv6OptionsAlignmentPadding total align alignOffset
       in total + (2 + uint (option_length opt))) h 0
     in padIPv6OptionsLength (2 + total))"

text \<open>
  One round of the loop: \<open>o\<close> is where \<^verbatim>\<open>optBuffer\<close> starts in \<^verbatim>\<open>b\<close>. A negative slice bound is a
  panic.
\<close>

definition serialize_option ::
    "IPv6SerializableHopByHopOption \<Rightarrow> bytes \<times> nat \<times> int \<Rightarrow> (bytes \<times> nat \<times> int) option" where
  "serialize_option opt st = (case st of (b, o', totalLength) \<Rightarrow> do {
     let (align, alignOffset) = option_alignment opt;
     let padLen = ipv6OptionsAlignmentPadding totalLength align alignOffset;
     (b, o', totalLength) \<leftarrow>
       (if padLen \<noteq> 0 then do {
          _ \<leftarrow> guard_panic (padLen < 0);
          b \<leftarrow> on_slice o' (o' + nat padLen) padIPv6Option b;
          Some (b, o' + nat padLen, totalLength + padLen) }
        else Some (b, o', totalLength));
     s \<leftarrow> slice_from b (o' + 2);
     (l, s) \<leftarrow> option_serializeInto opt s;
     b \<leftarrow> Some (take (o' + 2) b @ s);
     b \<leftarrow> set_byte b o' (option_identifier opt);
     b \<leftarrow> set_byte b (o' + 1) l;
     let l = l + 2;
     _ \<leftarrow> slice_from b (o' + unat l);
     Some (b, o' + unat l, totalLength + uint l) })"

definition HopByHop_serializeInto ::
    "IPv6SerializableHopByHopExtHdr \<Rightarrow> u8 \<Rightarrow> bytes \<Rightarrow> (int \<times> bytes) option" where
  "HopByHop_serializeInto h nextHeader b = do {
     _ \<leftarrow> slice_from b 2;
     (b, o', totalLength) \<leftarrow> for_each serialize_option h (b, 2, 2);
     let padded = padIPv6OptionsLength totalLength;
     (b, totalLength) \<leftarrow>
       (if padded \<noteq> totalLength then do {
          _ \<leftarrow> guard_panic (padded < totalLength);
          b \<leftarrow> on_slice o' (o' + nat (padded - totalLength)) padIPv6Option b;
          Some (b, padded) }
        else Some (b, totalLength));
     let wordsLen = totalLength div 8 - 1;
     _ \<leftarrow> guard_panic (wordsLen > 255);
     b \<leftarrow> set_byte b 0 nextHeader;
     b \<leftarrow> set_byte b 1 (word_of_int wordsLen);
     Some (totalLength, b) }"

section \<open>Extension headers\<close>

record IPv6SerializableFragmentExtHdr =
  fr_FragmentOffset :: u16
  fr_M :: bool
  fr_Identification :: u32

definition FragmentExt_serializeInto ::
    "IPv6SerializableFragmentExtHdr \<Rightarrow> u8 \<Rightarrow> bytes \<Rightarrow> (int \<times> bytes) option" where
  "FragmentExt_serializeInto h nextHeader b = do {
     _ \<leftarrow> slice_from b IPv6FragmentHeaderSize;
     b \<leftarrow> BE_PutUint32 b idV6 (fr_Identification h);
     b \<leftarrow> BE_PutUint16 b fragOff (push_bit 3 (fr_FragmentOffset h));
     b \<leftarrow> set_byte b nextHdrFrag nextHeader;
     b \<leftarrow> (if fr_M h then do { m \<leftarrow> byte_at b moreOff; set_byte b moreOff (m OR 1) } else Some b);
     Some (8, b) }"

datatype IPv6SerializableExtHdr =
  HopByHopExtHdr IPv6SerializableHopByHopExtHdr
| FragmentExtHdr IPv6SerializableFragmentExtHdr

definition ext_identifier :: "IPv6SerializableExtHdr \<Rightarrow> u8" where
  "ext_identifier h = (case h of HopByHopExtHdr _ \<Rightarrow> 0 | FragmentExtHdr _ \<Rightarrow> IPv6FragmentHeader)"

definition ext_length :: "IPv6SerializableExtHdr \<Rightarrow> int" where
  "ext_length h = (case h of HopByHopExtHdr os \<Rightarrow> HopByHop_length os | FragmentExtHdr _ \<Rightarrow> 8)"

definition ext_serializeInto :: "IPv6SerializableExtHdr \<Rightarrow> u8 \<Rightarrow> bytes \<Rightarrow> (int \<times> bytes) option" where
  "ext_serializeInto h nextHeader b = (case h of
     HopByHopExtHdr os \<Rightarrow> HopByHop_serializeInto os nextHeader b
   | FragmentExtHdr f \<Rightarrow> FragmentExt_serializeInto f nextHeader b)"

type_synonym IPv6ExtHdrSerializer = "IPv6SerializableExtHdr list"

definition ExtHdr_Length :: "IPv6ExtHdrSerializer \<Rightarrow> int" where
  "ExtHdr_Length s = fold (\<lambda>h totalLength. totalLength + ext_length h) s 0"

text \<open>The loop of \<^verbatim>\<open>Serialize\<close>: every header names its successor, the last one the transport.\<close>

fun serialize_chain :: "IPv6ExtHdrSerializer \<Rightarrow> u8 \<Rightarrow> bytes \<Rightarrow> (int \<times> bytes) option" where
  "serialize_chain [] nextHeader b = Some (0, b)"
| "serialize_chain [h] nextHeader b = ext_serializeInto h nextHeader b"
| "serialize_chain (h # h' # s) nextHeader b = do {
     (len, b) \<leftarrow> ext_serializeInto h (ext_identifier h') b;
     _ \<leftarrow> guard_panic (len < 0);
     rest \<leftarrow> slice_from b (nat len);
     (totalLength, rest) \<leftarrow> serialize_chain (h' # s) nextHeader rest;
     Some (len + totalLength, take (nat len) b @ rest) }"

definition ExtHdr_Serialize :: "IPv6ExtHdrSerializer \<Rightarrow> u32 \<Rightarrow> bytes \<Rightarrow> ((u8 \<times> int) \<times> bytes) option" where
  "ExtHdr_Serialize s transportProtocol b = (
     let nextHeader = ucast transportProtocol
     in case s of
       [] \<Rightarrow> Some ((nextHeader, 0), b)
     | h # _ \<Rightarrow> do {
         (totalLength, b) \<leftarrow> serialize_chain s nextHeader b;
         Some ((ext_identifier h, totalLength), b) })"

section \<open>What the serializers write\<close>

lemma and_not_mask: "x AND NOT (2 ^ n - 1) = x - x mod 2 ^ n" for x :: int
proof -
  have "x AND NOT (mask n) = push_bit n (drop_bit n x)"
    by (rule bit_eqI) (auto simp: bit_simps)
  then show ?thesis
    using bits_ident [of n x] by (simp add: mask_eq_exp_minus_1 take_bit_eq_mod)
qed

lemma padIPv6OptionsLength_eq: "padIPv6OptionsLength len = (len + 7) div 8 * 8"
  using and_not_mask [of "len + 7" 3] by (simp add: padIPv6OptionsLength_def add.commute minus_mod_eq_div_mult)

lemma alignment_padding_2: "ipv6OptionsAlignmentPadding off 2 0 = off mod 2"
proof -
  have "(off + 1) AND - 2 = off + 1 - (off + 1) mod 2"
    using and_not_mask [of "off + 1" 1] by simp
  moreover have "off + 1 - (off + 1) mod 2 - off = off mod 2" by presburger
  ultimately show ?thesis by (simp add: ipv6OptionsAlignmentPadding_def add.commute)
qed

definition option_bytes :: "IPv6SerializableHopByHopOption \<Rightarrow> bytes" where
  "option_bytes opt = (case opt of IPv6RouterAlertOption v \<Rightarrow> [5, 2, hi8 v, lo8 v])"

definition options_bytes :: "IPv6SerializableHopByHopExtHdr \<Rightarrow> bytes" where
  "options_bytes h = concat (map option_bytes h)"

definition options_pad :: "IPv6SerializableHopByHopExtHdr \<Rightarrow> bytes" where
  "options_pad h = (if odd (length h) then [1, 0] else [1, 4, 0, 0, 0, 0])"

text \<open>The size of a hop-by-hop header with \<open>n\<close> router alert options, in eight-byte words.\<close>

definition hbh_words :: "nat \<Rightarrow> nat" where
  "hbh_words n = n div 2 + 1"

lemma length_option_bytes [simp]: "length (option_bytes opt) = 4"
  by (cases opt) (simp add: option_bytes_def)

lemma length_options_bytes [simp]: "length (options_bytes h) = 4 * length h"
  by (induction h) (simp_all add: options_bytes_def)

lemma length_options_pad: "2 + 4 * length h + length (options_pad h) = 8 * hbh_words (length h)"
  by (auto simp: options_pad_def hbh_words_def elim!: evenE oddE)

lemma hbh_padded: "padIPv6OptionsLength (2 + 4 * int n) = 8 * int (hbh_words n)"
  unfolding padIPv6OptionsLength_eq hbh_words_def by (cases "even n") (auto elim!: evenE oddE)

lemma HopByHop_length_eq: "HopByHop_length h = 8 * int (hbh_words (length h))"
proof -
  have "fold (\<lambda>opt total. let (align, alignOffset) = option_alignment opt;
           total = total + ipv6OptionsAlignmentPadding total align alignOffset
       in total + (2 + uint (option_length opt))) h t = t + 4 * int (length h)" if "even t" for t
    using that
  proof (induction h arbitrary: t)
    case (Cons opt h)
    then show ?case
      by (cases opt) (simp add: option_alignment_def option_length_def alignment_padding_2)
  qed simp
  from this [of 0] show ?thesis by (simp add: HopByHop_length_def hbh_padded)
qed

lemma serialize_option_eq:
  assumes "even o'" and "o' + 4 \<le> length b"
  shows "serialize_option opt (b, o', int o') =
    Some (take o' b @ option_bytes opt @ drop (o' + 4) b, o' + 4, int (o' + 4))"
proof -
  obtain v where opt: "opt = IPv6RouterAlertOption v" by (cases opt)
  define p where "p = take o' b"
  define q where "q = drop o' b"
  have "4 \<le> length q" using assms(2) by (simp add: q_def)
  then obtain x y z w r where d: "drop o' b = x # y # z # w # r"
    unfolding q_def [symmetric] by (auto simp: Suc_le_length_iff eval_nat_numeral)
  then have b': "b = p @ x # y # z # w # r" by (metis p_def append_take_drop_id)
  have "drop 4 (drop o' b) = r" by (simp add: d eval_nat_numeral)
  then have r: "drop (o' + 4) b = r" by (simp add: add.commute)
  have "length p = o'" using assms(2) by (simp add: p_def)
  then show ?thesis
    unfolding p_def [symmetric] r opt using assms(1)
    by (simp add: b' serialize_option_def option_alignment_def alignment_padding_2 option_serializeInto_def
        option_identifier_def option_bytes_def go_defs list_update_append nth_append)
qed

lemma serialize_options_eq:
  assumes "even o'" and "o' + 4 * length h \<le> length b"
  shows "for_each serialize_option h (b, o', int o') =
    Some (take o' b @ options_bytes h @ drop (o' + 4 * length h) b, o' + 4 * length h, int (o' + 4 * length h))"
  using assms
proof (induction h arbitrary: b o')
  case (Cons opt h)
  let ?b = "take o' b @ option_bytes opt @ drop (o' + 4) b"
  have l: "length (take o' b @ option_bytes opt) = o' + 4" using Cons.prems by simp
  have "drop (o' + 4 + k) ?b = drop (o' + 4 + k) b" for k
    using l by (simp add: ac_simps)
  moreover have "take (o' + 4) ?b = take o' b @ option_bytes opt" using l by simp
  moreover have "o' + 4 * length (opt # h) = o' + 4 + 4 * length h" by simp
  ultimately show ?case
    using Cons.prems Cons.IH [of "o' + 4" ?b]
    by (simp only: for_each.simps serialize_option_eq bind.bind_lunit) (simp add: options_bytes_def)
qed (simp add: options_bytes_def)

lemma padIPv6Option_eq:
  "length s = 2 \<Longrightarrow> padIPv6Option s = Some [1, 0]"
  "length s = 6 \<Longrightarrow> padIPv6Option s = Some [1, 4, 0, 0, 0, 0]"
  by (auto simp: padIPv6Option_def go_defs length_Suc_conv eval_nat_numeral)

lemma padIPv6Option_options:
  "length s = length (options_pad h) \<Longrightarrow> padIPv6Option s = Some (options_pad h)"
  by (auto simp: options_pad_def padIPv6Option_eq split: if_splits)

lemma on_slice_append:
  "length p = lo \<Longrightarrow> lo \<le> hi \<Longrightarrow> hi \<le> length b \<Longrightarrow>
   on_slice lo hi f (p @ drop lo b) = f (take (hi - lo) (drop lo b)) \<bind> (\<lambda>s. Some (p @ s @ drop hi b))"
  by (simp add: on_slice_def slice_def)

lemma HopByHop_serializeInto_eq:
  assumes "length h \<le> 511" and "8 * hbh_words (length h) \<le> length b"
  shows "HopByHop_serializeInto h nextHeader b = Some (8 * int (hbh_words (length h)),
    nextHeader # word_of_nat (hbh_words (length h) - 1) # options_bytes h @ options_pad h @
    drop (8 * hbh_words (length h)) b)"
proof -
  define n w where "n = 2 + 4 * length h" and "w = hbh_words (length h)"
  have w: "n + length (options_pad h) = 8 * w" "n < 8 * w" "1 \<le> w" "w \<le> 256" "2 \<le> n"
    using length_options_pad [of h] assms(1) by (simp_all add: options_pad_def hbh_words_def n_def w_def)
  have pad: "padIPv6OptionsLength (int n) = 8 * int w" using hbh_padded [of "length h"] by (simp add: n_def w_def)
  have b: "8 * w \<le> length b" using assms(2) by (simp add: w_def)
  then have t: "take 2 b = [b ! 0, b ! 1]"
    using w by (cases b; cases "tl b") (auto simp: numeral_2_eq_2)
  have "for_each serialize_option h (b, 2, 2) = Some (take 2 b @ options_bytes h @ drop n b, n, int n)"
    using serialize_options_eq [of 2 h b] w b by (simp add: n_def)
  moreover have "on_slice n (8 * w) padIPv6Option (take 2 b @ options_bytes h @ drop n b) =
      Some (take 2 b @ options_bytes h @ options_pad h @ drop (8 * w) b)"
  proof -
    have "length (take 2 b @ options_bytes h) = n" using w b by (simp add: n_def)
    moreover have "padIPv6Option (take (8 * w - n) (drop n b)) = Some (options_pad h)"
      using w(1) b by (intro padIPv6Option_options) simp
    ultimately show ?thesis
      using on_slice_append [of "take 2 b @ options_bytes h" n "8 * w" b padIPv6Option] w b by simp
  qed
  moreover have "n + nat (8 * int w - int n) = 8 * w" "8 * int w \<noteq> int n" "\<not> 8 * int w < int n"
    using w by linarith+
  ultimately show ?thesis
    using w(3,4,5) b t pad unfolding w_def [symmetric]
    by (simp add: HopByHop_serializeInto_def slice_from_def set_byte_def Let_def of_nat_diff)
qed

lemma FragmentExt_serializeInto_eq:
  assumes "8 \<le> length b"
  shows "FragmentExt_serializeInto f nextHeader b = Some (8,
    [nextHeader, b ! 1, hi8 (push_bit 3 (fr_FragmentOffset f)),
     lo8 (push_bit 3 (fr_FragmentOffset f)) OR (if fr_M f then 1 else 0)] @
    u32_bytes (fr_Identification f) @ drop 8 b)"
proof -
  obtain p q r t where b: "take 4 b = [p, q, r, t]"
    using assms by (auto simp: length_Suc_conv eval_nat_numeral Suc_le_length_iff)
  then have "b ! 1 = q" using nth_take [of 1 4 b] by simp
  with b show ?thesis
    using assms by (simp add: FragmentExt_serializeInto_def go_defs nth_append)
qed

section \<open>Reading a chain back\<close>

text \<open>
  A reader of extension headers after RFC 8200: the options of a hop-by-hop header up to its length
  field with padding skipped, the fields of a fragment header, and a chain of \<open>n\<close> headers that
  starts with the identifier \<open>i\<close>, with the identifier that follows it and its size.
\<close>

function read_options :: "bytes \<Rightarrow> IPv6SerializableHopByHopExtHdr option" where
  "read_options b = (case b of
     [] \<Rightarrow> Some []
   | t # r \<Rightarrow>
       if t = 0 then read_options r
       else (case r of
         [] \<Rightarrow> None
       | l # d \<Rightarrow>
           if t = 1 then read_options (drop (unat l) d)
           else if t = 5 \<and> l = 2 \<and> 2 \<le> length d
           then map_option (Cons (IPv6RouterAlertOption (be16 (d ! 0) (d ! 1)))) (read_options (drop 2 d))
           else None))"
  by pat_completeness auto
termination by (relation "measure length") auto

declare read_options.simps [simp del]

fun read_chain :: "nat \<Rightarrow> u8 \<Rightarrow> bytes \<Rightarrow> (IPv6ExtHdrSerializer \<times> u8 \<times> nat) option" where
  "read_chain 0 i b = Some ([], i, 0)"
| "read_chain (Suc n) i b =
     (if i = 0 then do {
        nextHeader \<leftarrow> byte_at b 0;
        w \<leftarrow> byte_at b 1;
        let len = 8 * unat w + 8;
        s \<leftarrow> slice b 2 len;
        os \<leftarrow> read_options s;
        (hs, l, m) \<leftarrow> read_chain n nextHeader (drop len b);
        Some (HopByHopExtHdr os # hs, l, len + m) }
      else if i = 44 then do {
        nextHeader \<leftarrow> Fragment_NextHeader b;
        off \<leftarrow> Fragment_FragmentOffset b;
        mf \<leftarrow> Fragment_More b;
        ident \<leftarrow> Fragment_ID b;
        (hs, l, m) \<leftarrow> read_chain n nextHeader (drop 8 b);
        Some (FragmentExtHdr \<lparr>fr_FragmentOffset = off, fr_M = mf, fr_Identification = ident\<rparr> # hs, l, 8 + m) }
      else None)"

definition ext_ok :: "IPv6SerializableExtHdr \<Rightarrow> bool" where
  "ext_ok h = (case h of HopByHopExtHdr os \<Rightarrow> length os \<le> 511 | FragmentExtHdr f \<Rightarrow> unat (fr_FragmentOffset f) < 8192)"

lemma read_options_bytes: "read_options (options_bytes h @ r) = map_option ((@) h) (read_options r)"
proof (induction h)
  case (Cons opt h)
  then show ?case
    by (cases opt, cases "read_options r")
      (simp_all add: options_bytes_def option_bytes_def read_options.simps [of "5 # _"])
qed (simp add: options_bytes_def option.map_ident)

lemma read_options_pad: "read_options (options_pad h) = Some []"
proof -
  have "read_options [] = Some []" by (simp add: read_options.simps)
  then show ?thesis by (simp add: options_pad_def read_options.simps [of "1 # _"])
qed

lemma fragment_offset_bits:
  fixes v :: u16
  assumes "unat v < 8192"
  shows "drop_bit 3 (be16 (hi8 (push_bit 3 v)) (lo8 (push_bit 3 v) OR (if m then 1 else 0))) = v"
    and "0 < (lo8 (push_bit 3 v) OR (if m then 1 else 0)) AND 1 \<longleftrightarrow> m"
proof -
  let ?p = "push_bit 3 v"
  have p: "unat ?p = 8 * unat v"
    using assms by (simp add: push_bit_eq_mult unat_word_ariths)
  have lo: "unat (lo8 ?p) = 8 * (unat v mod 32)"
    using mult_mod_right [of 8 "unat v" 32] by (simp add: p)
  have "\<not> bit (unat (lo8 ?p)) 0" unfolding lo by (simp add: bit_0)
  then have ev: "even (lo8 ?p)" unfolding bit_unsigned_iff by (simp add: bit_0)
  have x: "unat (lo8 ?p OR (if m then 1 else 0)) = 8 * (unat v mod 32) + (if m then 1 else 0)"
    using ev lo by (simp add: or_one_eq unat_word_ariths)
  have "unat (drop_bit 3 (be16 (hi8 ?p) (lo8 ?p OR (if m then 1 else 0)))) = unat v"
  proof -
    have "8 * unat v div 256 = unat v div 32" by simp
    then have "256 * (8 * unat v div 256) + (8 * (unat v mod 32) + k) = 8 * unat v + k" for k :: nat
      using div_mult_mod_eq [of "unat v" 32] by linarith
    moreover have "(8 * unat v + (if m then 1 else 0)) div 2 ^ 3 = unat v" by (cases m) simp_all
    ultimately show ?thesis unfolding unat_drop_bit unat_be16 x unat_hi8 p by (simp only:)
  qed
  then show "drop_bit 3 (be16 (hi8 ?p) (lo8 ?p OR (if m then 1 else 0))) = v"
    by (rule unsigned_word_eqI)
  show "0 < (lo8 ?p OR (if m then 1 else 0)) AND 1 \<longleftrightarrow> m"
    using ev by (simp add: and_one_eq or_one_eq mod2_eq_if)
qed

lemma ext_serializeInto_read:
  assumes "ext_ok h" and "nat (ext_length h) \<le> length b"
  shows "\<exists>b'. ext_serializeInto h nextHeader b = Some (ext_length h, b' @ drop (nat (ext_length h)) b) \<and>
    length b' = nat (ext_length h) \<and>
    (\<forall>n r. read_chain (Suc n) (ext_identifier h) (b' @ r) =
       map_option (\<lambda>(hs, l, m). (h # hs, l, nat (ext_length h) + m)) (read_chain n nextHeader r))"
proof (cases h)
  case (HopByHopExtHdr os)
  let ?w = "hbh_words (length os)" and ?x = "word_of_nat (hbh_words (length os) - 1) :: u8"
  let ?b = "nextHeader # ?x # options_bytes os @ options_pad os"
  have w: "2 + 4 * length os + length (options_pad os) = 8 * ?w" "length os \<le> 511"
    using length_options_pad [of os] assms(1) HopByHopExtHdr by (simp_all add: ext_ok_def)
  have x: "8 * unat ?x + 8 = 8 * ?w"
    using w(2) by (subst unat_of_nat_u8) (simp_all add: hbh_words_def)
  have l: "length ?b = 8 * ?w" using w(1) by simp
  moreover have "nat (8 * int ?w) = 8 * ?w" by simp
  moreover have "read_options (options_bytes os @ options_pad os) = Some os"
    by (simp add: read_options_bytes read_options_pad)
  moreover have "slice (?b @ r) 2 (8 * ?w) = Some (options_bytes os @ options_pad os)" for r
    using w(1) by (simp add: slice_def)
  moreover have "drop (8 * ?w) (?b @ r) = r" for r
    using drop_append [of "8 * ?w" ?b r] l by simp
  ultimately show ?thesis
    using HopByHopExtHdr assms(2) HopByHop_serializeInto_eq [OF w(2), of b nextHeader] x
    by (intro exI [of _ ?b]) (auto simp: ext_serializeInto_def ext_length_def HopByHop_length_eq
        ext_identifier_def byte_at_def Let_def split: option.splits Option.bind_splits)
next
  case (FragmentExtHdr f)
  let ?m = "if fr_M f then 1 else 0 :: u8" and ?p = "push_bit 3 (fr_FragmentOffset f)"
  let ?b = "[nextHeader, b ! 1, hi8 ?p, lo8 ?p OR ?m] @ u32_bytes (fr_Identification f)"
  have off: "unat (fr_FragmentOffset f) < 8192" using assms(1) FragmentExtHdr by (simp add: ext_ok_def)
  have "Fragment_NextHeader (?b @ r) = Some nextHeader" "Fragment_FragmentOffset (?b @ r) = Some (fr_FragmentOffset f)"
    "Fragment_More (?b @ r) = Some (fr_M f)" "Fragment_ID (?b @ r) = Some (fr_Identification f)" "drop 8 (?b @ r) = r" for r
    using fragment_offset_bits [OF off, of "fr_M f"]
    by (simp_all add: Fragment_NextHeader_def Fragment_FragmentOffset_def Fragment_More_def Fragment_ID_def go_defs be_nat_u32_bytes)
  then show ?thesis
    using FragmentExtHdr assms(2) FragmentExt_serializeInto_eq [of b f nextHeader]
    by (intro exI [of _ ?b]) (simp add: ext_serializeInto_def ext_length_def ext_identifier_def
        split: option.splits Option.bind_splits)
qed

declare read_chain.simps(2) [simp del]

lemma serialize_chain_read:
  assumes "s \<noteq> []" and "\<forall>h\<in>set s. ext_ok h" and "(\<Sum>h\<leftarrow>s. nat (ext_length h)) \<le> length b"
  shows "\<exists>b'. serialize_chain s nextHeader b =
      Some (int (\<Sum>h\<leftarrow>s. nat (ext_length h)), b' @ drop (\<Sum>h\<leftarrow>s. nat (ext_length h)) b) \<and>
    length b' = (\<Sum>h\<leftarrow>s. nat (ext_length h)) \<and>
    (\<forall>r. read_chain (length s) (ext_identifier (hd s)) (b' @ r) =
      Some (s, nextHeader, \<Sum>h\<leftarrow>s. nat (ext_length h)))"
  using assms
proof (induction s nextHeader b rule: serialize_chain.induct)
  case (2 h nextHeader b)
  have "0 \<le> ext_length h" by (simp add: ext_length_def HopByHop_length_eq split: IPv6SerializableExtHdr.split)
  then show ?case using ext_serializeInto_read [of h b nextHeader] 2 by auto
next
  case (3 h h' s nextHeader b)
  have nn: "0 \<le> ext_length h" by (simp add: ext_length_def HopByHop_length_eq split: IPv6SerializableExtHdr.split)
  let ?k = "nat (ext_length h)" and ?n = "\<Sum>h\<leftarrow>h' # s. nat (ext_length h)"
  obtain p where p: "ext_serializeInto h (ext_identifier h') b = Some (ext_length h, p @ drop ?k b)" "length p = ?k"
    "\<And>n r. read_chain (Suc n) (ext_identifier h) (p @ r) =
       map_option (\<lambda>(hs, l, m). (h # hs, l, ?k + m)) (read_chain n (ext_identifier h') r)"
    using ext_serializeInto_read [of h b "ext_identifier h'"] 3(3,4) by auto
  have "?n \<le> length (drop ?k b)" using 3(4) by simp
  then obtain q where q: "serialize_chain (h' # s) nextHeader (drop ?k b) = Some (int ?n, q @ drop ?n (drop ?k b))"
    "length q = ?n" "\<And>r. read_chain (length (h' # s)) (ext_identifier h') (q @ r) = Some (h' # s, nextHeader, ?n)"
    using 3(1) [OF p(1) refl, of "()" "drop ?k b"] 3(3) nn p(2) by (auto simp: slice_from_def)
  show ?case
    using p q nn by (intro exI [of _ "p @ q"]) (simp add: slice_from_def add.commute)
qed simp

lemma ExtHdr_Length_eq: "ExtHdr_Length s = int (\<Sum>h\<leftarrow>s. nat (ext_length h))"
proof -
  have "0 \<le> ext_length h" for h by (simp add: ext_length_def HopByHop_length_eq split: IPv6SerializableExtHdr.split)
  then have "fold (\<lambda>h totalLength. totalLength + ext_length h) s t = t + int (\<Sum>h\<leftarrow>s. nat (ext_length h))" for t
    by (induction s arbitrary: t) simp_all
  from this [of 0] show ?thesis by (simp add: ExtHdr_Length_def)
qed

lemma ExtHdr_chain_read:
  assumes "\<forall>h\<in>set s. ext_ok h" and "ExtHdr_Length s \<le> int (length b)"
  shows "returns (ExtHdr_Serialize s transportProtocol b) (\<lambda>((nextHeader, n), b').
    n = ExtHdr_Length s \<and> length b' = length b \<and> drop (nat n) b' = drop (nat n) b \<and>
    read_chain (length s) nextHeader b' = Some (s, ucast transportProtocol, nat n))"
proof (cases s)
  case (Cons h s')
  define n where "n = (\<Sum>h\<leftarrow>s. nat (ext_length h))"
  have n: "ExtHdr_Length s = int n" by (simp add: ExtHdr_Length_eq n_def)
  have "n \<le> length b" using assms(2) n by simp
  then obtain b' where "serialize_chain s (ucast transportProtocol) b = Some (int n, b' @ drop n b)" "length b' = n"
    "\<And>r. read_chain (length s) (ext_identifier h) (b' @ r) = Some (s, ucast transportProtocol, n)"
    using serialize_chain_read [of s b "ucast transportProtocol"] assms(1) Cons
    unfolding n_def [symmetric] by auto
  then show ?thesis
    using \<open>n \<le> length b\<close> n Cons by (simp add: ExtHdr_Serialize_def Let_def)
qed (simp add: ExtHdr_Serialize_def ExtHdr_Length_def)

text \<open>
  C18. Serializing extension headers into a buffer with room for them never panics, uses exactly
  the bytes \<^verbatim>\<open>Length\<close> announces and keeps the rest of the buffer; and the chain reads back: a reader
  that follows the next-header fields from the returned identifier finds the same headers with the
  same options and fragment fields, ends at the transport protocol, and consumes that many bytes.
  The two limits are those of the wire format: 256 eight-byte words of options and thirteen bits of
  fragment offset.
\<close>

theorem ExtHdr_roundtrip:
  assumes "\<forall>h\<in>set s. ext_ok h" and "ExtHdr_Length s \<le> int (length b)"
  shows "returns (ExtHdr_Serialize s transportProtocol b) (\<lambda>((nextHeader, n), b').
    n = ExtHdr_Length s \<and> length b' = length b \<and> drop (nat n) b' = drop (nat n) b \<and>
    read_chain (length s) nextHeader b' = Some (s, ucast transportProtocol, nat n))"
  by (rule ExtHdr_chain_read [OF assms])

theorem ExtHdr_roundtrip_witness:
  "returns (ExtHdr_Serialize [HopByHopExtHdr [IPv6RouterAlertOption 0], FragmentExtHdr \<lparr>fr_FragmentOffset = 185,
      fr_M = True, fr_Identification = 7\<rparr>] 17 (replicate 20 0xee)) (\<lambda>((nextHeader, n), b'). n = 16 \<and>
    read_chain (Suc (Suc 0)) nextHeader b' = Some ([HopByHopExtHdr [IPv6RouterAlertOption 0],
      FragmentExtHdr \<lparr>fr_FragmentOffset = 185, fr_M = True, fr_Identification = 7\<rparr>], 17, 16))"
proof -
  let ?s = "[HopByHopExtHdr [IPv6RouterAlertOption 0], FragmentExtHdr \<lparr>fr_FragmentOffset = 185,
      fr_M = True, fr_Identification = 7\<rparr>]"
  have n: "ExtHdr_Length ?s = 16"
    by (simp add: ExtHdr_Length_def ext_length_def HopByHop_length_eq hbh_words_def)
  have "\<forall>h\<in>set ?s. ext_ok h" "ExtHdr_Length ?s \<le> int (length (replicate 20 (0xee :: u8)))"
    by (simp_all add: n ext_ok_def)
  from ExtHdr_roundtrip [OF this, of 17] show ?thesis
    by (rule returns_mono) (clarsimp simp: n)
qed

end
