(* ===== verification/Header_IPv6.thy ===== *)
theory Header_IPv6
  imports Header_IPv4 IPv6_Ext
begin

text \<open>
  \<^verbatim>\<open>internal/gtcpip/header/ipv6.go\<close> and the IPv6 half of \<^verbatim>\<open>netip.go\<close>: the accessors of the fixed
  header, \<^verbatim>\<open>Encode\<close> (which appends the extension headers of \<open>IPv6_Ext\<close>), validation, and the
  functions on addresses. The hash function of the opaque and temporary interface identifiers is
  a parameter.
\<close>

type_synonym IPv6 = bytes

abbreviation (input) IPv6MinimumSize :: nat where "IPv6MinimumSize \<equiv> 40"
abbreviation (input) IPv6AddressSize :: nat where "IPv6AddressSize \<equiv> 16"
abbreviation (input) IPv6AddressSizeBits :: nat where "IPv6AddressSizeBits \<equiv> 128"
abbreviation (input) versTCFL :: nat where "versTCFL \<equiv> 0"
abbreviation (input) IPv6PayloadLenOffset :: nat where "IPv6PayloadLenOffset \<equiv> 4"
abbreviation (input) IPv6NextHeaderOffset :: nat where "IPv6NextHeaderOffset \<equiv> 6"
abbreviation (input) hopLimit :: nat where "hopLimit \<equiv> 7"
abbreviation (input) v6SrcAddr :: nat where "v6SrcAddr \<equiv> 8"
abbreviation (input) v6DstAddr :: nat where "v6DstAddr \<equiv> 24"
abbreviation (input) IIDOffsetInIPv6Address :: nat where "IIDOffsetInIPv6Address \<equiv> 8"
abbreviation (input) IIDSize :: nat where "IIDSize \<equiv> 8"

section \<open>Accessors\<close>

definition IPv6_PayloadLength :: "IPv6 \<Rightarrow> u16 option" where
  "IPv6_PayloadLength b = BE_Uint16 b IPv6PayloadLenOffset"

definition IPv6_HopLimit :: "IPv6 \<Rightarrow> u8 option" where
  "IPv6_HopLimit b = byte_at b hopLimit"

definition IPv6_NextHeader :: "IPv6 \<Rightarrow> u8 option" where
  "IPv6_NextHeader b = byte_at b IPv6NextHeaderOffset"

definition IPv6_TransportProtocol :: "IPv6 \<Rightarrow> u32 option" where
  "IPv6_TransportProtocol b = do { p \<leftarrow> IPv6_NextHeader b; Some (ucast p) }"

definition IPv6_Payload :: "IPv6 \<Rightarrow> bytes option" where
  "IPv6_Payload b = do {
     r \<leftarrow> slice_from b IPv6MinimumSize;
     pl \<leftarrow> IPv6_PayloadLength b;
     slice r 0 (unat pl) }"

definition IPv6_SourceAddressSlice :: "IPv6 \<Rightarrow> bytes option" where
  "IPv6_SourceAddressSlice b = slice b v6SrcAddr (v6SrcAddr + IPv6AddressSize)"

definition IPv6_DestinationAddressSlice :: "IPv6 \<Rightarrow> bytes option" where
  "IPv6_DestinationAddressSlice b = slice b v6DstAddr (v6DstAddr + IPv6AddressSize)"

definition IPv6_SourceAddress :: "IPv6 \<Rightarrow> Address option" where
  "IPv6_SourceAddress b = do { s \<leftarrow> slice b v6SrcAddr (v6SrcAddr + IPv6AddressSize); Some (AddrFrom16 s) }"

definition IPv6_DestinationAddress :: "IPv6 \<Rightarrow> Address option" where
  "IPv6_DestinationAddress b = do { s \<leftarrow> slice b v6DstAddr (v6DstAddr + IPv6AddressSize); Some (AddrFrom16 s) }"

definition IPv6_SourceAddr :: "IPv6 \<Rightarrow> Addr option" where
  "IPv6_SourceAddr b = do { s \<leftarrow> slice b v6SrcAddr (v6SrcAddr + IPv6AddressSize); Some (Addr16 s) }"

definition IPv6_DestinationAddr :: "IPv6 \<Rightarrow> Addr option" where
  "IPv6_DestinationAddr b = do { s \<leftarrow> slice b v6DstAddr (v6DstAddr + IPv6AddressSize); Some (Addr16 s) }"

definition IPv6_Checksum :: "IPv6 \<Rightarrow> u16" where
  "IPv6_Checksum b = 0"

definition IPv6_TOS :: "IPv6 \<Rightarrow> (u8 \<times> u32) option" where
  "IPv6_TOS b = do { v \<leftarrow> BE_Uint32 b versTCFL; Some (ucast (drop_bit 20 v), v AND 0xfffff) }"

definition IPv6_SetTOS :: "IPv6 \<Rightarrow> u8 \<Rightarrow> u32 \<Rightarrow> IPv6 option" where
  "IPv6_SetTOS b t l =
     BE_PutUint32 b versTCFL ((push_bit 28 6 OR push_bit 20 (ucast t)) OR (l AND 0xfffff))"

definition IPv6_SetPayloadLength :: "IPv6 \<Rightarrow> u16 \<Rightarrow> IPv6 option" where
  "IPv6_SetPayloadLength b payloadLength = BE_PutUint16 b IPv6PayloadLenOffset payloadLength"

definition IPv6_SetSourceAddress :: "IPv6 \<Rightarrow> Address \<Rightarrow> IPv6 option" where
  "IPv6_SetSourceAddress b addr = do {
     s \<leftarrow> AsSlice addr;
     copy_into v6SrcAddr (v6SrcAddr + IPv6AddressSize) s b }"

definition IPv6_SetDestinationAddress :: "IPv6 \<Rightarrow> Address \<Rightarrow> IPv6 option" where
  "IPv6_SetDestinationAddress b addr = do {
     s \<leftarrow> AsSlice addr;
     copy_into v6DstAddr (v6DstAddr + IPv6AddressSize) s b }"

definition IPv6_SetSourceAddr :: "IPv6 \<Rightarrow> Addr \<Rightarrow> IPv6 option" where
  "IPv6_SetSourceAddr b addr = copy_into v6SrcAddr (v6SrcAddr + IPv6AddressSize) (Addr_AsSlice addr) b"

definition IPv6_SetDestinationAddr :: "IPv6 \<Rightarrow> Addr \<Rightarrow> IPv6 option" where
  "IPv6_SetDestinationAddr b addr = copy_into v6DstAddr (v6DstAddr + IPv6AddressSize) (Addr_AsSlice addr) b"

definition IPv6_SetHopLimit :: "IPv6 \<Rightarrow> u8 \<Rightarrow> IPv6 option" where
  "IPv6_SetHopLimit b v = set_byte b hopLimit v"

definition IPv6_SetNextHeader :: "IPv6 \<Rightarrow> u8 \<Rightarrow> IPv6 option" where
  "IPv6_SetNextHeader b v = set_byte b IPv6NextHeaderOffset v"

definition IPv6_SetChecksum :: "IPv6 \<Rightarrow> u16 \<Rightarrow> IPv6" where
  "IPv6_SetChecksum b v = b"

record IPv6Fields =
  f6_TrafficClass :: u8
  f6_FlowLabel :: u32
  f6_PayloadLength :: u16
  f6_TransportProtocol :: u32
  f6_HopLimit :: u8
  f6_SrcAddr :: Addr
  f6_DstAddr :: Addr
  f6_ExtensionHeaders :: IPv6ExtHdrSerializer

definition IPv6_Encode :: "IPv6 \<Rightarrow> IPv6Fields \<Rightarrow> IPv6 option" where
  "IPv6_Encode b i = do {
     _ \<leftarrow> slice_from b IPv6MinimumSize;
     b \<leftarrow> IPv6_SetTOS b (f6_TrafficClass i) (f6_FlowLabel i);
     b \<leftarrow> IPv6_SetPayloadLength b (f6_PayloadLength i);
     b \<leftarrow> set_byte b hopLimit (f6_HopLimit i);
     b \<leftarrow> IPv6_SetSourceAddr b (f6_SrcAddr i);
     b \<leftarrow> IPv6_SetDestinationAddr b (f6_DstAddr i);
     ((nextHeader, _), extHdr) \<leftarrow>
       ExtHdr_Serialize (f6_ExtensionHeaders i) (f6_TransportProtocol i) (drop IPv6MinimumSize b);
     b \<leftarrow> Some (take IPv6MinimumSize b @ extHdr);
     set_byte b IPv6NextHeaderOffset nextHeader }"

definition IPv6_IsValid :: "IPv6 \<Rightarrow> nat \<Rightarrow> bool option" where
  "IPv6_IsValid b pktSize =
     (if length b < IPv6MinimumSize then Some False
      else do {
        dlen \<leftarrow> IPv6_PayloadLength b;
        if int (unat dlen) > int pktSize - int IPv6MinimumSize then Some False
        else Some (IPVersion b = 6) })"

section \<open>Addresses\<close>

definition IPv6Any :: Address where
  "IPv6Any = AddrFrom16 (replicate 16 0)"

definition IPv6Loopback :: Address where
  "IPv6Loopback = AddrFrom16 (replicate 15 0 @ [1])"

definition IPv4MappedIPv6Subnet :: "Subnet option" where
  "IPv4MappedIPv6Subnet = AddressWithPrefix_Subnet
     \<lparr>p_Address = AddrFrom16 (replicate 10 0 @ [0xff, 0xff] @ replicate 4 0), p_PrefixLen = 96\<rparr>"

definition IPv6LinkLocalPrefix :: AddressWithPrefix where
  "IPv6LinkLocalPrefix = \<lparr>p_Address = AddrFrom16 (0xfe # 0x80 # replicate 14 0), p_PrefixLen = 64\<rparr>"

definition IsV4MappedAddress :: "Address \<Rightarrow> bool option" where
  "IsV4MappedAddress addr =
     (if Address_BitLen addr \<noteq> IPv6AddressSizeBits then Some False
      else do { s \<leftarrow> IPv4MappedIPv6Subnet; Subnet_Contains s addr })"

definition IsV6MulticastAddress :: "Address \<Rightarrow> bool option" where
  "IsV6MulticastAddress addr =
     (if Address_BitLen addr \<noteq> IPv6AddressSizeBits then Some False
      else do { b \<leftarrow> As16 addr; x \<leftarrow> byte_at b 0; Some (x = 0xff) })"

definition IsV6UnicastAddress :: "Address \<Rightarrow> bool option" where
  "IsV6UnicastAddress addr =
     (if Address_BitLen addr \<noteq> IPv6AddressSizeBits then Some False
      else if addr = IPv6Any then Some False
      else do { b \<leftarrow> As16 addr; x \<leftarrow> byte_at b 0; Some (x \<noteq> 0xff) })"

definition solicitedNodeMulticastPrefix :: bytes where
  "solicitedNodeMulticastPrefix = [0xff, 0x02] @ replicate 9 0 @ [0x01, 0xff]"

definition SolicitedNodeAddr :: "Address \<Rightarrow> Address option" where
  "SolicitedNodeAddr addr = do {
     addrBytes \<leftarrow> As16 addr;
     Some (AddrFrom16 (solicitedNodeMulticastPrefix @ drop (length addrBytes - 3) addrBytes)) }"

definition IsSolicitedNodeAddr :: "Address \<Rightarrow> bool option" where
  "IsSolicitedNodeAddr addr = do {
     addrBytes \<leftarrow> As16 addr;
     Some (solicitedNodeMulticastPrefix = take (length addrBytes - 3) addrBytes) }"

definition EthernetAdddressToModifiedEUI64IntoBuf :: "bytes \<Rightarrow> bytes \<Rightarrow> bytes option" where
  "EthernetAdddressToModifiedEUI64IntoBuf linkAddr buf = do {
     l0 \<leftarrow> byte_at linkAddr 0;
     buf \<leftarrow> set_byte buf 0 (l0 XOR 2);
     l1 \<leftarrow> byte_at linkAddr 1;
     buf \<leftarrow> set_byte buf 1 l1;
     l2 \<leftarrow> byte_at linkAddr 2;
     buf \<leftarrow> set_byte buf 2 l2;
     buf \<leftarrow> set_byte buf 3 0xff;
     buf \<leftarrow> set_byte buf 4 0xfe;
     l3 \<leftarrow> byte_at linkAddr 3;
     buf \<leftarrow> set_byte buf 5 l3;
     l4 \<leftarrow> byte_at linkAddr 4;
     buf \<leftarrow> set_byte buf 6 l4;
     l5 \<leftarrow> byte_at linkAddr 5;
     set_byte buf 7 l5 }"

definition EthernetAddressToModifiedEUI64 :: "bytes \<Rightarrow> bytes option" where
  "EthernetAddressToModifiedEUI64 linkAddr =
     EthernetAdddressToModifiedEUI64IntoBuf linkAddr (replicate IIDSize 0)"

definition LinkLocalAddr :: "bytes \<Rightarrow> Address option" where
  "LinkLocalAddr linkAddr = do {
     lladdrb \<leftarrow> on_slice IIDOffsetInIPv6Address 16 (EthernetAdddressToModifiedEUI64IntoBuf linkAddr)
       (0xfe # 0x80 # replicate 14 0);
     Some (AddrFrom16 lladdrb) }"

definition IsV6LinkLocalUnicastAddress :: "Address \<Rightarrow> bool option" where
  "IsV6LinkLocalUnicastAddress addr =
     (if Address_BitLen addr \<noteq> IPv6AddressSizeBits then Some False
      else do {
        addrBytes \<leftarrow> As16 addr;
        x \<leftarrow> byte_at addrBytes 0;
        if x = 0xfe then do { y \<leftarrow> byte_at addrBytes 1; Some (y AND 0xc0 = 0x80) } else Some False })"

definition IsV6LoopbackAddress :: "Address \<Rightarrow> bool" where
  "IsV6LoopbackAddress addr = (addr = IPv6Loopback)"

definition V6MulticastScope :: "Address \<Rightarrow> u8 option" where
  "V6MulticastScope addr = do { addrBytes \<leftarrow> As16 addr; x \<leftarrow> byte_at addrBytes 1; Some (x AND 0xf) }"

definition IsV6LinkLocalMulticastAddress :: "Address \<Rightarrow> bool option" where
  "IsV6LinkLocalMulticastAddress addr = do {
     m \<leftarrow> IsV6MulticastAddress addr;
     if m then do { s \<leftarrow> V6MulticastScope addr; Some (s = 2) } else Some False }"

definition AppendOpaqueInterfaceIdentifier ::
    "(bytes \<Rightarrow> bytes) \<Rightarrow> bytes \<Rightarrow> Subnet \<Rightarrow> bytes \<Rightarrow> u8 \<Rightarrow> bytes \<Rightarrow> bytes option" where
  "AppendOpaqueInterfaceIdentifier sha256 buf prefix nicName dadCounter secretKey = do {
     prefixID \<leftarrow> AsSlice (Subnet_ID prefix);
     p \<leftarrow> slice prefixID 0 IIDOffsetInIPv6Address;
     s \<leftarrow> slice (sha256 (p @ nicName @ [dadCounter] @ secretKey)) 0 IIDSize;
     Some (buf @ s) }"

definition LinkLocalAddrWithOpaqueIID ::
    "(bytes \<Rightarrow> bytes) \<Rightarrow> bytes \<Rightarrow> u8 \<Rightarrow> bytes \<Rightarrow> Address option" where
  "LinkLocalAddrWithOpaqueIID sha256 nicName dadCounter secretKey = do {
     prefix \<leftarrow> AddressWithPrefix_Subnet IPv6LinkLocalPrefix;
     b \<leftarrow> AppendOpaqueInterfaceIdentifier sha256 (0xfe # 0x80 # replicate 6 0) prefix nicName dadCounter secretKey;
     a \<leftarrow> slice b 0 16;
     Some (AddrFrom16 a) }"

datatype IPv6AddressScope = LinkLocalScope | GlobalScope
datatype scope_error = ErrBadAddress

definition ScopeForIPv6Address :: "Address \<Rightarrow> (IPv6AddressScope \<times> scope_error option) option" where
  "ScopeForIPv6Address addr =
     (if Address_BitLen addr \<noteq> IPv6AddressSizeBits then Some (GlobalScope, Some ErrBadAddress)
      else do {
        lm \<leftarrow> IsV6LinkLocalMulticastAddress addr;
        if lm then Some (LinkLocalScope, None)
        else do {
          lu \<leftarrow> IsV6LinkLocalUnicastAddress addr;
          if lu then Some (LinkLocalScope, None) else Some (GlobalScope, None) } })"

text \<open>The history buffer is updated in place, so it is part of the result.\<close>

definition GenerateTempIPv6SLAACAddr ::
    "(bytes \<Rightarrow> bytes) \<Rightarrow> bytes \<Rightarrow> Address \<Rightarrow> (AddressWithPrefix \<times> bytes) option" where
  "GenerateTempIPv6SLAACAddr sha256 tempIIDHistory stableAddr = do {
     addrBytes \<leftarrow> As16 stableAddr;
     let sum = sha256 (tempIIDHistory @ drop IIDOffsetInIPv6Address addrBytes);
     s \<leftarrow> slice_from sum (32 - IIDSize);
     _ \<leftarrow> guard_panic (min (length tempIIDHistory) (length s) \<noteq> IIDSize);
     let tempIIDHistory = go_copy tempIIDHistory s;
     _ \<leftarrow> guard_panic (min (length addrBytes - IIDOffsetInIPv6Address) (length sum) \<noteq> IIDSize);
     let addrBytes = take IIDOffsetInIPv6Address addrBytes @ go_copy (drop IIDOffsetInIPv6Address addrBytes) sum;
     Some (\<lparr>p_Address = AddrFrom16 addrBytes, p_PrefixLen = 8 * 8\<rparr>, tempIIDHistory) }"

section \<open>Reading a header\<close>

definition plen6 :: "bytes \<Rightarrow> nat" where
  "plen6 b = unat (be16 (b ! 4) (b ! 5))"

definition valid6 :: "bytes \<Rightarrow> nat \<Rightarrow> bool" where
  "valid6 b n \<longleftrightarrow> 40 \<le> length b \<and> 40 + plen6 b \<le> n \<and> unat (b ! 0) div 16 = 6"

lemma IPv6_PayloadLength_eq: "6 \<le> length b \<Longrightarrow> IPv6_PayloadLength b = Some (be16 (b ! 4) (b ! 5))"
  by (simp add: IPv6_PayloadLength_def go_simps)

lemma IPv6_IsValid_eq: "IPv6_IsValid b n = Some (valid6 b n)"
proof (cases "40 \<le> length b")
  case True
  then have "b \<noteq> []" by auto
  have "int (unat (b ! 0) div 16) = 6 \<longleftrightarrow> unat (b ! 0) div 16 = 6" by linarith
  moreover have "uint (be16 (b ! 4) (b ! 5)) = int (plen6 b)" by (simp add: plen6_def del: unat_be16)
  ultimately show ?thesis
    using True IPv6_PayloadLength_eq [of b] IPVersion_eq [OF \<open>b \<noteq> []\<close>]
    by (auto simp: IPv6_IsValid_def valid6_def)
qed (simp add: IPv6_IsValid_def valid6_def)

lemma valid6D:
  assumes "valid6 b n"
  shows "40 \<le> length b" "b \<noteq> []" "40 + plen6 b \<le> n" "unat (b ! 0) div 16 = 6"
  using assms by (auto simp: valid6_def)

lemma IPv6_Payload_eq:
  assumes "valid6 b n" and "n \<le> length b"
  shows "IPv6_Payload b = Some (take (plen6 b) (drop 40 b))"
  using valid6D [OF assms(1)] assms(2) IPv6_PayloadLength_eq [of b]
  by (simp add: IPv6_Payload_def go_simps plen6_def del: unat_be16)

lemma AddrFrom16_wf: "length s = 16 \<Longrightarrow> wf_Address (AddrFrom16 s) \<and> a_length (AddrFrom16 s) = 16 \<and>
    take 16 (a_addr (AddrFrom16 s)) = s"
  by (simp add: wf_Address_def AddrFrom16_def go_copy_def)

section \<open>Encoding\<close>

text \<open>The first word: version, traffic class and flow label.\<close>

definition tos_word :: "u8 \<Rightarrow> u32 \<Rightarrow> u32" where
  "tos_word t l = (push_bit 28 6 OR push_bit 20 (ucast t)) OR (l AND 0xfffff)"

lemma mask20: "(0xfffff :: u32) = mask 20"
  by (simp add: mask_eq_exp_minus_1)

lemma tos_bits:
  fixes l :: u32
  shows "ucast (drop_bit 20 ((push_bit 28 x OR push_bit 20 (ucast t)) OR (l AND mask 20))) = (t :: u8)"
    and "((push_bit 28 x OR push_bit 20 (ucast (t :: u8))) OR (l AND mask 20)) AND mask 20 = l AND mask 20"
    and "drop_bit 28 ((push_bit 28 x OR push_bit 20 (ucast (t :: u8))) OR (l AND mask 20)) = take_bit 4 x"
  by (rule bit_word_eqI; auto simp: bit_simps dest: bit_imp_le_length)+

lemma tos_word_class: "ucast (drop_bit 20 (tos_word t l)) = t"
  unfolding tos_word_def mask20 by (rule tos_bits)

lemma tos_word_label: "tos_word t l AND 0xfffff = l AND 0xfffff"
  unfolding tos_word_def mask20 by (rule tos_bits)

lemma tos_word_version: "unat (tos_word t l) div 268435456 = 6"
proof -
  have "drop_bit 28 (tos_word t l) = take_bit 4 6"
    unfolding tos_word_def mask20 by (rule tos_bits)
  then have "unat (drop_bit 28 (tos_word t l)) = 6" by simp
  then show ?thesis unfolding unat_drop_bit by simp
qed

text \<open>The forty bytes \<open>Encode\<close> writes.\<close>

definition encoded6 :: "IPv6Fields \<Rightarrow> u8 \<Rightarrow> bytes" where
  "encoded6 i nextHeader = u32_bytes (tos_word (f6_TrafficClass i) (f6_FlowLabel i)) @
     [hi8 (f6_PayloadLength i), lo8 (f6_PayloadLength i), nextHeader, f6_HopLimit i] @
     Addr_AsSlice (f6_SrcAddr i) @ Addr_AsSlice (f6_DstAddr i)"

lemma IPv6_Encode_eq:
  assumes "40 \<le> length b" and "f6_SrcAddr i = Addr16 s" "length s = 16" and "f6_DstAddr i = Addr16 d" "length d = 16"
    and ext: "ExtHdr_Serialize (f6_ExtensionHeaders i) (f6_TransportProtocol i) (drop 40 b) = Some ((nextHeader, n), e)"
  shows "IPv6_Encode b i = Some (encoded6 i nextHeader @ e)"
proof -
  obtain h t where b: "b = h @ t" "length h = 40"
    using assms(1) by (metis append_take_drop_id length_take min_absorb2)
  obtain x0 x1 x2 x3 x4 x5 x6 x7 r where h: "h = [x0, x1, x2, x3, x4, x5, x6, x7] @ r" "length r = 32"
    using b(2) by (auto simp: length_Suc_conv eval_nat_numeral)
  have "put_slice 24 d (put_slice 8 s (u32_bytes w @ [y, z, x6, v] @ r @ t)) = u32_bytes w @ [y, z, x6, v] @ s @ d @ t" for w y z v
    using h(2) assms(3,5) by (simp add: put_slice_def)
  then show ?thesis
    using h(2) assms(2-5) ext
    by (simp add: b(1) h(1) IPv6_Encode_def IPv6_SetTOS_def IPv6_SetPayloadLength_def IPv6_SetSourceAddr_def
        IPv6_SetDestinationAddr_def encoded6_def go_simps list_update_append tos_word_def)
qed

lemma encoded6_bytes:
  assumes "f6_SrcAddr i = Addr16 s" "length s = 16" and "f6_DstAddr i = Addr16 d" "length d = 16"
  shows "length (encoded6 i nh @ e) = 40 + length e" and "unat ((encoded6 i nh @ e) ! 0) div 16 = 6"
    and "(encoded6 i nh @ e) ! 4 = hi8 (f6_PayloadLength i)" "(encoded6 i nh @ e) ! 5 = lo8 (f6_PayloadLength i)"
    "(encoded6 i nh @ e) ! 6 = nh" "(encoded6 i nh @ e) ! 7 = f6_HopLimit i"
    and "take 16 (drop 8 (encoded6 i nh @ e)) = s" "take 16 (drop 24 (encoded6 i nh @ e)) = d"
    and "take 4 (encoded6 i nh @ e) = u32_bytes (tos_word (f6_TrafficClass i) (f6_FlowLabel i))"
proof -
  show "length (encoded6 i nh @ e) = 40 + length e" using assms by (simp add: encoded6_def)
  have "unat (u32_bytes w ! 0) = unat w div 16777216" for w
    using unat_u32_bytes [of w] by (auto simp: u32_bytes_def)
  then show "unat ((encoded6 i nh @ e) ! 0) div 16 = 6"
    using tos_word_version [of "f6_TrafficClass i" "f6_FlowLabel i"]
    by (simp add: encoded6_def nth_append flip: div_mult2_eq)
qed (use assms in \<open>simp_all add: encoded6_def nth_append\<close>)

section \<open>Properties\<close>

text \<open>
  C23. \<open>Encode\<close> and the getters of an IPv6 header are inverse: into any buffer with room for the
  header and the extension headers it writes version 6 and the given fields (the flow label keeps
  its twenty bits), every getter returns what was given, the extension headers read back from the
  next-header field on and end at the transport protocol, and the bytes behind them stay the same.
\<close>

theorem IPv6_Encode_roundtrip:
  assumes "f6_SrcAddr i = Addr16 s" "length s = 16" and "f6_DstAddr i = Addr16 d" "length d = 16"
    and "\<forall>h\<in>set (f6_ExtensionHeaders i). ext_ok h"
    and "40 + nat (ExtHdr_Length (f6_ExtensionHeaders i)) \<le> length b"
  shows "returns (IPv6_Encode b i) (\<lambda>b'. length b' = length b \<and> IPVersion b' = 6 \<and>
    IPv6_TOS b' = Some (f6_TrafficClass i, f6_FlowLabel i AND 0xfffff) \<and>
    IPv6_PayloadLength b' = Some (f6_PayloadLength i) \<and> IPv6_HopLimit b' = Some (f6_HopLimit i) \<and>
    IPv6_SourceAddr b' = Some (f6_SrcAddr i) \<and> IPv6_DestinationAddr b' = Some (f6_DstAddr i) \<and>
    (IPv6_NextHeader b' \<bind> (\<lambda>nh. read_chain (length (f6_ExtensionHeaders i)) nh (drop 40 b'))) =
      Some (f6_ExtensionHeaders i, ucast (f6_TransportProtocol i), nat (ExtHdr_Length (f6_ExtensionHeaders i))) \<and>
    drop (40 + nat (ExtHdr_Length (f6_ExtensionHeaders i))) b' =
    drop (40 + nat (ExtHdr_Length (f6_ExtensionHeaders i))) b)"
proof -
  let ?n = "nat (ExtHdr_Length (f6_ExtensionHeaders i))"
  have "ExtHdr_Length (f6_ExtensionHeaders i) \<le> int (length (drop 40 b))" using assms(6) by simp
  then obtain nh n e where e: "ExtHdr_Serialize (f6_ExtensionHeaders i) (f6_TransportProtocol i) (drop 40 b) = Some ((nh, n), e)"
    "length e = length b - 40" "drop ?n e = drop ?n (drop 40 b)"
    "read_chain (length (f6_ExtensionHeaders i)) nh e = Some (f6_ExtensionHeaders i, ucast (f6_TransportProtocol i), ?n)"
    using ExtHdr_chain_read [of "f6_ExtensionHeaders i" "drop 40 b" "f6_TransportProtocol i"] assms(5,6)
    by (auto simp: returns_iff)
  have b: "40 \<le> length b" using assms(6) by simp
  let ?b = "encoded6 i nh @ e"
  note f = encoded6_bytes [OF assms(1-4), of nh e]
  have l: "length (encoded6 i nh) = 40" and nil: "encoded6 i nh \<noteq> []" using f(1) by auto
  have "BE_Uint32 ?b 0 = Some (tos_word (f6_TrafficClass i) (f6_FlowLabel i))"
    using l f(9) by (simp add: BE_Uint32_def be_nat_u32_bytes)
  then have "IPv6_TOS ?b = Some (f6_TrafficClass i, f6_FlowLabel i AND 0xfffff)"
    by (simp add: IPv6_TOS_def tos_word_class tos_word_label)
  moreover have "IPVersion ?b = 6" using f(2) nil by (simp add: IPVersion_eq)
  moreover have "drop (40 + ?n) ?b = drop (40 + ?n) b"
    using l e(3) by (simp add: drop_append add.commute)
  ultimately show ?thesis
    using IPv6_Encode_eq [OF b assms(1-4) e(1)] l f(2-) e(2,4) b assms(1,3,4)
    by (simp add: IPv6_PayloadLength_def IPv6_HopLimit_def IPv6_SourceAddr_def IPv6_DestinationAddr_def
        IPv6_NextHeader_def go_simps)
qed

theorem IPv6_Encode_roundtrip_witness:
  "returns (IPv6_Encode (replicate 50 0xee) \<lparr>f6_TrafficClass = 1, f6_FlowLabel = 5, f6_PayloadLength = 10,
      f6_TransportProtocol = 6, f6_HopLimit = 64, f6_SrcAddr = Addr16 (replicate 16 1),
      f6_DstAddr = Addr16 (replicate 16 2), f6_ExtensionHeaders = [HopByHopExtHdr [IPv6RouterAlertOption 0]]\<rparr>) (\<lambda>b'.
    IPv6_HopLimit b' = Some 64 \<and> IPv6_DestinationAddr b' = Some (Addr16 (replicate 16 2)))"
proof -
  have "ExtHdr_Length [HopByHopExtHdr [IPv6RouterAlertOption 0]] = 8"
    by (simp add: ExtHdr_Length_def ext_length_def HopByHop_length_eq hbh_words_def)
  then show ?thesis
    by (intro returns_mono [OF IPv6_Encode_roundtrip [where s = "replicate 16 1" and d = "replicate 16 2"]])
      (simp_all add: ext_ok_def)
qed

end
