(* ===== verification/Header_ICMP.thy ===== *)
theory Header_ICMP
  imports Transport_Interface Header_IPv6
begin

text \<open>
  \<^verbatim>\<open>internal/gtcpip/header/icmpv4.go\<close> and \<^verbatim>\<open>icmpv6.go\<close>: the fields of ICMP messages and the two
  checksums. The ICMPv4 checksum covers the message alone, the ICMPv6 checksum also a pseudo-header;
  both skip the checksum field and take the checksum of a payload that is kept elsewhere.
\<close>

type_synonym ICMPv4 = bytes
type_synonym ICMPv6 = bytes

abbreviation (input) ICMPv4EchoReply :: u8 where "ICMPv4EchoReply \<equiv> 0"
abbreviation (input) ICMPv4DstUnreachable :: u8 where "ICMPv4DstUnreachable \<equiv> 3"
abbreviation (input) ICMPv4Echo :: u8 where "ICMPv4Echo \<equiv> 8"
abbreviation (input) ICMPv4HostUnreachable :: u8 where "ICMPv4HostUnreachable \<equiv> 1"
abbreviation (input) ICMPv4ProtocolNumber :: u32 where "ICMPv4ProtocolNumber \<equiv> 1"
abbreviation (input) ICMPv4MinimumSize :: nat where "ICMPv4MinimumSize \<equiv> 8"
abbreviation (input) ICMPv6DstUnreachable :: u8 where "ICMPv6DstUnreachable \<equiv> 1"
abbreviation (input) ICMPv6EchoRequest :: u8 where "ICMPv6EchoRequest \<equiv> 128"
abbreviation (input) ICMPv6EchoReply :: u8 where "ICMPv6EchoReply \<equiv> 129"
abbreviation (input) ICMPv6AddressUnreachable :: u8 where "ICMPv6AddressUnreachable \<equiv> 3"
abbreviation (input) ICMPv6ProtocolNumber :: u32 where "ICMPv6ProtocolNumber \<equiv> 58"

section \<open>ICMPv4\<close>

definition ICMPv4_Type :: "ICMPv4 \<Rightarrow> u8 option" where
  "ICMPv4_Type b = byte_at b 0"

definition ICMPv4_SetType :: "ICMPv4 \<Rightarrow> u8 \<Rightarrow> ICMPv4 option" where
  "ICMPv4_SetType b t = set_byte b 0 t"

definition ICMPv4_Code :: "ICMPv4 \<Rightarrow> u8 option" where
  "ICMPv4_Code b = byte_at b 1"

definition ICMPv4_SetCode :: "ICMPv4 \<Rightarrow> u8 \<Rightarrow> ICMPv4 option" where
  "ICMPv4_SetCode b c = set_byte b 1 c"

definition ICMPv4_Pointer :: "ICMPv4 \<Rightarrow> u8 option" where
  "ICMPv4_Pointer b = byte_at b 4"

definition ICMPv4_SetPointer :: "ICMPv4 \<Rightarrow> u8 \<Rightarrow> ICMPv4 option" where
  "ICMPv4_SetPointer b c = set_byte b 4 c"

definition ICMPv4_Checksum :: "ICMPv4 \<Rightarrow> u16 option" where
  "ICMPv4_Checksum b = BE_Uint16 b 2"

definition ICMPv4_SetChecksum :: "ICMPv4 \<Rightarrow> u16 \<Rightarrow> ICMPv4 option" where
  "ICMPv4_SetChecksum b cs = BE_PutUint16 b 2 cs"

definition ICMPv4_SourcePort :: "ICMPv4 \<Rightarrow> u16" where
  "ICMPv4_SourcePort b = 0"

definition ICMPv4_DestinationPort :: "ICMPv4 \<Rightarrow> u16" where
  "ICMPv4_DestinationPort b = 0"

definition ICMPv4_SetSourcePort :: "ICMPv4 \<Rightarrow> u16 \<Rightarrow> ICMPv4" where
  "ICMPv4_SetSourcePort b p = b"

definition ICMPv4_SetDestinationPort :: "ICMPv4 \<Rightarrow> u16 \<Rightarrow> ICMPv4" where
  "ICMPv4_SetDestinationPort b p = b"

definition ICMPv4_Payload :: "ICMPv4 \<Rightarrow> bytes option" where
  "ICMPv4_Payload b = slice_from b 8"

definition ICMPv4_MTU :: "ICMPv4 \<Rightarrow> u16 option" where
  "ICMPv4_MTU b = BE_Uint16 b 6"

definition ICMPv4_SetMTU :: "ICMPv4 \<Rightarrow> u16 \<Rightarrow> ICMPv4 option" where
  "ICMPv4_SetMTU b mtu = BE_PutUint16 b 6 mtu"

definition ICMPv4_Ident :: "ICMPv4 \<Rightarrow> u16 option" where
  "ICMPv4_Ident b = BE_Uint16 b 4"

definition ICMPv4_SetIdent :: "ICMPv4 \<Rightarrow> u16 \<Rightarrow> ICMPv4 option" where
  "ICMPv4_SetIdent b ident = BE_PutUint16 b 4 ident"

definition ICMPv4_SetIdentWithChecksumUpdate :: "ICMPv4 \<Rightarrow> u16 \<Rightarrow> ICMPv4 option" where
  "ICMPv4_SetIdentWithChecksumUpdate b new = do {
     old \<leftarrow> ICMPv4_Ident b;
     b \<leftarrow> ICMPv4_SetIdent b new;
     c \<leftarrow> ICMPv4_Checksum b;
     ICMPv4_SetChecksum b (NOT (checksumUpdate2ByteAlignedUint16 (NOT c) old new)) }"

definition ICMPv4_Sequence :: "ICMPv4 \<Rightarrow> u16 option" where
  "ICMPv4_Sequence b = BE_Uint16 b 6"

definition ICMPv4_SetSequence :: "ICMPv4 \<Rightarrow> u16 \<Rightarrow> ICMPv4 option" where
  "ICMPv4_SetSequence b s = BE_PutUint16 b 6 s"

definition ICMPv4Checksum :: "ICMPv4 \<Rightarrow> u16 \<Rightarrow> u16 option" where
  "ICMPv4Checksum h payloadCsum = do {
     s \<leftarrow> slice h 0 2;
     xsum \<leftarrow> Checksum s payloadCsum;
     s \<leftarrow> slice_from h 4;
     xsum \<leftarrow> Checksum s xsum;
     Some (NOT xsum) }"

section \<open>ICMPv6\<close>

definition IsErrorType :: "u8 \<Rightarrow> bool" where
  "IsErrorType typ = (typ AND 0x80 = 0)"

definition ICMPv6_Type :: "ICMPv6 \<Rightarrow> u8 option" where
  "ICMPv6_Type b = byte_at b 0"

definition ICMPv6_SetType :: "ICMPv6 \<Rightarrow> u8 \<Rightarrow> ICMPv6 option" where
  "ICMPv6_SetType b t = set_byte b 0 t"

definition ICMPv6_Code :: "ICMPv6 \<Rightarrow> u8 option" where
  "ICMPv6_Code b = byte_at b 1"

definition ICMPv6_SetCode :: "ICMPv6 \<Rightarrow> u8 \<Rightarrow> ICMPv6 option" where
  "ICMPv6_SetCode b c = set_byte b 1 c"

definition ICMPv6_TypeSpecific :: "ICMPv6 \<Rightarrow> u32 option" where
  "ICMPv6_TypeSpecific b = BE_Uint32 b 4"

definition ICMPv6_SetTypeSpecific :: "ICMPv6 \<Rightarrow> u32 \<Rightarrow> ICMPv6 option" where
  "ICMPv6_SetTypeSpecific b val = BE_PutUint32 b 4 val"

definition ICMPv6_Checksum :: "ICMPv6 \<Rightarrow> u16 option" where
  "ICMPv6_Checksum b = BE_Uint16 b 2"

definition ICMPv6_SetChecksum :: "ICMPv6 \<Rightarrow> u16 \<Rightarrow> ICMPv6 option" where
  "ICMPv6_SetChecksum b cs = BE_PutUint16 b 2 cs"

definition ICMPv6_SourcePort :: "ICMPv6 \<Rightarrow> u16" where
  "ICMPv6_SourcePort b = 0"

definition ICMPv6_DestinationPort :: "ICMPv6 \<Rightarrow> u16" where
  "ICMPv6_DestinationPort b = 0"

definition ICMPv6_SetSourcePort :: "ICMPv6 \<Rightarrow> u16 \<Rightarrow> ICMPv6" where
  "ICMPv6_SetSourcePort b p = b"

definition ICMPv6_SetDestinationPort :: "ICMPv6 \<Rightarrow> u16 \<Rightarrow> ICMPv6" where
  "ICMPv6_SetDestinationPort b p = b"

definition ICMPv6_MTU :: "ICMPv6 \<Rightarrow> u32 option" where
  "ICMPv6_MTU b = BE_Uint32 b 4"

definition ICMPv6_SetMTU :: "ICMPv6 \<Rightarrow> u32 \<Rightarrow> ICMPv6 option" where
  "ICMPv6_SetMTU b mtu = BE_PutUint32 b 4 mtu"

definition ICMPv6_Ident :: "ICMPv6 \<Rightarrow> u16 option" where
  "ICMPv6_Ident b = BE_Uint16 b 4"

definition ICMPv6_SetIdent :: "ICMPv6 \<Rightarrow> u16 \<Rightarrow> ICMPv6 option" where
  "ICMPv6_SetIdent b ident = BE_PutUint16 b 4 ident"

definition ICMPv6_SetIdentWithChecksumUpdate :: "ICMPv6 \<Rightarrow> u16 \<Rightarrow> ICMPv6 option" where
  "ICMPv6_SetIdentWithChecksumUpdate b new = do {
     old \<leftarrow> ICMPv6_Ident b;
     b \<leftarrow> ICMPv6_SetIdent b new;
     c \<leftarrow> ICMPv6_Checksum b;
     ICMPv6_SetChecksum b (NOT (checksumUpdate2ByteAlignedUint16 (NOT c) old new)) }"

definition ICMPv6_Sequence :: "ICMPv6 \<Rightarrow> u16 option" where
  "ICMPv6_Sequence b = BE_Uint16 b 6"

definition ICMPv6_SetSequence :: "ICMPv6 \<Rightarrow> u16 \<Rightarrow> ICMPv6 option" where
  "ICMPv6_SetSequence b s = BE_PutUint16 b 6 s"

definition ICMPv6_MessageBody :: "ICMPv6 \<Rightarrow> bytes option" where
  "ICMPv6_MessageBody b = slice_from b 4"

definition ICMPv6_Payload :: "ICMPv6 \<Rightarrow> bytes option" where
  "ICMPv6_Payload b = slice_from b 8"

record ICMPv6ChecksumParams =
  cp_Header :: ICMPv6
  cp_Src :: bytes
  cp_Dst :: bytes
  cp_PayloadCsum :: u16
  cp_PayloadLen :: nat

definition ICMPv6Checksum :: "ICMPv6ChecksumParams \<Rightarrow> u16 option" where
  "ICMPv6Checksum params = (let h = cp_Header params in do {
     xsum \<leftarrow> PseudoHeaderChecksum ICMPv6ProtocolNumber (cp_Src params) (cp_Dst params)
       (word_of_nat (length h + cp_PayloadLen params));
     xsum \<leftarrow> Some (Combine xsum (cp_PayloadCsum params));
     s \<leftarrow> slice h 0 2;
     xsum \<leftarrow> Checksum s xsum;
     s \<leftarrow> slice_from h 4;
     xsum \<leftarrow> Checksum s xsum;
     Some (NOT xsum) })"

definition ICMPv6_UpdateChecksumPseudoHeaderAddress :: "ICMPv6 \<Rightarrow> Address \<Rightarrow> Address \<Rightarrow> ICMPv6 option" where
  "ICMPv6_UpdateChecksumPseudoHeaderAddress b old new = do {
     c \<leftarrow> ICMPv6_Checksum b;
     x \<leftarrow> checksumUpdate2ByteAlignedAddress (NOT c) old new;
     ICMPv6_SetChecksum b (NOT x) }"

section \<open>The checksums\<close>

lemmas icmp_fields = ICMPv4_Type_def ICMPv4_SetType_def ICMPv4_Code_def ICMPv4_SetCode_def ICMPv4_Checksum_def
  ICMPv4_SetChecksum_def ICMPv4_Payload_def ICMPv4_Ident_def ICMPv4_SetIdent_def ICMPv4_Sequence_def
  ICMPv6_Type_def ICMPv6_SetType_def ICMPv6_Code_def ICMPv6_SetCode_def ICMPv6_Checksum_def
  ICMPv6_SetChecksum_def ICMPv6_Payload_def ICMPv6_Ident_def ICMPv6_SetIdent_def ICMPv6_Sequence_def

text \<open>The sum of the pseudo-header of an ICMPv6 message with \<open>n\<close> bytes.\<close>

definition pseudo6 :: "bytes \<Rightarrow> bytes \<Rightarrow> nat \<Rightarrow> nat" where
  "pseudo6 src dst n = sum16 src + sum16 dst + unat (word_of_nat n :: u16) + 58"

lemma ICMPv4Checksum_eq:
  "4 \<le> length h \<Longrightarrow> ICMPv4Checksum h p =
    Some (NOT (word_of_nat (fold16 (unat p + sum16 (take 2 h) + sum16 (drop 4 h)))))"
  by (simp add: ICMPv4Checksum_def go_simps word_unat_eq_iff unat_of_nat_u16 unat_NOT16)

lemma ICMPv6Checksum_eq:
  "4 \<le> length h \<Longrightarrow> ICMPv6Checksum \<lparr>cp_Header = h, cp_Src = src, cp_Dst = dst, cp_PayloadCsum = p, cp_PayloadLen = m\<rparr> =
    Some (NOT (word_of_nat (fold16 (pseudo6 src dst (length h + m) + unat p + sum16 (take 2 h) + sum16 (drop 4 h)))))"
  by (simp add: ICMPv6Checksum_def Let_def PseudoHeaderChecksum_Some go_simps word_unat_eq_iff
      unat_of_nat_u16 unat_NOT16 unat_Combine pseudo6_def)

lemma icmp_fresh:
  fixes n :: nat
  assumes "4 \<le> length b"
  defines "r \<equiv> n + sum16 (take 2 b) + sum16 (drop 4 b)"
  defines "b' \<equiv> b[2 := hi8 (NOT (word_of_nat (fold16 r))), 3 := lo8 (NOT (word_of_nat (fold16 r)))]"
  shows "verifies n b'" and "0 < n + sum16 b'"
proof -
  show "verifies n b'"
    using fresh_xsum [of 2 b "word_of_nat (fold16 r)" n] assms(1)
    by (simp add: unat_of_nat_u16 cong16_fold16 r_def b'_def)
  have "n + sum16 b' = r + unat (NOT (word_of_nat (fold16 r) :: u16))"
    using sum16_put16 [of 2 b "NOT (word_of_nat (fold16 r))"] sum16_field [of 2 b] assms(1) by (simp add: r_def b'_def)
  moreover have "unat (word_of_nat (fold16 r) :: u16) = fold16 r" by (rule unat_of_nat_u16) simp
  ultimately show "0 < n + sum16 b'"
    using NOT16_plus [of "word_of_nat (fold16 r)"] fold16_eq_0 [of r] by linarith
qed

lemma icmp_ident_update:
  assumes "8 \<le> length b"
  shows "\<exists>x. ICMPv4_SetIdentWithChecksumUpdate b v = Some (b[4 := hi8 v, 5 := lo8 v, 2 := hi8 x, 3 := lo8 x]) \<and>
    ICMPv6_SetIdentWithChecksumUpdate b v = Some (b[4 := hi8 v, 5 := lo8 v, 2 := hi8 x, 3 := lo8 x]) \<and>
    cong16 (sum16 (b[4 := hi8 v, 5 := lo8 v, 2 := hi8 x, 3 := lo8 x])) (sum16 b)"
proof -
  let ?x = "NOT (checksumUpdate2ByteAlignedUint16 (NOT (be16 (b ! 2) (b ! 3))) (be16 (b ! 4) (b ! 5)) v)"
  have "cong16 (sum16 (b[4 := hi8 v, 4 + 1 := lo8 v, 2 := hi8 ?x, 2 + 1 := lo8 ?x])) (sum16 b)"
    by (rule rewrite_field) (use assms update16_complement [of "be16 (b ! 2) (b ! 3)" "be16 (b ! 4) (b ! 5)" v] in simp_all)
  then show ?thesis
    using assms by (intro exI [of _ ?x]) (simp add: ICMPv4_SetIdentWithChecksumUpdate_def
        ICMPv6_SetIdentWithChecksumUpdate_def icmp_fields go_simps)
qed

lemma icmp_ident_keeps:
  assumes "8 \<le> length b" and "verifies n b"
  shows "returns (ICMPv4_SetIdentWithChecksumUpdate b v) (\<lambda>b'. ICMPv4_Ident b' = Some v \<and>
      ICMPv4_Sequence b' = ICMPv4_Sequence b \<and> ICMPv4_Payload b' = ICMPv4_Payload b \<and> take 2 b' = take 2 b \<and>
      verifies n b')"
    and "ICMPv6_SetIdentWithChecksumUpdate b v = ICMPv4_SetIdentWithChecksumUpdate b v"
proof -
  obtain x where x: "ICMPv4_SetIdentWithChecksumUpdate b v = Some (b[4 := hi8 v, 5 := lo8 v, 2 := hi8 x, 3 := lo8 x])"
    "ICMPv6_SetIdentWithChecksumUpdate b v = Some (b[4 := hi8 v, 5 := lo8 v, 2 := hi8 x, 3 := lo8 x])"
    "cong16 (sum16 (b[4 := hi8 v, 5 := lo8 v, 2 := hi8 x, 3 := lo8 x])) (sum16 b)"
    using icmp_ident_update [OF assms(1), of v] by auto
  have "verifies n (b[4 := hi8 v, 5 := lo8 v, 2 := hi8 x, 3 := lo8 x])"
    using verifies_cong [OF cong16_add [OF cong16_refl x(3)]] assms(2) by blast
  then show "returns (ICMPv4_SetIdentWithChecksumUpdate b v) (\<lambda>b'. ICMPv4_Ident b' = Some v \<and>
      ICMPv4_Sequence b' = ICMPv4_Sequence b \<and> ICMPv4_Payload b' = ICMPv4_Payload b \<and> take 2 b' = take 2 b \<and>
      verifies n b')"
    using x(1) assms(1) by (simp add: icmp_fields go_simps)
  show "ICMPv6_SetIdentWithChecksumUpdate b v = ICMPv4_SetIdentWithChecksumUpdate b v"
    using x by simp
qed

lemma Checksum_verifies:
  "verifies (unat i) b \<Longrightarrow> 0 < unat i + sum16 b \<Longrightarrow> Checksum b i = Some 0xffff"
  by (simp add: rfc1071_valid_iff verifies_def dvd_eq_mod_eq_0)

lemma sum16_eq_0: "sum16 b = 0 \<longleftrightarrow> list_all (\<lambda>x. x = 0) b"
  by (induction b rule: sum16.induct) (auto simp: unat_eq_0)

lemma Checksum_verifies_zero: "verifies 0 b \<Longrightarrow> Checksum b 0 = Some (if list_all (\<lambda>x. x = 0) b then 0 else 0xffff)"
  using Checksum_verifies [of 0 b] sum16_eq_0 [of b] by (auto simp: rfc1071_def)

lemma pseudo6_pos: "0 < pseudo6 src dst n"
  by (simp add: pseudo6_def)

lemma Checksum_pseudo6:
  assumes "verifies (pseudo6 src dst n) b"
  shows "(PseudoHeaderChecksum ICMPv6ProtocolNumber src dst (word_of_nat n) \<bind> Checksum b) = Some 0xffff"
proof -
  have "cong16 (fold16 (pseudo6 src dst n) + sum16 b) (pseudo6 src dst n + sum16 b)"
    by (rule cong16_add [OF cong16_fold16 cong16_refl])
  then have "verifies (fold16 (pseudo6 src dst n)) b"
    using verifies_cong assms by blast
  then show ?thesis
    using Checksum_verifies [of "word_of_nat (fold16 (pseudo6 src dst n))" b] pseudo6_pos [of src dst n]
    by (simp add: PseudoHeaderChecksum_Some unat_of_nat_u16 flip: pseudo6_def)
qed

section \<open>Properties\<close>

text \<open>
  C33. Storing the computed checksum in an ICMP message makes the receiver's check succeed: the
  ones'-complement sum of the ICMPv4 message, or of pseudo-header and ICMPv6 message, is 0xffff.
  Replacing the identifier afterwards with the incremental update changes nothing but identifier
  and checksum, and the check still succeeds, for requests and for replies. The one exception is exact: an ICMPv4 message all of whose bytes
  become zero, the checksum included, sums up to zero, the other representation of 0xffff.
\<close>

theorem ICMP_checksums:
  assumes "8 \<le> length b"
  shows "returns (do { c \<leftarrow> ICMPv4Checksum b 0; ICMPv4_SetChecksum b c }) (\<lambda>m.
      Checksum m 0 = Some 0xffff \<and> take 2 m = take 2 b \<and> drop 4 m = drop 4 b \<and>
      returns (ICMPv4_SetIdentWithChecksumUpdate m v) (\<lambda>m'. ICMPv4_Ident m' = Some v \<and>
        ICMPv4_Sequence m' = ICMPv4_Sequence b \<and> ICMPv4_Payload m' = ICMPv4_Payload b \<and> take 2 m' = take 2 b \<and>
        Checksum m' 0 = Some (if list_all (\<lambda>x. x = 0) m' then 0 else 0xffff))) \<and>
    returns (do { c \<leftarrow> ICMPv6Checksum \<lparr>cp_Header = b, cp_Src = src, cp_Dst = dst, cp_PayloadCsum = 0, cp_PayloadLen = 0\<rparr>;
                  ICMPv6_SetChecksum b c }) (\<lambda>m.
      (PseudoHeaderChecksum ICMPv6ProtocolNumber src dst (word_of_nat (length b)) \<bind> Checksum m) = Some 0xffff \<and>
      take 2 m = take 2 b \<and> drop 4 m = drop 4 b \<and>
      returns (ICMPv6_SetIdentWithChecksumUpdate m v) (\<lambda>m'. ICMPv6_Ident m' = Some v \<and>
        ICMPv6_Sequence m' = ICMPv6_Sequence b \<and> ICMPv6_Payload m' = ICMPv6_Payload b \<and> take 2 m' = take 2 b \<and>
        (PseudoHeaderChecksum ICMPv6ProtocolNumber src dst (word_of_nat (length b)) \<bind> Checksum m') = Some 0xffff))"
proof -
  let ?c = "\<lambda>n. NOT (word_of_nat (fold16 (n + sum16 (take 2 b) + sum16 (drop 4 b)))) :: u16"
  let ?m = "\<lambda>n. b[2 := hi8 (?c n), 3 := lo8 (?c n)]"
  let ?n = "pseudo6 src dst (length b)"
  have len: "4 \<le> length b" and b: "b \<noteq> []" using assms by auto
  have m: "length (?m n) = length b" "take 2 (?m n) = take 2 b" "drop 4 (?m n) = drop 4 b"
    "ICMPv4_Sequence (?m n) = ICMPv4_Sequence b" "ICMPv4_Payload (?m n) = ICMPv4_Payload b" for n
    using assms by (simp_all add: icmp_fields go_simps)
  have i4: "ICMPv4Checksum b 0 = Some (?c 0)" "ICMPv4_SetChecksum b (?c 0) = Some (?m 0)"
    using len by (simp_all add: ICMPv4Checksum_eq icmp_fields go_simps)
  have i6: "ICMPv6Checksum \<lparr>cp_Header = b, cp_Src = src, cp_Dst = dst, cp_PayloadCsum = 0, cp_PayloadLen = 0\<rparr> = Some (?c ?n)"
      "ICMPv6_SetChecksum b (?c ?n) = Some (?m ?n)"
    using len by (simp_all add: ICMPv6Checksum_eq icmp_fields go_simps)
  have v: "verifies n (?m n)" "0 < n + sum16 (?m n)" for n
    using icmp_fresh [OF len] by simp_all
  have k: "returns (ICMPv4_SetIdentWithChecksumUpdate (?m n) v) (\<lambda>m'. ICMPv4_Ident m' = Some v \<and>
      ICMPv4_Sequence m' = ICMPv4_Sequence b \<and> ICMPv4_Payload m' = ICMPv4_Payload b \<and> take 2 m' = take 2 b \<and>
      verifies n m')" "ICMPv6_SetIdentWithChecksumUpdate (?m n) v = ICMPv4_SetIdentWithChecksumUpdate (?m n) v" for n
    using icmp_ident_keeps [OF _ v(1), of n v] assms unfolding m by simp_all
  have six: "ICMPv6_Ident = ICMPv4_Ident" "ICMPv6_Sequence = ICMPv4_Sequence" "ICMPv6_Payload = ICMPv4_Payload"
    by (simp_all add: fun_eq_iff icmp_fields)
  have "Checksum (?m 0) 0 = Some 0xffff" using Checksum_verifies [of 0 "?m 0"] v [of 0] by simp
  moreover have "returns (ICMPv4_SetIdentWithChecksumUpdate (?m 0) v) (\<lambda>m'. ICMPv4_Ident m' = Some v \<and>
      ICMPv4_Sequence m' = ICMPv4_Sequence b \<and> ICMPv4_Payload m' = ICMPv4_Payload b \<and> take 2 m' = take 2 b \<and>
      Checksum m' 0 = Some (if list_all (\<lambda>x. x = 0) m' then 0 else 0xffff))"
    by (rule returns_mono [OF k(1) [of 0]]) (use Checksum_verifies_zero in blast)
  moreover have "returns (ICMPv4_SetIdentWithChecksumUpdate (?m ?n) v) (\<lambda>m'. ICMPv4_Ident m' = Some v \<and>
      ICMPv4_Sequence m' = ICMPv4_Sequence b \<and> ICMPv4_Payload m' = ICMPv4_Payload b \<and> take 2 m' = take 2 b \<and>
      (PseudoHeaderChecksum ICMPv6ProtocolNumber src dst (word_of_nat (length b)) \<bind> Checksum m') = Some 0xffff)"
    by (rule returns_mono [OF k(1) [of ?n]]) (use Checksum_pseudo6 in blast)
  ultimately show ?thesis
    unfolding i4 i6 bind.bind_lunit returns_Some six k(2)
    using Checksum_pseudo6 [OF v(1)] m(2,3) by blast
qed

text \<open>An echo reply whose identifier 7 becomes 300.\<close>

theorem ICMP_checksums_witness:
  "returns (do { c \<leftarrow> ICMPv4Checksum [0, 0, 0, 0, 0, 7, 0, 1] 0; ICMPv4_SetChecksum [0, 0, 0, 0, 0, 7, 0, 1] c }) (\<lambda>m.
     Checksum m 0 = Some 0xffff \<and> returns (ICMPv4_SetIdentWithChecksumUpdate m 300) (\<lambda>m'.
       ICMPv4_Ident m' = Some 300 \<and> Checksum m' 0 = Some 0xffff))"
proof -
  have nz: "\<not> list_all (\<lambda>x. x = 0) m'" if i: "ICMPv4_Ident m' = Some 300" for m'
  proof
    assume z: "list_all (\<lambda>x. x = 0) m'"
    have "6 \<le> length m'" "be16 (m' ! 4) (m' ! 5) = 300"
      using i by (auto simp: icmp_fields BE_Uint16_def split: if_splits)
    then show False using z by (simp add: list_all_length be16_def)
  qed
  have "8 \<le> length [0, 0, 0, 0, 0, 7, 0, 1 :: u8]" by simp
  from conjunct1 [OF ICMP_checksums [OF this, of 300]] show ?thesis
    by (rule returns_mono) (auto elim!: returns_mono dest: nz)
qed

end
