(* ===== verification/System_Rewrite.thy ===== *)
theory System_Rewrite
  imports Header_TCP Header_IPv6
begin

text \<open>
  The address translation of the system stack, \<^verbatim>\<open>rewriteIPv4TCP\<close> and \<^verbatim>\<open>rewriteIPv6TCP\<close> of
  \<^verbatim>\<open>stack_system.go\<close>: addresses and ports of a TCP packet are replaced in place with incremental
  checksum updates, or with a cleared checksum when the device computes it. \<^verbatim>\<open>ipHdr\<close> and \<^verbatim>\<open>tcpHdr\<close>
  are views of one buffer: the segment is the window from \<open>lo\<close> to \<open>hi\<close> of the packet.

  The locale \<open>tcp_carrier\<close> is what the translation needs of the network header; IPv4 and IPv6 are
  its instances, and the translation is proved right once, for both.
\<close>

definition rewrite_ports :: "bool \<Rightarrow> u16 \<Rightarrow> bool \<Rightarrow> u16 \<Rightarrow> bool \<Rightarrow> TCP \<Rightarrow> TCP option" where
  "rewrite_ports txChecksumOffload newSourcePort rewriteSourcePort newDestinationPort rewriteDestinationPort t =
     (if txChecksumOffload then do {
        t \<leftarrow> (if rewriteSourcePort then TCP_SetSourcePort t newSourcePort else Some t);
        t \<leftarrow> (if rewriteDestinationPort then TCP_SetDestinationPort t newDestinationPort else Some t);
        TCP_SetChecksum t 0 }
      else do {
        t \<leftarrow> (if rewriteSourcePort then TCP_SetSourcePortWithChecksumUpdate t newSourcePort else Some t);
        if rewriteDestinationPort then TCP_SetDestinationPortWithChecksumUpdate t newDestinationPort else Some t })"

definition rewriteIPv4TCP :: "IPv4 \<Rightarrow> nat \<Rightarrow> nat \<Rightarrow> bool \<Rightarrow> Addr \<Rightarrow> u16 \<Rightarrow> bool \<Rightarrow> Addr \<Rightarrow> u16 \<Rightarrow> bool \<Rightarrow> IPv4 option" where
  "rewriteIPv4TCP ipHdr lo hi txChecksumOffload newSource newSourcePort rewriteSourcePort
     newDestination newDestinationPort rewriteDestinationPort = do {
     oldSource \<leftarrow> IPv4_SourceAddress ipHdr;
     oldDestination \<leftarrow> IPv4_DestinationAddress ipHdr;
     s4 \<leftarrow> Addr_As4 newSource;
     let newSourceAddr = AddrFrom4 s4;
     d4 \<leftarrow> Addr_As4 newDestination;
     let newDestinationAddr = AddrFrom4 d4;
     ipHdr \<leftarrow> (if newSourceAddr \<noteq> oldSource then do {
         ipHdr \<leftarrow> IPv4_SetSourceAddressWithChecksumUpdate ipHdr newSourceAddr;
         if \<not> txChecksumOffload then
           on_slice lo hi (\<lambda>t. TCP_UpdateChecksumPseudoHeaderAddress t oldSource newSourceAddr True) ipHdr
         else Some ipHdr }
       else Some ipHdr);
     ipHdr \<leftarrow> (if newDestinationAddr \<noteq> oldDestination then do {
         ipHdr \<leftarrow> IPv4_SetDestinationAddressWithChecksumUpdate ipHdr newDestinationAddr;
         if \<not> txChecksumOffload then
           on_slice lo hi (\<lambda>t. TCP_UpdateChecksumPseudoHeaderAddress t oldDestination newDestinationAddr True) ipHdr
         else Some ipHdr }
       else Some ipHdr);
     on_slice lo hi (rewrite_ports txChecksumOffload newSourcePort rewriteSourcePort
       newDestinationPort rewriteDestinationPort) ipHdr }"

definition rewriteIPv6TCP :: "IPv6 \<Rightarrow> nat \<Rightarrow> nat \<Rightarrow> bool \<Rightarrow> Addr \<Rightarrow> u16 \<Rightarrow> bool \<Rightarrow> Addr \<Rightarrow> u16 \<Rightarrow> bool \<Rightarrow> IPv6 option" where
  "rewriteIPv6TCP ipHdr lo hi txChecksumOffload newSource newSourcePort rewriteSourcePort
     newDestination newDestinationPort rewriteDestinationPort = do {
     oldSource \<leftarrow> IPv6_SourceAddress ipHdr;
     oldDestination \<leftarrow> IPv6_DestinationAddress ipHdr;
     let newSourceAddr = AddrFrom16 (Addr_As16 newSource);
     let newDestinationAddr = AddrFrom16 (Addr_As16 newDestination);
     ipHdr \<leftarrow> (if newSourceAddr \<noteq> oldSource then do {
         ipHdr \<leftarrow> IPv6_SetSourceAddress ipHdr newSourceAddr;
         if \<not> txChecksumOffload then
           on_slice lo hi (\<lambda>t. TCP_UpdateChecksumPseudoHeaderAddress t oldSource newSourceAddr True) ipHdr
         else Some ipHdr }
       else Some ipHdr);
     ipHdr \<leftarrow> (if newDestinationAddr \<noteq> oldDestination then do {
         ipHdr \<leftarrow> IPv6_SetDestinationAddress ipHdr newDestinationAddr;
         if \<not> txChecksumOffload then
           on_slice lo hi (\<lambda>t. TCP_UpdateChecksumPseudoHeaderAddress t oldDestination newDestinationAddr True) ipHdr
         else Some ipHdr }
       else Some ipHdr);
     on_slice lo hi (rewrite_ports txChecksumOffload newSourcePort rewriteSourcePort
       newDestinationPort rewriteDestinationPort) ipHdr }"

section \<open>The ports\<close>

text \<open>A segment with its ports, which verifies against \<open>n\<close> unless the device will compute the checksum.\<close>

definition segment_with :: "bool \<Rightarrow> nat \<Rightarrow> bytes \<Rightarrow> nat \<Rightarrow> u16 \<Rightarrow> u16 \<Rightarrow> TCP \<Rightarrow> bool" where
  "segment_with off h d n sp dp t \<longleftrightarrow> tcp_segment h d t \<and> (off \<or> verifies n t) \<and>
     TCP_SourcePort t = Some sp \<and> TCP_DestinationPort t = Some dp"

lemma tcp_segment_length: "tcp_segment h d t \<Longrightarrow> length t = h + length d"
  by (auto simp: tcp_segment_def)

lemma rewrite_ports_right:
  assumes "segment_with off h d n sp dp t"
  shows "returns (rewrite_ports off p ps q qs t) (\<lambda>t'.
    segment_with off h d n (if ps then p else sp) (if qs then q else dp) t' \<and>
    (off \<longrightarrow> TCP_Checksum t' = Some 0))"
proof (cases off)
  case True
  have t: "tcp_segment h d t" using assms by (simp add: segment_with_def)
  note l = tcp_segmentD(1,2) [OF t]
  show ?thesis
    using True assms l t
    by (cases ps; cases qs) (simp_all add: rewrite_ports_def segment_with_def tcp_fields go_simps tcp_segment_write)
next
  case False
  then have t: "tcp_segment h d t" "verifies n t" "TCP_SourcePort t = Some sp" "TCP_DestinationPort t = Some dp"
    using assms by (simp_all add: segment_with_def)
  have src: "returns (if ps then TCP_SetSourcePortWithChecksumUpdate t p else Some t)
      (segment_with False h d n (if ps then p else sp) dp)"
    using tcp.SetSource_good [OF t(1,2), of p] t by (auto simp: segment_with_def elim!: returns_mono)
  have dst: "returns (if qs then TCP_SetDestinationPortWithChecksumUpdate t q else Some t)
      (segment_with False h d n sp (if qs then q else dp))" if "segment_with False h d n sp dp t" for t sp
    using tcp.SetDestination_good [of h d t n q] that by (auto simp: segment_with_def elim!: returns_mono)
  have "rewrite_ports off p ps q qs t = do {
      t \<leftarrow> (if ps then TCP_SetSourcePortWithChecksumUpdate t p else Some t);
      if qs then TCP_SetDestinationPortWithChecksumUpdate t q else Some t }"
    using False by (simp add: rewrite_ports_def)
  moreover have "returns (\<dots>) (segment_with False h d n (if ps then p else sp) (if qs then q else dp))"
    unfolding returns_bind by (rule returns_mono [OF src], erule dst)
  ultimately show ?thesis using False by simp
qed

section \<open>The interface\<close>

locale tcp_carrier =
  fixes ok :: "bytes \<Rightarrow> bool"
    and lo hi :: "bytes \<Rightarrow> nat"
    and src dst :: "bytes \<Rightarrow> Address"
    and SetSrc SetDst :: "bytes \<Rightarrow> Address \<Rightarrow> bytes option"
    and From :: "bytes \<Rightarrow> Address"
    and alen :: nat
  assumes bounds: "ok b \<Longrightarrow> lo b \<le> hi b \<and> hi b \<le> length b"
    and addresses: "ok b \<Longrightarrow> wf_Address (src b) \<and> a_length (src b) = alen \<and> wf_Address (dst b) \<and> a_length (dst b) = alen"
    and From_wf: "length x = alen \<Longrightarrow> wf_Address (From x) \<and> a_length (From x) = alen"
    and SetSrc_right: "ok b \<Longrightarrow> length x = alen \<Longrightarrow> returns (SetSrc b (From x)) (\<lambda>b'. ok b' \<and>
      src b' = From x \<and> dst b' = dst b \<and> lo b' = lo b \<and> hi b' = hi b \<and> length b' = length b \<and>
      drop (lo b) b' = drop (lo b) b)"
    and SetDst_right: "ok b \<Longrightarrow> length x = alen \<Longrightarrow> returns (SetDst b (From x)) (\<lambda>b'. ok b' \<and>
      dst b' = From x \<and> src b' = src b \<and> lo b' = lo b \<and> hi b' = hi b \<and> length b' = length b \<and>
      drop (lo b) b' = drop (lo b) b)"
    and payload: "ok b \<Longrightarrow> length s = hi b - lo b \<Longrightarrow> ok (take (lo b) b @ s @ drop (hi b) b) \<and>
      src (take (lo b) b @ s @ drop (hi b) b) = src b \<and> dst (take (lo b) b @ s @ drop (hi b) b) = dst b \<and>
      lo (take (lo b) b @ s @ drop (hi b) b) = lo b \<and> hi (take (lo b) b @ s @ drop (hi b) b) = hi b"
begin

definition seg :: "bytes \<Rightarrow> TCP" where
  "seg b = take (hi b - lo b) (drop (lo b) b)"

text \<open>
  The packet \<open>b\<close> carries the segment \<open>(h, d)\<close> from \<open>s\<close>, port \<open>sp\<close>, to \<open>t\<close>, port \<open>dp\<close>, in
  the window from \<open>l\<close> to \<open>m\<close>; \<open>tl\<close> is what follows the window.
\<close>

definition carries :: "bool \<Rightarrow> nat \<Rightarrow> bytes \<Rightarrow> Address \<Rightarrow> Address \<Rightarrow> u16 \<Rightarrow> u16 \<Rightarrow> nat \<Rightarrow> nat \<Rightarrow> bytes \<Rightarrow> bytes \<Rightarrow> bool" where
  "carries off h d s t sp dp l m r b \<longleftrightarrow> ok b \<and> src b = s \<and> dst b = t \<and> lo b = l \<and> hi b = m \<and>
     drop m b = r \<and> segment_with off h d (m - l + 6 + addr_sum s + addr_sum t) sp dp (seg b)"

lemma seg_length: "ok b \<Longrightarrow> length (seg b) = hi b - lo b"
  using bounds [of b] by (simp add: seg_def min_def) linarith

lemma on_seg:
  assumes "ok b" and "returns (f (seg b)) (\<lambda>g. length g = length (seg b) \<and> Q g)"
  shows "returns (on_slice (lo b) (hi b) f b) (\<lambda>b'. ok b' \<and> src b' = src b \<and> dst b' = dst b \<and>
    lo b' = lo b \<and> hi b' = hi b \<and> drop (hi b) b' = drop (hi b) b \<and> Q (seg b'))"
proof -
  note b = bounds [OF assms(1)]
  obtain g where g: "f (seg b) = Some g" "length g = hi b - lo b" "Q g"
    using assms seg_length [OF assms(1)] by (auto simp: returns_iff)
  let ?b = "take (lo b) b @ g @ drop (hi b) b"
  have "on_slice (lo b) (hi b) f b = Some ?b"
    using b g(1) by (simp add: on_slice_in seg_def)
  moreover note payload [OF assms(1) g(2)]
  moreover have "take (hi b - lo b) (drop (lo b) ?b) = g" "drop (hi b) ?b = drop (hi b) b"
    using b g(2) by simp_all
  ultimately show ?thesis using g(3) by (simp add: seg_def)
qed

lemma segment_with_length: "segment_with off h d n sp dp g \<Longrightarrow> length g = h + length d"
  by (simp add: segment_with_def tcp_segment_length)

text \<open>The three statements of the translation.\<close>

lemma exchange:
  assumes b: "ok b" "lo b = l" "hi b = m" "drop m b = r" "segment_with off h d (n + addr_sum old) sp dp (seg b)"
    and b': "ok b'" "src b' = s" "dst b' = t" "lo b' = l" "hi b' = m" "length b' = length b" "drop l b' = drop l b"
    and a: "wf_Address old" "wf_Address new" "a_length old = a_length new"
    and n: "n + addr_sum new = m - l + 6 + addr_sum s + addr_sum t"
  shows "returns (if \<not> off then on_slice l m (\<lambda>g. TCP_UpdateChecksumPseudoHeaderAddress g old new True) b' else Some b')
    (carries off h d s t sp dp l m r)"
proof -
  have sg: "seg b' = seg b" using b b' by (simp add: seg_def)
  have dr: "drop m b' = r"
    using b'(7) b bounds [OF b(1)] by (metis drop_drop le_add_diff_inverse2)
  have "returns (TCP_UpdateChecksumPseudoHeaderAddress (seg b') old new True) (\<lambda>g'. length g' = length (seg b') \<and>
      segment_with off h d (n + addr_sum new) sp dp g')" if "\<not> off"
  proof -
    have v: "tcp_segment h d (seg b)" "verifies (n + addr_sum old) (seg b)"
      using b(5) that by (simp_all add: segment_with_def)
    from tcp.UpdateAddress_good [OF v a] show ?thesis
      using b(5) sg by (auto simp: segment_with_def tcp_segment_length elim!: returns_mono)
  qed
  then show ?thesis
    using on_seg [OF b'(1), of "\<lambda>g. TCP_UpdateChecksumPseudoHeaderAddress g old new True"
        "segment_with off h d (n + addr_sum new) sp dp"] b b' sg dr
    by (cases off) (auto simp: carries_def segment_with_def n elim!: returns_mono)
qed

lemma source_step:
  assumes "carries off h d s t sp dp l m r b" and x: "length x = alen"
  shows "returns (if From x \<noteq> s then do {
       b \<leftarrow> SetSrc b (From x);
       if \<not> off then on_slice l m (\<lambda>g. TCP_UpdateChecksumPseudoHeaderAddress g s (From x) True) b else Some b }
     else Some b) (carries off h d (From x) t sp dp l m r)"
proof (cases "From x = s")
  case False
  have b: "ok b" "src b = s" "dst b = t" "lo b = l" "hi b = m" "drop m b = r"
    and g: "segment_with off h d (m - l + 6 + addr_sum t + addr_sum s) sp dp (seg b)"
    using assms(1) by (simp_all add: carries_def ac_simps)
  have "returns (if \<not> off then on_slice l m (\<lambda>g. TCP_UpdateChecksumPseudoHeaderAddress g s (From x) True) b' else Some b')
      (carries off h d (From x) t sp dp l m r)"
    if b': "ok b'" "src b' = From x" "dst b' = dst b" "lo b' = lo b" "hi b' = hi b" "length b' = length b"
      "drop (lo b) b' = drop (lo b) b" for b'
    by (rule exchange [OF b(1,4,5,6) g b'(1)]) (use b' b addresses [OF b(1)] From_wf [OF x] in simp_all)
  then show ?thesis
    using False SetSrc_right [OF b(1) x] by (auto elim!: returns_mono)
qed (use assms in simp)

lemma destination_step:
  assumes "carries off h d s t sp dp l m r b" and x: "length x = alen"
  shows "returns (if From x \<noteq> t then do {
       b \<leftarrow> SetDst b (From x);
       if \<not> off then on_slice l m (\<lambda>g. TCP_UpdateChecksumPseudoHeaderAddress g t (From x) True) b else Some b }
     else Some b) (carries off h d s (From x) sp dp l m r)"
proof (cases "From x = t")
  case False
  have b: "ok b" "src b = s" "dst b = t" "lo b = l" "hi b = m" "drop m b = r"
    and g: "segment_with off h d (m - l + 6 + addr_sum s + addr_sum t) sp dp (seg b)"
    using assms(1) by (simp_all add: carries_def)
  have "returns (if \<not> off then on_slice l m (\<lambda>g. TCP_UpdateChecksumPseudoHeaderAddress g t (From x) True) b' else Some b')
      (carries off h d s (From x) sp dp l m r)"
    if b': "ok b'" "dst b' = From x" "src b' = src b" "lo b' = lo b" "hi b' = hi b" "length b' = length b"
      "drop (lo b) b' = drop (lo b) b" for b'
    by (rule exchange [OF b(1,4,5,6) g b'(1)]) (use b' b addresses [OF b(1)] From_wf [OF x] in simp_all)
  then show ?thesis
    using False SetDst_right [OF b(1) x] by (auto elim!: returns_mono)
qed (use assms in simp)

lemma ports_step:
  assumes "carries off h d s t sp dp l m r b"
  shows "returns (on_slice l m (rewrite_ports off p ps q qs) b) (\<lambda>b'.
    carries off h d s t (if ps then p else sp) (if qs then q else dp) l m r b' \<and>
    (off \<longrightarrow> TCP_Checksum (seg b') = Some 0))"
proof -
  have b: "ok b" "src b = s" "dst b = t" "lo b = l" "hi b = m" "drop m b = r"
    and g: "segment_with off h d (m - l + 6 + addr_sum s + addr_sum t) sp dp (seg b)"
    using assms(1) by (simp_all add: carries_def)
  let ?Q = "\<lambda>g. segment_with off h d (m - l + 6 + addr_sum s + addr_sum t) (if ps then p else sp) (if qs then q else dp) g \<and>
    (off \<longrightarrow> TCP_Checksum g = Some 0)"
  have "returns (rewrite_ports off p ps q qs (seg b)) (\<lambda>g'. length g' = length (seg b) \<and> ?Q g')"
    by (rule returns_mono [OF rewrite_ports_right [OF g]]) (use g segment_with_length in auto)
  from on_seg [of b "rewrite_ports off p ps q qs" ?Q, OF b(1) this] show ?thesis
    using b by (auto simp: carries_def elim!: returns_mono)
qed

lemma translate:
  assumes "carries off h d s t sp dp l m r b" and "length x = alen" and "length y = alen"
  shows "returns (do {
     b \<leftarrow> (if From x \<noteq> s then do {
         b \<leftarrow> SetSrc b (From x);
         if \<not> off then on_slice l m (\<lambda>g. TCP_UpdateChecksumPseudoHeaderAddress g s (From x) True) b else Some b }
       else Some b);
     b \<leftarrow> (if From y \<noteq> t then do {
         b \<leftarrow> SetDst b (From y);
         if \<not> off then on_slice l m (\<lambda>g. TCP_UpdateChecksumPseudoHeaderAddress g t (From y) True) b else Some b }
       else Some b);
     on_slice l m (rewrite_ports off p ps q qs) b }) (\<lambda>b'.
    carries off h d (From x) (From y) (if ps then p else sp) (if qs then q else dp) l m r b' \<and>
    (off \<longrightarrow> TCP_Checksum (seg b') = Some 0))"
  unfolding returns_bind
  by (rule returns_mono [OF source_step [OF assms(1,2), unfolded returns_bind]])
    (rule returns_mono [OF destination_step [OF _ assms(3), unfolded returns_bind]], assumption, erule ports_step)

end

section \<open>The instances\<close>

definition ok4 :: "IPv4 \<Rightarrow> bool" where
  "ok4 b \<longleftrightarrow> valid4 b (length b) \<and> rfc1071 (take (hlen4 b) b) 0 = 0xffff"

definition src4 :: "IPv4 \<Rightarrow> Address" where
  "src4 b = AddrFrom4 (take 4 (drop 12 b))"

definition dst4 :: "IPv4 \<Rightarrow> Address" where
  "dst4 b = AddrFrom4 (take 4 (drop 16 b))"

lemma header4_cong:
  assumes "take 10 b = take 10 c" and "20 \<le> length b" "20 \<le> length c"
  shows "hlen4 b = hlen4 c" "tlen4 b = tlen4 c" "b ! 0 = c ! 0"
proof -
  have "b ! i = c ! i" if "i < 10" for i
    using assms(1) that by (metis nth_take)
  then show "hlen4 b = hlen4 c" "tlen4 b = tlen4 c" "b ! 0 = c ! 0"
    by (simp_all add: hlen4_def tlen4_def)
qed

lemma payload4:
  assumes "valid4 b (length b)" and "length s = tlen4 b - hlen4 b"
  defines "b' \<equiv> take (hlen4 b) b @ s @ drop (tlen4 b) b"
  shows "valid4 b' (length b')" "hlen4 b' = hlen4 b" "tlen4 b' = tlen4 b" "src4 b' = src4 b" "dst4 b' = dst4 b"
    "length b' = length b" "take (hlen4 b) b' = take (hlen4 b) b" "take (tlen4 b - hlen4 b) (drop (hlen4 b) b') = s"
    "b' ! 9 = b ! 9"
proof -
  note b = valid4D [OF assms(1)]
  show l: "length b' = length b" using assms(2) b by (simp add: b'_def)
  have t: "take k b' = take k b" if "k \<le> hlen4 b" for k
    using that b by (simp add: b'_def min_def)
  show h: "hlen4 b' = hlen4 b" "tlen4 b' = tlen4 b"
    using header4_cong [of b' b] t [of 10] l b by simp_all
  show "valid4 b' (length b')"
    using assms(1) header4_cong [of b' b] t [of 10] h l b by (simp add: valid4_def)
  have "take 4 (drop k b') = take 4 (drop k b)" if "k + 4 \<le> hlen4 b" for k
    using t [OF that] by (metis add_diff_cancel_left' drop_take)
  from this [of 12] this [of 16] show "src4 b' = src4 b" "dst4 b' = dst4 b"
    using b(3) by (simp_all add: src4_def dst4_def)
  show "take (hlen4 b) b' = take (hlen4 b) b" by (rule t) simp
  show "take (tlen4 b - hlen4 b) (drop (hlen4 b) b') = s" using assms(2) b by (simp add: b'_def)
  show "b' ! 9 = b ! 9" using t [of 10] b(3) nth_take [of 9 10 b'] nth_take [of 9 10 b] by simp
qed

interpretation ip4: tcp_carrier ok4 hlen4 tlen4 src4 dst4 IPv4_SetSourceAddressWithChecksumUpdate
    IPv4_SetDestinationAddressWithChecksumUpdate AddrFrom4 4
proof unfold_locales
  fix b x s :: bytes
  show "length x = 4 \<Longrightarrow> wf_Address (AddrFrom4 x) \<and> a_length (AddrFrom4 x) = 4"
    using AddrFrom4_wf [of x] by simp
  assume ok: "ok4 b"
  then have v: "valid4 b (length b)" and ck: "rfc1071 (take (hlen4 b) b) 0 = 0xffff" by (simp_all add: ok4_def)
  note b = valid4D [OF v]
  show "hlen4 b \<le> tlen4 b \<and> tlen4 b \<le> length b" using b by simp
  show "wf_Address (src4 b) \<and> a_length (src4 b) = 4 \<and> wf_Address (dst4 b) \<and> a_length (dst4 b) = 4"
    using b AddrFrom4_wf by (simp add: src4_def dst4_def)
  have keep: "hlen4 b' = hlen4 b \<and> tlen4 b' = tlen4 b \<and> length b' = length b \<and> drop (hlen4 b) b' = drop (hlen4 b) b"
    if "length b' = length b" "take 10 b' = take 10 b" "drop 20 b' = drop 20 b" for b'
    using header4_cong [OF that(2)] that b by (simp, metis drop_drop le_add_diff_inverse2)
  {
    assume x: "length x = 4"
    have wf: "wf_Address (AddrFrom4 x)" "a_length (AddrFrom4 x) = 4" "take 4 (a_addr (AddrFrom4 x)) = x"
      using AddrFrom4_wf [OF x] by simp_all
    note src = IPv4_SetSourceUpdate [OF v ck wf(1,2)] and dst = IPv4_SetDestinationUpdate [OF v ck wf(1,2)]
    show "returns (IPv4_SetSourceAddressWithChecksumUpdate b (AddrFrom4 x)) (\<lambda>b'. ok4 b' \<and>
        src4 b' = AddrFrom4 x \<and> dst4 b' = dst4 b \<and> hlen4 b' = hlen4 b \<and> tlen4 b' = tlen4 b \<and> length b' = length b \<and>
        drop (hlen4 b) b' = drop (hlen4 b) b)"
      unfolding ok4_def src4_def dst4_def by (rule returns_mono [OF src]) (use wf(3) keep in metis)
    show "returns (IPv4_SetDestinationAddressWithChecksumUpdate b (AddrFrom4 x)) (\<lambda>b'. ok4 b' \<and>
        dst4 b' = AddrFrom4 x \<and> src4 b' = src4 b \<and> hlen4 b' = hlen4 b \<and> tlen4 b' = tlen4 b \<and> length b' = length b \<and>
        drop (hlen4 b) b' = drop (hlen4 b) b)"
      unfolding ok4_def src4_def dst4_def by (rule returns_mono [OF dst]) (use wf(3) keep in metis)
  }
  assume s: "length s = tlen4 b - hlen4 b"
  note p = payload4 [OF v s]
  show "ok4 (take (hlen4 b) b @ s @ drop (tlen4 b) b) \<and> src4 (take (hlen4 b) b @ s @ drop (tlen4 b) b) = src4 b \<and>
      dst4 (take (hlen4 b) b @ s @ drop (tlen4 b) b) = dst4 b \<and> hlen4 (take (hlen4 b) b @ s @ drop (tlen4 b) b) = hlen4 b \<and>
      tlen4 (take (hlen4 b) b @ s @ drop (tlen4 b) b) = tlen4 b"
    unfolding ok4_def p(2-5,7) using p(1) ck by simp
qed

definition ok6 :: "IPv6 \<Rightarrow> bool" where
  "ok6 b \<longleftrightarrow> valid6 b (length b)"

definition src6 :: "IPv6 \<Rightarrow> Address" where
  "src6 b = AddrFrom16 (take 16 (drop 8 b))"

definition dst6 :: "IPv6 \<Rightarrow> Address" where
  "dst6 b = AddrFrom16 (take 16 (drop 24 b))"

abbreviation end6 :: "IPv6 \<Rightarrow> nat" where
  "end6 b \<equiv> 40 + plen6 b"

lemma header6_cong:
  assumes "take 8 b = take 8 c"
  shows "plen6 b = plen6 c" "b ! 0 = c ! 0"
proof -
  have "b ! i = c ! i" if "i < 8" for i
    using assms that by (metis nth_take)
  then show "plen6 b = plen6 c" "b ! 0 = c ! 0" by (simp_all add: plen6_def)
qed

lemma IPv6_SetAddress_eq:
  assumes "40 \<le> length b" and "length x = 16"
  shows "IPv6_SetSourceAddress b (AddrFrom16 x) = Some (take 8 b @ x @ drop 24 b)"
    and "IPv6_SetDestinationAddress b (AddrFrom16 x) = Some (take 24 b @ x @ drop 40 b)"
proof -
  have "AsSlice (AddrFrom16 x) = Some x"
    using AsSlice_wf [of "AddrFrom16 x"] AddrFrom16_wf [OF assms(2)] by simp
  then show "IPv6_SetSourceAddress b (AddrFrom16 x) = Some (take 8 b @ x @ drop 24 b)"
    and "IPv6_SetDestinationAddress b (AddrFrom16 x) = Some (take 24 b @ x @ drop 40 b)"
    using assms by (simp_all add: IPv6_SetSourceAddress_def IPv6_SetDestinationAddress_def go_simps put_slice_def)
qed

interpretation ip6: tcp_carrier ok6 "\<lambda>_. 40" end6 src6 dst6 IPv6_SetSourceAddress IPv6_SetDestinationAddress AddrFrom16 16
proof unfold_locales
  fix b x s :: bytes
  show "length x = 16 \<Longrightarrow> wf_Address (AddrFrom16 x) \<and> a_length (AddrFrom16 x) = 16"
    using AddrFrom16_wf [of x] by simp
  assume ok: "ok6 b"
  then have b: "40 \<le> length b" "end6 b \<le> length b" "unat (b ! 0) div 16 = 6" by (simp_all add: ok6_def valid6_def)
  show "40 \<le> end6 b \<and> end6 b \<le> length b" using b by simp
  show "wf_Address (src6 b) \<and> a_length (src6 b) = 16 \<and> wf_Address (dst6 b) \<and> a_length (dst6 b) = 16"
    using b AddrFrom16_wf by (simp add: src6_def dst6_def)
  {
    assume x: "length x = 16"
    have "ok6 (take 8 b @ x @ drop 24 b)" "plen6 (take 8 b @ x @ drop 24 b) = plen6 b"
      using header6_cong [of "take 8 b @ x @ drop 24 b" b] b x by (simp_all add: ok6_def valid6_def)
    then show "returns (IPv6_SetSourceAddress b (AddrFrom16 x)) (\<lambda>b'. ok6 b' \<and> src6 b' = AddrFrom16 x \<and>
        dst6 b' = dst6 b \<and> 40 = (40 :: nat) \<and> end6 b' = end6 b \<and> length b' = length b \<and> drop 40 b' = drop 40 b)"
      using IPv6_SetAddress_eq(1) [OF b(1) x] b x by (simp add: src6_def dst6_def)
    have "ok6 (take 24 b @ x @ drop 40 b)" "plen6 (take 24 b @ x @ drop 40 b) = plen6 b"
      using header6_cong [of "take 24 b @ x @ drop 40 b" b] b x by (simp_all add: ok6_def valid6_def)
    then show "returns (IPv6_SetDestinationAddress b (AddrFrom16 x)) (\<lambda>b'. ok6 b' \<and> dst6 b' = AddrFrom16 x \<and>
        src6 b' = src6 b \<and> 40 = (40 :: nat) \<and> end6 b' = end6 b \<and> length b' = length b \<and> drop 40 b' = drop 40 b)"
      using IPv6_SetAddress_eq(2) [OF b(1) x] b x by (simp add: src6_def dst6_def drop_take)
  }
  assume s: "length s = end6 b - 40"
  let ?b = "take 40 b @ s @ drop (end6 b) b"
  have "plen6 ?b = plen6 b" "?b ! 0 = b ! 0" using header6_cong [of ?b b] b by simp_all
  then show "ok6 ?b \<and> src6 ?b = src6 b \<and> dst6 ?b = dst6 b \<and> 40 = (40 :: nat) \<and> end6 ?b = end6 b"
    using b s by (simp add: ok6_def valid6_def src6_def dst6_def drop_take)
qed

section \<open>TCP packets\<close>

text \<open>
  A TCP packet as its receiver sees it: the network header is accepted, its checksum verifies, the
  segment has a whole header, and \<open>TCPValid\<close> accepts it (unless the device computes checksums,
  \<open>off\<close>); the two endpoints and the data it carries.
\<close>

definition tcp_shape :: "TCP \<Rightarrow> bool" where
  "tcp_shape t \<longleftrightarrow> returns (TCP_DataOffset t) (\<lambda>n. 20 \<le> unat n \<and> unat n \<le> length t)"

definition good4 :: "bool \<Rightarrow> IPv4 \<Rightarrow> bool" where
  "good4 off b \<longleftrightarrow> IPv4_IsValid b (length b) = Some True \<and> IPv4_IsChecksumValid b = Some True \<and>
     returns (do { p \<leftarrow> IPv4_Payload b; s \<leftarrow> IPv4_SourceAddress b; d \<leftarrow> IPv4_DestinationAddress b; Some (p, s, d) })
       (\<lambda>(p, s, d). tcp_shape p \<and> (off \<or> accepts_tcp s d p))"

definition good6 :: "bool \<Rightarrow> IPv6 \<Rightarrow> bool" where
  "good6 off b \<longleftrightarrow> IPv6_IsValid b (length b) = Some True \<and>
     returns (do { p \<leftarrow> IPv6_Payload b; s \<leftarrow> IPv6_SourceAddress b; d \<leftarrow> IPv6_DestinationAddress b; Some (p, s, d) })
       (\<lambda>(p, s, d). tcp_shape p \<and> (off \<or> accepts_tcp s d p))"

definition endpoints4 :: "IPv4 \<Rightarrow> (AddrPort \<times> AddrPort) option" where
  "endpoints4 b = do {
     s \<leftarrow> IPv4_SourceAddr b; d \<leftarrow> IPv4_DestinationAddr b; p \<leftarrow> IPv4_Payload b;
     sp \<leftarrow> TCP_SourcePort p; dp \<leftarrow> TCP_DestinationPort p; Some ((s, sp), (d, dp)) }"

definition endpoints6 :: "IPv6 \<Rightarrow> (AddrPort \<times> AddrPort) option" where
  "endpoints6 b = do {
     s \<leftarrow> IPv6_SourceAddr b; d \<leftarrow> IPv6_DestinationAddr b; p \<leftarrow> IPv6_Payload b;
     sp \<leftarrow> TCP_SourcePort p; dp \<leftarrow> TCP_DestinationPort p; Some ((s, sp), (d, dp)) }"

lemma tcp_shape_iff: "tcp_shape t \<longleftrightarrow> tcp_segment (tcp_off t) (drop (tcp_off t) t) t"
proof (cases "13 \<le> length t")
  case False
  have "tcp_off t = tcp_off t" ..
  with False show ?thesis
    by (auto simp: tcp_shape_def TCP_DataOffset_def byte_at_def tcp_segment_def)
qed (auto simp: tcp_shape_def TCP_DataOffset_eq tcp_segment_def)

lemma segment_with_iff:
  assumes "length t < 65536" and "wf_Address s" and "wf_Address d"
  shows "tcp_shape t \<and> (off \<or> accepts_tcp s d t) \<and> TCP_SourcePort t = Some sp \<and> TCP_DestinationPort t = Some dp \<longleftrightarrow>
    segment_with off (tcp_off t) (drop (tcp_off t) t) (length t + 6 + addr_sum s + addr_sum d) sp dp t"
proof -
  have "verifies (length t + 6 + addr_sum s + addr_sum d) t = verifies (addr_sum d + length t + 6 + addr_sum s) t"
    by (simp add: ac_simps)
  then show ?thesis
    using accepts_tcp_iff [OF assms] by (auto simp: segment_with_def tcp_shape_iff)
qed

lemma tcp_shape_ports: "tcp_shape t \<Longrightarrow> \<exists>sp dp. TCP_SourcePort t = Some sp \<and> TCP_DestinationPort t = Some dp"
  using tcp_segmentD(1) [of "tcp_off t" "drop (tcp_off t) t" t]
  by (simp add: tcp_shape_iff TCP_SourcePort_def TCP_DestinationPort_def go_simps)

text \<open>The receiver's view and the carrier's view of one packet.\<close>

lemma good4_carries:
  assumes "good4 off b" and "endpoints4 b = Some ((s, sp), (d, dp))"
  shows "ip4.carries off (tcp_off (ip4.seg b)) (drop (tcp_off (ip4.seg b)) (ip4.seg b)) (src4 b) (dst4 b) sp dp
    (hlen4 b) (tlen4 b) (drop (tlen4 b) b) b" and "IPv4_Payload b = Some (ip4.seg b)" and "ok4 b"
    and "IPv4_SourceAddress b = Some (src4 b)" and "IPv4_DestinationAddress b = Some (dst4 b)"
proof -
  have v: "valid4 b (length b)" using assms(1) by (simp add: good4_def IPv4_IsValid_eq)
  note b = valid4D [OF v]
  have ck: "rfc1071 (take (hlen4 b) b) 0 = 0xffff"
    using assms(1) b by (simp add: good4_def IPv4_IsChecksumValid_eq)
  show ok: "ok4 b" using v ck by (simp add: ok4_def)
  show p: "IPv4_Payload b = Some (ip4.seg b)"
    unfolding ip4.seg_def by (rule IPv4_Payload_eq [OF v order_refl])
  show a: "IPv4_SourceAddress b = Some (src4 b)" "IPv4_DestinationAddress b = Some (dst4 b)"
    using b by (simp_all add: IPv4_SourceAddress_def IPv4_DestinationAddress_def go_simps src4_def dst4_def)
  have l: "length (ip4.seg b) = tlen4 b - hlen4 b" by (rule ip4.seg_length [OF ok])
  have "length (ip4.seg b) < 65536" using l tlen4_less [of b] by linarith
  moreover have "tcp_shape (ip4.seg b) \<and> (off \<or> accepts_tcp (src4 b) (dst4 b) (ip4.seg b))"
    using assms(1) p a by (simp add: good4_def)
  moreover have "TCP_SourcePort (ip4.seg b) = Some sp \<and> TCP_DestinationPort (ip4.seg b) = Some dp"
    using assms(2) p by (auto simp: endpoints4_def split: Option.bind_splits)
  ultimately show "ip4.carries off (tcp_off (ip4.seg b)) (drop (tcp_off (ip4.seg b)) (ip4.seg b)) (src4 b) (dst4 b) sp dp
      (hlen4 b) (tlen4 b) (drop (tlen4 b) b) b"
    using segment_with_iff [of "ip4.seg b" "src4 b" "dst4 b" off sp dp] ip4.addresses [OF ok] ok l
    by (simp add: ip4.carries_def)
qed

lemma carries_good4:
  assumes "ip4.carries off h d (AddrFrom4 x) (AddrFrom4 y) sp dp l m r b" and "length x = 4" "length y = 4"
  shows "good4 off b" and "endpoints4 b = Some ((Addr4 x, sp), (Addr4 y, dp))"
    and "IPv4_Payload b = Some (ip4.seg b)" and "TCP_Payload (ip4.seg b) = Some d"
proof -
  have ok: "ok4 b" and v: "valid4 b (length b)" "rfc1071 (take (hlen4 b) b) 0 = 0xffff"
    and a: "src4 b = AddrFrom4 x" "dst4 b = AddrFrom4 y" and lm: "hlen4 b = l" "tlen4 b = m"
    and sw: "segment_with off h d (m - l + 6 + addr_sum (src4 b) + addr_sum (dst4 b)) sp dp (ip4.seg b)"
    using assms(1) unfolding ip4.carries_def ok4_def by auto
  note b = valid4D [OF v(1)]
  show p: "IPv4_Payload b = Some (ip4.seg b)"
    unfolding ip4.seg_def by (rule IPv4_Payload_eq [OF v(1) order_refl])
  have l: "length (ip4.seg b) = tlen4 b - hlen4 b" by (rule ip4.seg_length [OF ok])
  have g: "tcp_segment h d (ip4.seg b)" using sw by (simp add: segment_with_def)
  note gD = tcp_segmentD [OF g]
  show "TCP_Payload (ip4.seg b) = Some d" using gD by (simp add: TCP_Payload_eq)
  have "length (ip4.seg b) < 65536" using l tlen4_less [of b] by linarith
  then have r: "tcp_shape (ip4.seg b) \<and> (off \<or> accepts_tcp (src4 b) (dst4 b) (ip4.seg b)) \<and>
      TCP_SourcePort (ip4.seg b) = Some sp \<and> TCP_DestinationPort (ip4.seg b) = Some dp"
    using segment_with_iff [of "ip4.seg b" "src4 b" "dst4 b" off sp dp] ip4.addresses [OF ok] sw gD l lm by simp
  have "take 4 (drop 12 b) = x" "take 4 (drop 16 b) = y"
    using a AddrFrom4_wf [OF assms(2)] AddrFrom4_wf [OF assms(3)] AddrFrom4_wf [of "take 4 (drop 12 b)"]
      AddrFrom4_wf [of "take 4 (drop 16 b)"] b by (auto simp: src4_def dst4_def)
  then show "endpoints4 b = Some ((Addr4 x, sp), (Addr4 y, dp))"
    using b p r by (simp add: endpoints4_def IPv4_SourceAddr_def IPv4_DestinationAddr_def go_simps)
  show "good4 off b"
    using b p r v by (simp add: good4_def IPv4_IsValid_eq IPv4_IsChecksumValid_eq IPv4_SourceAddress_def
        IPv4_DestinationAddress_def go_simps flip: src4_def dst4_def)
qed

lemma good6_carries:
  assumes "good6 off b" and "endpoints6 b = Some ((s, sp), (d, dp))"
  shows "ip6.carries off (tcp_off (ip6.seg b)) (drop (tcp_off (ip6.seg b)) (ip6.seg b)) (src6 b) (dst6 b) sp dp
    40 (end6 b) (drop (end6 b) b) b" and "IPv6_Payload b = Some (ip6.seg b)" and "ok6 b"
    and "IPv6_SourceAddress b = Some (src6 b)" and "IPv6_DestinationAddress b = Some (dst6 b)"
proof -
  have v: "valid6 b (length b)" using assms(1) by (simp add: good6_def IPv6_IsValid_eq)
  note b = valid6D [OF v]
  show ok: "ok6 b" using v by (simp add: ok6_def)
  show p: "IPv6_Payload b = Some (ip6.seg b)"
    using IPv6_Payload_eq [OF v order_refl] by (simp add: ip6.seg_def)
  show a: "IPv6_SourceAddress b = Some (src6 b)" "IPv6_DestinationAddress b = Some (dst6 b)"
    using b by (simp_all add: IPv6_SourceAddress_def IPv6_DestinationAddress_def go_simps src6_def dst6_def)
  have l: "length (ip6.seg b) = plen6 b" using ip6.seg_length [OF ok] by simp
  then have "length (ip6.seg b) < 65536" unfolding plen6_def by (simp only: unat_u16_less)
  moreover have "tcp_shape (ip6.seg b) \<and> (off \<or> accepts_tcp (src6 b) (dst6 b) (ip6.seg b))"
    using assms(1) p a by (simp add: good6_def)
  moreover have "TCP_SourcePort (ip6.seg b) = Some sp \<and> TCP_DestinationPort (ip6.seg b) = Some dp"
    using assms(2) p by (auto simp: endpoints6_def split: Option.bind_splits)
  ultimately show "ip6.carries off (tcp_off (ip6.seg b)) (drop (tcp_off (ip6.seg b)) (ip6.seg b)) (src6 b) (dst6 b) sp dp
      40 (end6 b) (drop (end6 b) b) b"
    using segment_with_iff [of "ip6.seg b" "src6 b" "dst6 b" off sp dp] ip6.addresses [OF ok] ok l
    by (simp add: ip6.carries_def)
qed

lemma carries_good6:
  assumes "ip6.carries off h d (AddrFrom16 x) (AddrFrom16 y) sp dp l m r b" and "length x = 16" "length y = 16"
  shows "good6 off b" and "endpoints6 b = Some ((Addr16 x, sp), (Addr16 y, dp))"
    and "IPv6_Payload b = Some (ip6.seg b)" and "TCP_Payload (ip6.seg b) = Some d"
proof -
  have ok: "ok6 b" and v: "valid6 b (length b)"
    and a: "src6 b = AddrFrom16 x" "dst6 b = AddrFrom16 y" and lm: "40 = l" "end6 b = m"
    and sw: "segment_with off h d (m - l + 6 + addr_sum (AddrFrom16 x) + addr_sum (AddrFrom16 y)) sp dp (ip6.seg b)"
    using assms(1) unfolding ip6.carries_def ok6_def by blast+
  note b = valid6D [OF v]
  show p: "IPv6_Payload b = Some (ip6.seg b)"
    using IPv6_Payload_eq [OF v order_refl] by (simp add: ip6.seg_def)
  have l: "length (ip6.seg b) = plen6 b" using ip6.seg_length [OF ok] by simp
  have g: "tcp_segment h d (ip6.seg b)" using sw by (simp add: segment_with_def)
  note gD = tcp_segmentD [OF g]
  show "TCP_Payload (ip6.seg b) = Some d" using gD by (simp add: TCP_Payload_eq)
  have "length (ip6.seg b) < 65536" using l unfolding plen6_def by (simp only: unat_u16_less)
  then have r: "tcp_shape (ip6.seg b) \<and> (off \<or> accepts_tcp (src6 b) (dst6 b) (ip6.seg b)) \<and>
      TCP_SourcePort (ip6.seg b) = Some sp \<and> TCP_DestinationPort (ip6.seg b) = Some dp"
    using segment_with_iff [of "ip6.seg b" "src6 b" "dst6 b" off sp dp] ip6.addresses [OF ok] sw gD l
    by (simp add: lm [symmetric] a)
  have "take 16 (drop 8 b) = x" "take 16 (drop 24 b) = y"
    using a AddrFrom16_wf [OF assms(2)] AddrFrom16_wf [OF assms(3)] AddrFrom16_wf [of "take 16 (drop 8 b)"]
      AddrFrom16_wf [of "take 16 (drop 24 b)"] b by (auto simp: src6_def dst6_def)
  then show "endpoints6 b = Some ((Addr16 x, sp), (Addr16 y, dp))"
    using b p r by (simp add: endpoints6_def IPv6_SourceAddr_def IPv6_DestinationAddr_def go_simps)
  show "good6 off b"
    using b p r v by (simp add: good6_def IPv6_IsValid_eq IPv6_SourceAddress_def
        IPv6_DestinationAddress_def go_simps flip: src6_def dst6_def)
qed

section \<open>Translation\<close>

lemma rewrite4:
  assumes g: "good4 off b" "endpoints4 b = Some ((s, sp), (d, dp))" and x: "length x = 4" and y: "length y = 4"
  shows "returns (rewriteIPv4TCP b (hlen4 b) (tlen4 b) off (Addr4 x) p ps (Addr4 y) q qs) (\<lambda>b'.
    good4 off b' \<and> endpoints4 b' = Some ((Addr4 x, if ps then p else sp), (Addr4 y, if qs then q else dp)) \<and>
    (IPv4_Payload b' \<bind> TCP_Payload) = (IPv4_Payload b \<bind> TCP_Payload) \<and>
    (off \<longrightarrow> (IPv4_Payload b' \<bind> TCP_Checksum) = Some 0))"
proof -
  note c = good4_carries [OF g]
  let ?h = "tcp_off (ip4.seg b)"
  have "tcp_segment ?h (drop ?h (ip4.seg b)) (ip4.seg b)"
    using c(1) by (simp add: ip4.carries_def segment_with_def)
  note gD = tcp_segmentD [OF this]
  have As4: "Addr_As4 (Addr4 z) = Some z" for z by (simp add: Addr_As4_def Unmap_def Is4In6_def)
  show ?thesis
    unfolding rewriteIPv4TCP_def c(4,5) As4 bind.bind_lunit Let_def
    by (rule returns_mono [OF ip4.translate [OF c(1) x y]])
      (use carries_good4 [OF _ x y] c(2) gD in \<open>auto simp: TCP_Payload_eq\<close>)
qed

lemma rewrite6:
  assumes g: "good6 off b" "endpoints6 b = Some ((s, sp), (d, dp))" and x: "length x = 16" and y: "length y = 16"
  shows "returns (rewriteIPv6TCP b 40 (end6 b) off (Addr16 x) p ps (Addr16 y) q qs) (\<lambda>b'.
    good6 off b' \<and> endpoints6 b' = Some ((Addr16 x, if ps then p else sp), (Addr16 y, if qs then q else dp)) \<and>
    (IPv6_Payload b' \<bind> TCP_Payload) = (IPv6_Payload b \<bind> TCP_Payload) \<and>
    (off \<longrightarrow> (IPv6_Payload b' \<bind> TCP_Checksum) = Some 0))"
proof -
  note c = good6_carries [OF g]
  let ?h = "tcp_off (ip6.seg b)"
  have "tcp_segment ?h (drop ?h (ip6.seg b)) (ip6.seg b)"
    using c(1) by (simp add: ip6.carries_def segment_with_def)
  note gD = tcp_segmentD [OF this]
  have As16: "Addr_As16 (Addr16 z) = z" for z by (simp add: Addr_As16_def)
  show ?thesis
    unfolding rewriteIPv6TCP_def c(4,5) As16 bind.bind_lunit Let_def
    by (rule returns_mono [OF ip6.translate [OF c(1) x y]])
      (use carries_good6 [OF _ x y] c(2) gD in \<open>auto simp: TCP_Payload_eq\<close>)
qed

text \<open>The window of \<^verbatim>\<open>ipHdr.Payload()\<close> in the packet.\<close>

definition payload_window4 :: "IPv4 \<Rightarrow> (nat \<times> nat) option" where
  "payload_window4 b = do {
     hl \<leftarrow> IPv4_HeaderLength b; pl \<leftarrow> IPv4_PayloadLength b; _ \<leftarrow> IPv4_Payload b;
     Some (unat hl, unat hl + unat pl) }"

definition payload_window6 :: "IPv6 \<Rightarrow> (nat \<times> nat) option" where
  "payload_window6 b = do {
     pl \<leftarrow> IPv6_PayloadLength b; _ \<leftarrow> IPv6_Payload b; Some (40, 40 + unat pl) }"

lemma payload_window4_eq:
  assumes "valid4 b (length b)"
  shows "payload_window4 b = Some (hlen4 b, tlen4 b)"
proof -
  note v = valid4D [OF assms]
  have "unat (word_of_nat (tlen4 b - hlen4 b) :: u16) = tlen4 b - hlen4 b"
    by (intro unat_of_nat_u16) (simp add: less_imp_diff_less)
  then show ?thesis
    using v IPv4_HeaderLength_eq [OF v(2)] IPv4_PayloadLength_eq [of b] IPv4_Payload_eq [OF assms]
    by (simp add: payload_window4_def)
qed

lemma payload_window6_eq:
  assumes "valid6 b (length b)"
  shows "payload_window6 b = Some (40, end6 b)"
  using valid6D [OF assms] IPv6_PayloadLength_eq [of b] IPv6_Payload_eq [OF assms]
  by (simp add: payload_window6_def plen6_def)

section \<open>Properties\<close>

text \<open>
  C3. The translation of the system stack is right, for IPv4 and for IPv6: a TCP packet the receiver
  accepts is rewritten without a panic to one the receiver accepts for the new addresses, with
  exactly the new endpoints (a port that is not to be rewritten is kept), the same data, and, when
  the device computes checksums, a cleared checksum field.
\<close>

theorem rewriteTCP_right:
  assumes "good4 off b" and "endpoints4 b = Some ((s, sp), (d, dp))" and "length x = 4" and "length y = 4"
    and "good6 off c" and "endpoints6 c = Some ((s', sp'), (d', dp'))" and "length u = 16" and "length v = 16"
  shows "returns (do { (lo, hi) \<leftarrow> payload_window4 b;
        rewriteIPv4TCP b lo hi off (Addr4 x) p ps (Addr4 y) q qs }) (\<lambda>b'. good4 off b' \<and>
      endpoints4 b' = Some ((Addr4 x, if ps then p else sp), (Addr4 y, if qs then q else dp)) \<and>
      (IPv4_Payload b' \<bind> TCP_Payload) = (IPv4_Payload b \<bind> TCP_Payload) \<and>
      (off \<longrightarrow> (IPv4_Payload b' \<bind> TCP_Checksum) = Some 0)) \<and>
    returns (do { (lo, hi) \<leftarrow> payload_window6 c;
        rewriteIPv6TCP c lo hi off (Addr16 u) p ps (Addr16 v) q qs }) (\<lambda>c'. good6 off c' \<and>
      endpoints6 c' = Some ((Addr16 u, if ps then p else sp'), (Addr16 v, if qs then q else dp')) \<and>
      (IPv6_Payload c' \<bind> TCP_Payload) = (IPv6_Payload c \<bind> TCP_Payload) \<and>
      (off \<longrightarrow> (IPv6_Payload c' \<bind> TCP_Checksum) = Some 0))"
proof -
  have w: "payload_window4 b = Some (hlen4 b, tlen4 b)" "payload_window6 c = Some (40, end6 c)"
    using assms(1,5) payload_window4_eq [of b] payload_window6_eq [of c]
    by (simp_all add: good4_def good6_def IPv4_IsValid_eq IPv6_IsValid_eq)
  show ?thesis
    unfolding w bind.bind_lunit split_conv
    using rewrite4 [OF assms(1-4), of p ps q qs] rewrite6 [OF assms(5-8), of p ps q qs] by (rule conjI)
qed

text \<open>Concrete packets: a SYN from 10.0.0.1 to 10.0.0.2, and one from fd00::1 to fd00::2.\<close>

definition syn4 :: IPv4 where
  "syn4 = [0x45, 0, 0, 40, 0, 0, 0, 0, 64, 6, 0x66, 0xce, 10, 0, 0, 1, 10, 0, 0, 2] @
     [4, 0, 0, 80, 0, 0, 0, 1, 0, 0, 0, 0, 0x50, 2, 0x20, 0, 0x77, 0x8f, 0, 0]"

abbreviation fd00 :: "u8 \<Rightarrow> bytes" where
  "fd00 n \<equiv> [0xfd, 0, 0, 0, 0, 0, 0, 0, 0, 0, 0, 0, 0, 0, 0, n]"

definition syn6 :: IPv6 where
  "syn6 = [0x60, 0, 0, 0, 0, 20, 6, 64] @ (fd00 1) @ (fd00 2) @
     [4, 0, 0, 80, 0, 0, 0, 1, 0, 0, 0, 0, 0x50, 2, 0x20, 0, 0x91, 0x8d, 0, 0]"

lemma syn4_good: "good4 False syn4" and syn4_endpoints: "endpoints4 syn4 = Some ((Addr4 [10, 0, 0, 1], 1024), (Addr4 [10, 0, 0, 2], 80))"
proof -
  have v: "valid4 syn4 (length syn4)" "hlen4 syn4 = 20" "tlen4 syn4 = 40"
    by (simp_all add: syn4_def valid4_def hlen4_def tlen4_def)
  have p: "IPv4_Payload syn4 = Some [4, 0, 0, 80, 0, 0, 0, 1, 0, 0, 0, 0, 0x50, 2, 0x20, 0, 0x77, 0x8f, 0, 0]"
    using IPv4_Payload_eq [OF v(1) order_refl] v by (simp add: syn4_def)
  have wf: "wf_Address (AddrFrom4 [a, b, c, d])" for a b c d :: u8
    by (simp add: AddrFrom4_def wf_Address_def)
  have "accepts_tcp (AddrFrom4 [10, 0, 0, 1]) (AddrFrom4 [10, 0, 0, 2])
      [4, 0, 0, 80, 0, 0, 0, 1, 0, 0, 0, 0, 0x50, 2, 0x20, 0, 0x77, 0x8f, 0, 0]"
    by (subst accepts_tcp_iff [OF _ wf wf])
      (simp_all add: tcp_segment_def tcp_off_def verifies_def addr_sum_def AddrFrom4_def go_copy_def)
  then show "good4 False syn4"
    using v p by (simp add: good4_def IPv4_IsValid_eq IPv4_IsChecksumValid_eq rfc1071_valid_iff syn4_def
        IPv4_SourceAddress_def IPv4_DestinationAddress_def go_simps tcp_shape_iff tcp_segment_def tcp_off_def)
  show "endpoints4 syn4 = Some ((Addr4 [10, 0, 0, 1], 1024), (Addr4 [10, 0, 0, 2], 80))"
    using p by (simp add: endpoints4_def IPv4_SourceAddr_def IPv4_DestinationAddr_def syn4_def go_simps tcp_fields be16_def)
qed

lemma syn6_good: "good6 False syn6" and syn6_endpoints:
    "endpoints6 syn6 = Some ((Addr16 (fd00 1), 1024), (Addr16 (fd00 2), 80))"
proof -
  have v: "valid6 syn6 (length syn6)" "plen6 syn6 = 20"
    by (simp_all add: syn6_def valid6_def plen6_def)
  have p: "IPv6_Payload syn6 = Some [4, 0, 0, 80, 0, 0, 0, 1, 0, 0, 0, 0, 0x50, 2, 0x20, 0, 0x91, 0x8d, 0, 0]"
    using IPv6_Payload_eq [OF v(1) order_refl] v by (simp add: syn6_def)
  have wf: "wf_Address (AddrFrom16 (fd00 b))" for b :: u8
    using AddrFrom16_wf [of "fd00 b"] by simp
  have "accepts_tcp (AddrFrom16 (fd00 1)) (AddrFrom16 (fd00 2))
      [4, 0, 0, 80, 0, 0, 0, 1, 0, 0, 0, 0, 0x50, 2, 0x20, 0, 0x91, 0x8d, 0, 0]"
    by (subst accepts_tcp_iff [OF _ wf wf])
      (simp_all add: tcp_segment_def tcp_off_def verifies_def addr_sum_def AddrFrom16_def go_copy_def)
  then show "good6 False syn6"
    using v p by (simp add: good6_def IPv6_IsValid_eq syn6_def
        IPv6_SourceAddress_def IPv6_DestinationAddress_def go_simps tcp_shape_iff tcp_segment_def tcp_off_def)
  show "endpoints6 syn6 = Some ((Addr16 (fd00 1), 1024), (Addr16 (fd00 2), 80))"
    using p by (simp add: endpoints6_def IPv6_SourceAddr_def IPv6_DestinationAddr_def syn6_def go_simps tcp_fields
        be16_def)
qed

theorem rewriteTCP_right_witness:
  "returns (do { (lo, hi) \<leftarrow> payload_window4 syn4;
       rewriteIPv4TCP syn4 lo hi False (Addr4 [172, 18, 0, 2]) 10000 True (Addr4 [172, 18, 0, 1]) 443 True }) (\<lambda>b'.
     good4 False b' \<and> endpoints4 b' = Some ((Addr4 [172, 18, 0, 2], 10000), (Addr4 [172, 18, 0, 1], 443))) \<and>
   returns (do { (lo, hi) \<leftarrow> payload_window6 syn6;
       rewriteIPv6TCP syn6 lo hi False (Addr16 (replicate 16 7)) 10000 True (Addr16 (replicate 16 9)) 443 True }) (\<lambda>c'.
     good6 False c' \<and> endpoints6 c' = Some ((Addr16 (replicate 16 7), 10000), (Addr16 (replicate 16 9), 443)))"
proof -
  have l: "length [172, 18, 0, 2 :: u8] = 4" "length [172, 18, 0, 1 :: u8] = 4"
    "length (replicate 16 (7 :: u8)) = 16" "length (replicate 16 (9 :: u8)) = 16" by simp_all
  note r = rewriteTCP_right [OF syn4_good syn4_endpoints l(1,2) syn6_good syn6_endpoints l(3,4), of 10000 True 443 True]
  show ?thesis
    by (rule conjI; rule returns_mono, rule conjunct1 [OF r] conjunct2 [OF r]) simp_all
qed

end
