(* ===== verification/Packet_Build.thy ===== *)
theory Packet_Build
  imports System_Rewrite IPv4_Options
begin

text \<open>
  Lemmas for the functions that build packets of their own in a fresh buffer: what the two
  \<^verbatim>\<open>Encode\<close> functions leave in the buffer when there are no options or extension headers, and that the
  checksums computed afterwards verify. The buffer is arbitrary, since it comes from a pool.
\<close>

lemma encode_plain4:
  assumes "20 \<le> length b" and "length b < 65536"
    and "f4_Options i = []" "f4_SrcAddr i = Addr4 s" "length s = 4" "f4_DstAddr i = Addr4 d" "length d = 4"
    and "f4_TotalLength i = word_of_nat (length b)"
  shows "\<exists>e. IPv4_Encode b i = Some e \<and> valid4 e (length e) \<and> hlen4 e = 20 \<and> tlen4 e = length b \<and>
    length e = length b \<and> take 4 (drop 12 e) = s \<and> take 4 (drop 16 e) = d \<and> drop 20 e = drop 20 b \<and>
    e ! 9 = f4_Protocol i"
proof -
  let ?e = "encoded4 i 20 b"
  note e = encoded4_bytes [OF assms(1,4-7), of 20]
  have enc: "IPv4_Encode b i = Some ?e"
    using IPv4_Encode_eq [of i b s d] assms(1,3-7) by (simp add: padded4_def)
  have v: "unat (?e ! 0) = 69" unfolding e(5) by simp
  have "hlen4 ?e = 20" unfolding hlen4_def v by simp
  moreover have "tlen4 ?e = length b"
    unfolding tlen4_def e(7,8) be16_hi8_lo8 assms(8) using assms(2) by (rule unat_of_nat_u16)
  moreover have "valid4 ?e (length ?e)"
    using calculation v assms(1) e(1) by (simp add: valid4_def)
  ultimately show ?thesis using enc e(1-4,14) by (intro exI [of _ ?e]) simp
qed

lemma encode_plain6:
  assumes "40 \<le> length b" and "length b < 65536 + 40"
    and "f6_ExtensionHeaders i = []" "f6_SrcAddr i = Addr16 s" "length s = 16" "f6_DstAddr i = Addr16 d" "length d = 16"
    and "f6_PayloadLength i = word_of_nat (length b - 40)"
  shows "\<exists>e. IPv6_Encode b i = Some e \<and> valid6 e (length e) \<and> plen6 e = length b - 40 \<and>
    length e = length b \<and> take 16 (drop 8 e) = s \<and> take 16 (drop 24 e) = d \<and> drop 40 e = drop 40 b \<and>
    e ! 6 = ucast (f6_TransportProtocol i)"
proof -
  let ?h = "encoded6 i (ucast (f6_TransportProtocol i))"
  let ?e = "?h @ drop 40 b"
  note e = encoded6_bytes [OF assms(4-7), of "ucast (f6_TransportProtocol i)" "drop 40 b"]
  have enc: "IPv6_Encode b i = Some ?e"
    using IPv6_Encode_eq [OF assms(1,4-7)] assms(3) by (simp add: ExtHdr_Serialize_def)
  have len: "length ?e = length b" "length ?h = 40" using e(1) assms(1) by simp_all
  have "plen6 ?e = length b - 40"
    unfolding plen6_def e(3,4) be16_hi8_lo8 assms(8) using assms(2) by (intro unat_of_nat_u16) linarith
  moreover have "valid6 ?e (length ?e)"
    using calculation e(2) len(1) assms(1) unfolding valid6_def by simp
  moreover have "drop 40 ?e = drop 40 b" using len(2) by simp
  ultimately show ?thesis using enc e(5,7,8) len(1) by (intro exI [of _ ?e]) blast
qed

section \<open>Segments\<close>

text \<open>A header without options and payload, and its checksum.\<close>

lemma TCP_plain:
  assumes "length t = 20" and "ft_DataOffset f = 20"
  shows "\<exists>t'. TCP_Encode t f = Some t' \<and> tcp_segment 20 [] t' \<and> TCP_SourcePort t' = Some (ft_SrcPort f) \<and>
    TCP_DestinationPort t' = Some (ft_DstPort f) \<and> TCP_SequenceNumber t' = Some (ft_SeqNum f) \<and>
    TCP_AckNumber t' = Some (ft_AckNum f) \<and> TCP_Flags t' = Some (ft_Flags f)"
proof -
  obtain t' where t': "TCP_Encode t f = Some t'" "TCP_SourcePort t' = Some (ft_SrcPort f)"
      "TCP_DestinationPort t' = Some (ft_DstPort f)" "TCP_SequenceNumber t' = Some (ft_SeqNum f)"
      "TCP_AckNumber t' = Some (ft_AckNum f)" "TCP_DataOffset t' = Some (ft_DataOffset f)"
      "TCP_Flags t' = Some (ft_Flags f)" "length t' = length t"
    using TCP_Encode_fields [of t f] assms by (auto simp: returns_iff)
  have "tcp_off t' = 20"
    using t'(6,8) assms TCP_DataOffset_eq [of t'] unat_tcp_off [of t'] by simp
  then show ?thesis using t' assms by (intro exI [of _ t']) (simp add: tcp_segment_def)
qed

lemma TCP_plain_checksum:
  assumes "tcp_segment 20 [] t" and "unat ph = fold16 n"
  shows "\<exists>c. TCP_CalculateChecksum t ph = Some c \<and>
    TCP_SetChecksum t (NOT c) = Some (t[16 := hi8 (NOT c), 17 := lo8 (NOT c)]) \<and>
    verifies n (t[16 := hi8 (NOT c), 17 := lo8 (NOT c)])"
proof -
  note t = tcp_segmentD [OF assms(1)]
  let ?c = "word_of_nat (fold16 (unat ph + sum16 (take 16 t) + sum16 (drop 18 t))) :: u16"
  have "length t = 20" using t by simp
  then have "TCP_CalculateChecksum t ph = Some ?c"
    using t by (subst TCP_CalculateChecksum_eq) simp_all
  moreover have "cong16 (unat ?c) (n + sum16 (take 16 t) + sum16 (drop (16 + 2) t))"
  proof -
    have "unat ?c = fold16 (n + sum16 (take 16 t) + sum16 (drop 18 t))"
      using assms(2) by (simp add: unat_of_nat_u16 add.assoc)
    then show ?thesis using cong16_fold16 by simp
  qed
  then have "verifies n (t[16 := hi8 (NOT ?c), 16 + 1 := lo8 (NOT ?c)])"
    using t by (intro fresh_xsum) simp_all
  ultimately show ?thesis
    using t by (intro exI [of _ ?c]) (simp add: TCP_SetChecksum_def go_simps)
qed

section \<open>The checksum of the network header\<close>

lemma finish4:
  assumes "valid4 b (length b)"
  shows "\<exists>c b'. IPv4_CalculateChecksum b = Some c \<and> IPv4_SetChecksum b (NOT c) = Some b' \<and> ok4 b' \<and>
    hlen4 b' = hlen4 b \<and> tlen4 b' = tlen4 b \<and> src4 b' = src4 b \<and> dst4 b' = dst4 b \<and> drop (hlen4 b) b' = drop (hlen4 b) b \<and>
    length b' = length b \<and> b' ! 9 = b ! 9"
proof -
  note v = valid4D [OF assms]
  obtain c where c: "IPv4_CalculateChecksum b = Some c"
    "IPv4_SetChecksum b (NOT c) = Some (b[10 := hi8 (NOT c), 11 := lo8 (NOT c)])"
    "rfc1071 (take (hlen4 b) (b[10 := hi8 (NOT c), 11 := lo8 (NOT c)])) 0 = 0xffff"
    using IPv4_fresh_checksum [OF assms] by blast
  let ?b = "b[10 := hi8 (NOT c), 11 := lo8 (NOT c)]"
  have "hlen4 ?b = hlen4 b" "tlen4 ?b = tlen4 b" by (simp_all add: hlen4_def tlen4_def)
  moreover have "valid4 ?b (length ?b)" using valid4_put_xsum [OF assms] by simp
  ultimately show ?thesis
    using c v by (intro exI [of _ c] exI [of _ ?b]) (simp add: ok4_def src4_def dst4_def)
qed

end
