(* ===== verification/Port_Table.thy ===== *)
theory Port_Table
  imports Main
begin

text \<open>
  What the stack relies on of a table that gives connections ports, as an interface: \<open>find\<close> returns
  the port of a connection, new or known, \<open>own\<close> tells which connection has a port, and \<open>step\<close> is any
  other operation that removes nothing. From these laws: a connection keeps its port as long as
  nothing is removed, and two connections never share one. The instance is \<open>TCP_Nat\<close>.
\<close>

locale port_table =
  fixes inv :: "'s \<Rightarrow> bool"
    and find :: "'t \<Rightarrow> 'k \<Rightarrow> 's \<Rightarrow> 's \<times> 'p option"
    and own :: "'s \<Rightarrow> 'p \<Rightarrow> 'k option"
    and step :: "'o \<Rightarrow> 's \<Rightarrow> 's"
  assumes find_inv: "inv s \<Longrightarrow> inv (fst (find t k s))"
    and find_own: "inv s \<Longrightarrow> find t k s = (s', Some p) \<Longrightarrow> own s' p = Some k"
    and find_hit: "inv s \<Longrightarrow> own s p = Some k \<Longrightarrow> snd (find t k s) = Some p"
    and find_keeps: "inv s \<Longrightarrow> own s p = Some k \<Longrightarrow> own (fst (find t j s)) p = Some k"
    and step_inv: "inv s \<Longrightarrow> inv (step op s)"
    and step_own: "inv s \<Longrightarrow> own s p = Some k \<Longrightarrow> own (step op s) p = Some k"
begin

lemma steps_own:
  assumes "inv s" and "own s p = Some k"
  shows "inv (fold step ops s) \<and> own (fold step ops s) p = Some k"
  using assms by (induction ops arbitrary: s) (simp_all add: step_inv step_own)

lemma find_stable:
  assumes "inv s" and "find t k s = (s', Some p)"
  shows "snd (find t' k (fold step ops s')) = Some p"
proof -
  have "inv s'" "own s' p = Some k"
    using find_inv [OF assms(1), of t k] find_own [OF assms] assms(2) by simp_all
  from steps_own [OF this] show ?thesis by (auto intro: find_hit)
qed

lemma find_distinct:
  assumes "inv s" and "find t k s = (s', Some p)" and "find t' k' (fold step ops s') = (s'', Some q)" and "k \<noteq> k'"
  shows "p \<noteq> q"
proof -
  have i: "inv s'" "own s' p = Some k"
    using find_inv [OF assms(1), of t k] find_own [OF assms(1,2)] assms(2) by simp_all
  note s = steps_own [OF this, of ops]
  then have "own s'' p = Some k" "own s'' q = Some k'"
    using find_keeps [of "fold step ops s'" p k t' k'] find_own [of "fold step ops s'" t' k'] assms(3) by simp_all
  with assms(4) show ?thesis by auto
qed

end

end
