(* ===== verification/TCP_Nat.thy ===== *)
theory TCP_Nat
  imports Netip Port_Table
begin

text \<open>
  \<^verbatim>\<open>stack_system_nat.go\<close>: the table that gives every TCP connection seen on the tunnel a port of
  its own, and finds the connection again from the port. Time is an integer number of nanoseconds; an
  operation gets the clock readings it makes as arguments, and the iteration order of a Go map is
  an argument too. A pointer to a session is the session stored at its port: only the code of this
  file changes the maps, under its locks (theory \<open>Nat_Threads\<close> has the interleavings).
\<close>

record TCPSession =
  s_Source :: AddrPort
  s_Destination :: AddrPort
  s_LastActive :: int

type_synonym tcpNatKey = "AddrPort \<times> AddrPort"

record TCPNat =
  n_timeout :: int
  n_portIndex :: u16
  n_addrMap :: "tcpNatKey \<Rightarrow> u16 option"
  n_portMap :: "u16 \<Rightarrow> TCPSession option"

abbreviation (input) Second :: int where "Second \<equiv> 1000000000"

definition NewNat :: "int \<Rightarrow> TCPNat" where
  "NewNat timeout = \<lparr>n_timeout = timeout, n_portIndex = 10000, n_addrMap = Map.empty, n_portMap = Map.empty\<rparr>"

text \<open>\<open>refresh\<close> reads the clock once to compare (\<open>t\<close>) and once to store (\<open>t'\<close>).\<close>

definition Session_refresh :: "int \<Rightarrow> int \<Rightarrow> TCPSession \<Rightarrow> TCPSession" where
  "Session_refresh t t' s = (if t - s_LastActive s > Second then s\<lparr>s_LastActive := t'\<rparr> else s)"

definition Nat_refresh :: "int \<Rightarrow> int \<Rightarrow> u16 \<Rightarrow> TCPNat \<Rightarrow> TCPNat" where
  "Nat_refresh t t' port n = (case n_portMap n port of
     None \<Rightarrow> n
   | Some s \<Rightarrow> n\<lparr>n_portMap := (n_portMap n)(port \<mapsto> Session_refresh t t' s)\<rparr>)"

definition LookupBack :: "int \<Rightarrow> int \<Rightarrow> u16 \<Rightarrow> TCPNat \<Rightarrow> TCPNat \<times> TCPSession option" where
  "LookupBack t t' port n = (case n_portMap n port of
     None \<Rightarrow> (n, None)
   | Some s \<Rightarrow> (n\<lparr>n_portMap := (n_portMap n)(port \<mapsto> Session_refresh t t' s)\<rparr>, Some (Session_refresh t t' s)))"

fun allocate_loop :: "nat \<Rightarrow> TCPNat \<Rightarrow> TCPNat \<times> u16 option" where
  "allocate_loop 0 n = (n, None)"
| "allocate_loop (Suc i) n =
     (let nextPort = (if n_portIndex n = 0 then 10000 else n_portIndex n);
          n = n\<lparr>n_portIndex := (if n_portIndex n = 0 then 10001 else n_portIndex n + 1)\<rparr>
      in if n_portMap n nextPort = None then (n, Some nextPort) else allocate_loop i n)"

definition allocatePortLocked :: "TCPNat \<Rightarrow> TCPNat \<times> u16 option" where
  "allocatePortLocked n = allocate_loop (65535 - 10000 + 1) n"

text \<open>The error of \<open>Lookup\<close>, an exhausted port space, is \<open>None\<close>.\<close>

definition Lookup :: "int \<Rightarrow> int \<Rightarrow> AddrPort \<Rightarrow> AddrPort \<Rightarrow> TCPNat \<Rightarrow> TCPNat \<times> u16 option" where
  "Lookup t t' source destination n = (case n_addrMap n (source, destination) of
     Some port \<Rightarrow> (Nat_refresh t t' port n, Some port)
   | None \<Rightarrow> (case allocatePortLocked n of
       (n, None) \<Rightarrow> (n, None)
     | (n, Some nextPort) \<Rightarrow>
         (n\<lparr>n_portMap := (n_portMap n)(nextPort \<mapsto>
              \<lparr>s_Source = source, s_Destination = destination, s_LastActive = t\<rparr>),
            n_addrMap := (n_addrMap n)((source, destination) \<mapsto> nextPort)\<rparr>, Some nextPort)))"

definition session_key :: "TCPSession \<Rightarrow> tcpNatKey" where
  "session_key s = (s_Source s, s_Destination s)"

definition timed_out :: "int \<Rightarrow> TCPNat \<Rightarrow> TCPSession \<Rightarrow> bool" where
  "timed_out now n s \<longleftrightarrow> now - s_LastActive s > n_timeout n"

definition remove_expired :: "int \<Rightarrow> u16 \<times> TCPSession \<Rightarrow> TCPNat \<Rightarrow> TCPNat" where
  "remove_expired now e n = (if timed_out now n (snd e)
     then n\<lparr>n_addrMap := (n_addrMap n)(session_key (snd e) := None), n_portMap := (n_portMap n)(fst e := None)\<rparr>
     else n)"

text \<open>The order in which \<^verbatim>\<open>range n.portMap\<close> visits the ports is \<open>order\<close>.\<close>

definition expired_sessions :: "int \<Rightarrow> u16 list \<Rightarrow> TCPNat \<Rightarrow> (u16 \<times> TCPSession) list" where
  "expired_sessions now order n =
     filter (\<lambda>(p, s). timed_out now n s) (List.map_filter (\<lambda>p. map_option (Pair p) (n_portMap n p)) order)"

definition checkTimeout :: "int \<Rightarrow> u16 list \<Rightarrow> TCPNat \<Rightarrow> TCPNat" where
  "checkTimeout now order n = fold (remove_expired now) (expired_sessions now order n) n"

section \<open>The invariant\<close>

text \<open>
  The two maps are inverse to each other, all ports are at least 10000, and so is the next
  candidate (zero stands for the wrap-around).
\<close>

definition nat_inv :: "TCPNat \<Rightarrow> bool" where
  "nat_inv n \<longleftrightarrow>
     (\<forall>k p. n_addrMap n k = Some p \<longrightarrow> (\<exists>s. n_portMap n p = Some s \<and> session_key s = k)) \<and>
     (\<forall>p s. n_portMap n p = Some s \<longrightarrow> n_addrMap n (session_key s) = Some p) \<and>
     (\<forall>p s. n_portMap n p = Some s \<longrightarrow> 10000 \<le> p) \<and>
     (n_portIndex n = 0 \<or> 10000 \<le> n_portIndex n)"

lemma nat_invD:
  assumes "nat_inv n"
  shows "n_addrMap n k = Some p \<Longrightarrow> \<exists>s. n_portMap n p = Some s \<and> session_key s = k"
    and "n_portMap n p = Some s \<Longrightarrow> n_addrMap n (session_key s) = Some p"
    and "n_portMap n p = Some s \<Longrightarrow> 10000 \<le> p"
    and "n_portIndex n = 0 \<or> 10000 \<le> n_portIndex n"
  using assms unfolding nat_inv_def by blast+

lemma session_key_refresh [simp]: "session_key (Session_refresh t t' s) = session_key s"
  by (simp add: session_key_def Session_refresh_def)

lemma nat_inv_refresh: "nat_inv n \<Longrightarrow> nat_inv (Nat_refresh t t' p n)"
  by (force simp: nat_inv_def Nat_refresh_def split: option.splits)

lemma nat_inv_New: "nat_inv (NewNat timeout)"
  by (simp add: nat_inv_def NewNat_def)

section \<open>Allocation\<close>

text \<open>The position of the next candidate on the circle of the 55536 ports.\<close>

definition next_pos :: "TCPNat \<Rightarrow> nat" where
  "next_pos n = (if n_portIndex n = 0 then 0 else unat (n_portIndex n) - 10000)"

definition port_at :: "nat \<Rightarrow> u16" where
  "port_at i = word_of_nat (10000 + i mod 55536)"

lemma unat_port_at: "unat (port_at i) = 10000 + i mod 55536"
  unfolding port_at_def by (rule unat_of_nat_u16) simp

lemma port_at_ge: "10000 \<le> port_at i"
  by (simp add: word_le_nat_alt unat_port_at)

lemma port_at_surj: "10000 \<le> p \<Longrightarrow> \<exists>i < 55536. port_at (k + i) = p"
proof -
  assume "10000 \<le> p"
  then have p: "10000 \<le> unat p" by (simp add: word_le_nat_alt)
  define q where "q = unat p - 10000"
  have q: "q < 55536" "unat p = 10000 + q" using p unat_u16_less [of p] unfolding q_def by linarith+
  define i where "i = (q + 55536 - k mod 55536) mod 55536"
  have "(k + i) mod 55536 = (k mod 55536 + (q + 55536 - k mod 55536)) mod 55536"
    unfolding i_def by (simp only: mod_add_left_eq mod_add_right_eq)
  also have "k mod 55536 + (q + 55536 - k mod 55536) = q + 55536"
    using mod_less_divisor [of 55536 k] by linarith
  finally have "(k + i) mod 55536 = q" using q by simp
  then have "port_at (k + i) = p" using q by (simp add: word_unat_eq_iff unat_port_at)
  moreover have "i < 55536" by (simp add: i_def)
  ultimately show ?thesis by blast
qed

lemma candidate:
  assumes "n_portIndex n = 0 \<or> 10000 \<le> n_portIndex n"
  defines "n' \<equiv> n\<lparr>n_portIndex := (if n_portIndex n = 0 then 10001 else n_portIndex n + 1)\<rparr>"
  shows "(if n_portIndex n = 0 then 10000 else n_portIndex n) = port_at (next_pos n)"
    and "n_portIndex n' = 0 \<or> 10000 \<le> n_portIndex n'" and "next_pos n' = Suc (next_pos n) mod 55536"
proof -
  have *: "(if n_portIndex n = 0 then 10000 else n_portIndex n) = port_at (next_pos n) \<and>
      (n_portIndex n' = 0 \<or> 10000 \<le> n_portIndex n') \<and> next_pos n' = Suc (next_pos n) mod 55536"
  proof (cases "n_portIndex n = 0")
    case True
    then show ?thesis by (simp add: n'_def next_pos_def port_at_def)
  next
    case False
    then have i: "10000 \<le> unat (n_portIndex n)" using assms(1) by (simp add: word_le_nat_alt)
    note u = unat_u16_less [of "n_portIndex n"]
    have p: "next_pos n < 55536" "next_pos n = unat (n_portIndex n) - 10000"
      using False i u unfolding next_pos_def by (simp_all del: unat_u16_less)
    then have c: "port_at (next_pos n) = n_portIndex n"
      using i by (simp add: word_unat_eq_iff unat_port_at)
    show ?thesis
    proof (cases "unat (n_portIndex n) = 65535")
      case True
      then have "n_portIndex n + 1 = 0" by (simp add: word_unat_eq_iff unat_word_ariths)
      then show ?thesis using True False c p by (simp add: n'_def next_pos_def)
    next
      case no_wrap: False
      then have s: "unat (n_portIndex n + 1) = unat (n_portIndex n) + 1"
        using u by (subst unat_plus_small) (simp_all del: unat_u16_less)
      then have "n_portIndex n + 1 \<noteq> 0" by (auto simp: word_unat_eq_iff)
      moreover have "next_pos n + 1 < 55536" using p(2) no_wrap u i by linarith
      ultimately show ?thesis
        using False c s i p(2) by (auto simp: n'_def next_pos_def word_le_nat_alt Suc_diff_le)
    qed
  qed
  then show "(if n_portIndex n = 0 then 10000 else n_portIndex n) = port_at (next_pos n)"
    and "n_portIndex n' = 0 \<or> 10000 \<le> n_portIndex n'" and "next_pos n' = Suc (next_pos n) mod 55536"
    by blast+
qed

lemma allocate_loop_spec:
  assumes "n_portIndex n = 0 \<or> 10000 \<le> n_portIndex n" and "allocate_loop k n = (n', r)"
  shows "n_addrMap n' = n_addrMap n \<and> n_portMap n' = n_portMap n \<and> n_timeout n' = n_timeout n \<and>
    (n_portIndex n' = 0 \<or> 10000 \<le> n_portIndex n') \<and>
    (case r of Some p \<Rightarrow> 10000 \<le> p \<and> n_portMap n p = None
     | None \<Rightarrow> \<forall>j < k. n_portMap n (port_at (next_pos n + j)) \<noteq> None)"
  using assms
proof (induction k arbitrary: n)
  case (Suc k)
  let ?n = "n\<lparr>n_portIndex := (if n_portIndex n = 0 then 10001 else n_portIndex n + 1)\<rparr>"
  note c = candidate [OF Suc.prems(1)]
  show ?case
  proof (cases "n_portMap n (port_at (next_pos n)) = None")
    case True
    then have "n' = ?n" "r = Some (port_at (next_pos n))"
      using Suc.prems(2) unfolding allocate_loop.simps c(1) by (auto simp: Let_def)
    then show ?thesis using True c(2) by (simp add: port_at_ge)
  next
    case False
    then have "allocate_loop k ?n = (n', r)"
      using Suc.prems(2) unfolding allocate_loop.simps c(1) by (auto simp: Let_def)
    note IH = Suc.IH [OF c(2) this]
    have "n_portMap n (port_at (next_pos n + j)) \<noteq> None"
      if "\<forall>j < k. n_portMap n (port_at (next_pos ?n + j)) \<noteq> None" "j < Suc k" for j
    proof (cases j)
      case (Suc i)
      have "port_at (next_pos ?n + i) = port_at (next_pos n + j)"
        unfolding c(3) Suc port_at_def by (simp add: mod_add_left_eq)
      then show ?thesis using that Suc by force
    qed (use False in simp)
    then show ?thesis using IH by (auto split: option.splits)
  qed
qed simp

lemma allocatePortLocked_spec:
  assumes "nat_inv n" and "allocatePortLocked n = (n', r)"
  shows "n_addrMap n' = n_addrMap n" "n_portMap n' = n_portMap n" "n_timeout n' = n_timeout n"
    "n_portIndex n' = 0 \<or> 10000 \<le> n_portIndex n'"
    "r = Some p \<Longrightarrow> 10000 \<le> p \<and> n_portMap n p = None"
    "r = None \<longleftrightarrow> (\<forall>p \<ge> 10000. n_portMap n p \<noteq> None)"
proof -
  note a = allocate_loop_spec [OF nat_invD(4) [OF assms(1)] assms(2) [unfolded allocatePortLocked_def]]
  then show "n_addrMap n' = n_addrMap n" "n_portMap n' = n_portMap n" "n_timeout n' = n_timeout n"
    "n_portIndex n' = 0 \<or> 10000 \<le> n_portIndex n'" by simp_all
  show "r = Some p \<Longrightarrow> 10000 \<le> p \<and> n_portMap n p = None" using a by simp
  show "r = None \<longleftrightarrow> (\<forall>p \<ge> 10000. n_portMap n p \<noteq> None)"
  proof
    assume "r = None"
    then have "\<forall>j < 55536. n_portMap n (port_at (next_pos n + j)) \<noteq> None" using a by simp
    then show "\<forall>p \<ge> 10000. n_portMap n p \<noteq> None" using port_at_surj [of _ "next_pos n"] by metis
  qed (use a in \<open>auto split: option.splits\<close>)
qed

section \<open>The operations\<close>

lemma Lookup_cases:
  assumes "nat_inv n" and "Lookup t t' src dst n = (n', r)"
  obtains (hit) p where "n_addrMap n (src, dst) = Some p" "r = Some p" "n' = Nat_refresh t t' p n"
  | (full) "n_addrMap n (src, dst) = None" "r = None" "\<forall>p \<ge> 10000. n_portMap n p \<noteq> None"
      "n_addrMap n' = n_addrMap n" "n_portMap n' = n_portMap n"
      "n_portIndex n' = 0 \<or> 10000 \<le> n_portIndex n'"
  | (new) p where "n_addrMap n (src, dst) = None" "r = Some p" "10000 \<le> p" "n_portMap n p = None"
      "n_portMap n' = (n_portMap n)(p \<mapsto> \<lparr>s_Source = src, s_Destination = dst, s_LastActive = t\<rparr>)"
      "n_addrMap n' = (n_addrMap n)((src, dst) \<mapsto> p)"
      "n_portIndex n' = 0 \<or> 10000 \<le> n_portIndex n'"
proof (cases "n_addrMap n (src, dst)")
  case (Some p)
  then show ?thesis using assms(2) by (intro hit) (auto simp: Lookup_def)
next
  case None
  obtain m q where a: "allocatePortLocked n = (m, q)" by (cases "allocatePortLocked n")
  note s = allocatePortLocked_spec [OF assms(1) a]
  show ?thesis
  proof (cases q)
    case None': None
    then have "n' = m" "r = None" using assms(2) None a by (auto simp: Lookup_def)
    then show ?thesis using None None' s by (intro full) auto
  next
    case (Some p)
    then show ?thesis using assms(2) None a s(1-4) s(5) [OF Some] by (intro new [of p]) (auto simp: Lookup_def)
  qed
qed

lemma Lookup_inv: "nat_inv n \<Longrightarrow> nat_inv (fst (Lookup t t' src dst n))"
proof -
  assume n: "nat_inv n"
  obtain n' r where l: "Lookup t t' src dst n = (n', r)" by (cases "Lookup t t' src dst n")
  from n l have "nat_inv n'"
  proof (cases rule: Lookup_cases)
    case (new p)
    have "n_portMap n q = Some s \<Longrightarrow> session_key s \<noteq> (src, dst)" for q s
      using new(1) nat_invD(2) [OF n, of q s] by auto
    then show ?thesis
      using n new by (auto simp: nat_inv_def session_key_def)
        (metis option.distinct(1) option.inject)+
  next
    case full
    then show ?thesis using n by (simp add: nat_inv_def)
  next
    case hit
    then show ?thesis using n by (simp add: nat_inv_refresh)
  qed
  then show ?thesis using l by simp
qed

lemma LookupBack_inv: "nat_inv n \<Longrightarrow> nat_inv (fst (LookupBack t t' p n))"
  using nat_inv_refresh [of n t t' p] by (auto simp: LookupBack_def Nat_refresh_def split: option.splits)

text \<open>Looking back finds the connection a port was given to.\<close>

definition owner :: "TCPNat \<Rightarrow> u16 \<Rightarrow> tcpNatKey option" where
  "owner n p = map_option session_key (n_portMap n p)"

lemma LookupBack_owner: "map_option session_key (snd (LookupBack t t' p n)) = owner n p"
  by (simp add: LookupBack_def owner_def split: option.splits)

lemma owner_refresh [simp]: "owner (Nat_refresh t t' p n) = owner n"
  by (auto simp: owner_def Nat_refresh_def fun_eq_iff split: option.splits)

lemma owner_LookupBack: "owner (fst (LookupBack t t' p n)) = owner n"
  by (auto simp: owner_def LookupBack_def fun_eq_iff split: option.splits)

lemma owner_Lookup:
  assumes "nat_inv n" and "Lookup t t' src dst n = (n', Some p)"
  shows "owner n' = (owner n)(p \<mapsto> (src, dst)) \<and> (owner n p = None \<or> owner n p = Some (src, dst))"
  using assms
proof (cases rule: Lookup_cases)
  case (hit q)
  then have "owner n p = Some (src, dst)"
    using nat_invD(1) [OF assms(1), of "(src, dst)" p] by (auto simp: owner_def)
  then show ?thesis using hit by (auto simp: fun_eq_iff)
next
  case (new q)
  then show ?thesis by (auto simp: owner_def session_key_def fun_eq_iff)
qed auto

lemma owner_Lookup_full: "nat_inv n \<Longrightarrow> Lookup t t' src dst n = (n', None) \<Longrightarrow> owner n' = owner n"
  by (erule Lookup_cases) (auto simp: owner_def fun_eq_iff)

section \<open>Expiry\<close>

lemma expired_in:
  "(p, s) \<in> set (expired_sessions now order n) \<longleftrightarrow> p \<in> set order \<and> n_portMap n p = Some s \<and> timed_out now n s"
  by (auto simp: expired_sessions_def List.map_filter_def intro!: image_eqI [where x = p])

lemma fold_remove:
  assumes "\<forall>e \<in> set es. timed_out now n (snd e)"
  shows "fold (remove_expired now) es n =
    n\<lparr>n_portMap := (\<lambda>p. if p \<in> fst ` set es then None else n_portMap n p),
      n_addrMap := (\<lambda>k. if k \<in> (session_key \<circ> snd) ` set es then None else n_addrMap n k)\<rparr>"
  using assms
proof (induction es arbitrary: n)
  case (Cons e es)
  let ?n = "remove_expired now e n"
  have "?n = n\<lparr>n_addrMap := (n_addrMap n)(session_key (snd e) := None), n_portMap := (n_portMap n)(fst e := None)\<rparr>"
    using Cons.prems by (simp add: remove_expired_def)
  moreover from this have "\<forall>e \<in> set es. timed_out now ?n (snd e)"
    using Cons.prems by (simp add: timed_out_def)
  ultimately show ?case using Cons.IH [of ?n] by (auto simp: fun_eq_iff)
qed simp

lemma checkTimeout_eq:
  assumes "nat_inv n" and "dom (n_portMap n) \<subseteq> set order"
  shows "n_portMap (checkTimeout now order n) p =
      (case n_portMap n p of Some s \<Rightarrow> if timed_out now n s then None else Some s | None \<Rightarrow> None)"
    and "n_addrMap (checkTimeout now order n) k =
      (case n_addrMap n k of Some p \<Rightarrow> if timed_out now n (the (n_portMap n p)) then None else Some p | None \<Rightarrow> None)"
    and "n_portIndex (checkTimeout now order n) = n_portIndex n"
proof -
  let ?es = "expired_sessions now order n"
  have "\<forall>e \<in> set ?es. timed_out now n (snd e)" by (auto simp: expired_in)
  note f = fold_remove [OF this]
  have "p \<in> fst ` set ?es \<longleftrightarrow> (\<exists>s. n_portMap n p = Some s \<and> timed_out now n s)" for p
  proof -
    have "p \<in> fst ` set ?es \<longleftrightarrow> (\<exists>s. (p, s) \<in> set ?es)" by force
    then show ?thesis using assms(2) by (auto simp: expired_in)
  qed
  then show "n_portMap (checkTimeout now order n) p =
      (case n_portMap n p of Some s \<Rightarrow> if timed_out now n s then None else Some s | None \<Rightarrow> None)"
    by (auto simp: checkTimeout_def f split: option.splits)
  have k: "k \<in> (session_key \<circ> snd) ` set ?es \<longleftrightarrow>
      (\<exists>p. n_addrMap n k = Some p \<and> timed_out now n (the (n_portMap n p)))"
  proof
    assume "k \<in> (session_key \<circ> snd) ` set ?es"
    then obtain p s where "n_portMap n p = Some s" "timed_out now n s" "k = session_key s"
      by (auto simp: expired_in)
    then show "\<exists>p. n_addrMap n k = Some p \<and> timed_out now n (the (n_portMap n p))"
      using nat_invD(2) [OF assms(1)] by auto
  next
    assume "\<exists>p. n_addrMap n k = Some p \<and> timed_out now n (the (n_portMap n p))"
    then obtain p s where "n_portMap n p = Some s" "session_key s = k" "timed_out now n s"
      using nat_invD(1) [OF assms(1)] by fastforce
    moreover from this have "(p, s) \<in> set ?es" using assms(2) by (auto simp: expired_in)
    ultimately show "k \<in> (session_key \<circ> snd) ` set ?es" by force
  qed
  then show "n_addrMap (checkTimeout now order n) k =
      (case n_addrMap n k of Some p \<Rightarrow> if timed_out now n (the (n_portMap n p)) then None else Some p | None \<Rightarrow> None)"
    by (auto simp: checkTimeout_def f split: option.splits)
  show "n_portIndex (checkTimeout now order n) = n_portIndex n"
    by (simp add: checkTimeout_def f)
qed

lemma checkTimeout_inv:
  assumes "nat_inv n" and "dom (n_portMap n) \<subseteq> set order"
  shows "nat_inv (checkTimeout now order n)"
  unfolding nat_inv_def checkTimeout_eq [OF assms]
  using nat_invD [OF assms(1)] by (auto split: option.splits if_splits) fastforce+

section \<open>The table as an interface\<close>

datatype nat_op = FindOp int int AddrPort AddrPort | BackOp int int u16

definition nat_exec :: "nat_op \<Rightarrow> TCPNat \<Rightarrow> TCPNat" where
  "nat_exec op n = (case op of
     FindOp t t' src dst \<Rightarrow> fst (Lookup t t' src dst n)
   | BackOp t t' p \<Rightarrow> fst (LookupBack t t' p n))"

lemma Lookup_keeps:
  assumes "nat_inv n" and "owner n p = Some k"
  shows "owner (fst (Lookup t t' src dst n)) p = Some k"
proof (cases "Lookup t t' src dst n")
  case (Pair n' r)
  then show ?thesis
    using assms(2) owner_Lookup [OF assms(1), of t t' src dst n'] owner_Lookup_full [OF assms(1), of t t' src dst n']
    by (cases r) (auto simp del: split_paired_All)
qed

interpretation nat_table: port_table nat_inv "\<lambda>(t, t') (src, dst). Lookup t t' src dst" owner nat_exec
proof unfold_locales
  fix n n' :: TCPNat and t :: "int \<times> int" and k j :: tcpNatKey and p :: u16 and op :: nat_op
  assume n: "nat_inv n"
  obtain a b c d where t: "t = (a, b)" and k: "k = (c, d)" by (cases t; cases k) auto
  show "nat_inv (fst ((case t of (t, t') \<Rightarrow> \<lambda>(src, dst). Lookup t t' src dst) k n))"
    using n t k by (simp add: Lookup_inv)
  show "nat_inv (nat_exec op n)"
    using n by (auto simp: nat_exec_def Lookup_inv LookupBack_inv split: nat_op.split)
  show "owner n' p = Some k" if "(case t of (t, t') \<Rightarrow> \<lambda>(src, dst). Lookup t t' src dst) k n = (n', Some p)"
    using owner_Lookup [OF n, of a b c d n' p] that t k by simp
  assume o: "owner n p = Some k"
  show "owner (nat_exec op n) p = Some k"
    using n o by (auto simp: nat_exec_def owner_LookupBack Lookup_keeps split: nat_op.split)
  show "owner (fst ((case t of (t, t') \<Rightarrow> \<lambda>(src, dst). Lookup t t' src dst) j n)) p = Some k"
    using n o t by (cases j) (simp add: Lookup_keeps)
  have "n_addrMap n k = Some p" using o nat_invD(2) [OF n] by (auto simp: owner_def)
  then show "snd ((case t of (t, t') \<Rightarrow> \<lambda>(src, dst). Lookup t t' src dst) k n) = Some p"
    using t k by (simp add: Lookup_def)
qed

section \<open>Properties\<close>

text \<open>
  The reachable states of the table: every sequence of its operations, with any clock readings
  and any iteration order of the port map.
\<close>

inductive nat_reachable :: "TCPNat \<Rightarrow> bool" where
  start: "nat_reachable (NewNat timeout)"
| lookup: "nat_reachable n \<Longrightarrow> nat_reachable (fst (Lookup t t' src dst n))"
| look_back: "nat_reachable n \<Longrightarrow> nat_reachable (fst (LookupBack t t' p n))"
| expire: "nat_reachable n \<Longrightarrow> set order = dom (n_portMap n) \<Longrightarrow> nat_reachable (checkTimeout now order n)"

lemma nat_reachable_inv: "nat_reachable n \<Longrightarrow> nat_inv n"
  by (induction rule: nat_reachable.induct)
    (simp_all add: nat_inv_New Lookup_inv LookupBack_inv checkTimeout_inv)

text \<open>
  C27. In every reachable state the two maps of the table are inverse to each other, so that no two
  connections share a port, and every port handed out is at least 10000.
\<close>

theorem nat_maps_inverse:
  assumes "nat_reachable n"
  shows "(\<forall>src dst p. n_addrMap n (src, dst) = Some p \<longleftrightarrow>
      (\<exists>s. n_portMap n p = Some s \<and> s_Source s = src \<and> s_Destination s = dst)) \<and>
    inj_on (n_addrMap n) (dom (n_addrMap n)) \<and> (\<forall>p \<in> dom (n_portMap n). 10000 \<le> unat p)"
proof -
  note n = nat_invD [OF nat_reachable_inv [OF assms]]
  have iff: "n_addrMap n k = Some p \<longleftrightarrow> (\<exists>s. n_portMap n p = Some s \<and> session_key s = k)" for k p
    using n(1,2) by blast
  have "inj_on (n_addrMap n) (dom (n_addrMap n))"
    by (rule inj_onI) (use iff in \<open>force simp: domIff\<close>)
  moreover have "10000 \<le> unat p" if "p \<in> dom (n_portMap n)" for p
    using n(3) that by (auto simp: word_le_nat_alt)
  moreover have "n_addrMap n (src, dst) = Some p \<longleftrightarrow>
      (\<exists>s. n_portMap n p = Some s \<and> s_Source s = src \<and> s_Destination s = dst)" for src dst p
    unfolding iff by (simp add: session_key_def)
  ultimately show ?thesis by blast
qed

text \<open>The specification of the table: a partial one-to-one map from connections to ports.\<close>

definition spec_lookup ::
    "(tcpNatKey \<Rightarrow> u16 option) \<Rightarrow> tcpNatKey \<Rightarrow> u16 option \<Rightarrow> (tcpNatKey \<Rightarrow> u16 option) \<Rightarrow> bool" where
  "spec_lookup m k r m' \<longleftrightarrow>
     (case m k of
        Some p \<Rightarrow> r = Some p \<and> m' = m
      | None \<Rightarrow> (\<exists>p \<ge> 10000. p \<notin> ran m \<and> r = Some p \<and> m' = m(k \<mapsto> p)) \<or>
                 r = None \<and> m' = m \<and> {p. 10000 \<le> p} \<subseteq> ran m)"

text \<open>
  C7. \<open>Lookup\<close> implements the specification: a known connection gets its port, a new one gets a
  port nobody has, and it fails only when all 55536 ports from 10000 are in use. The search of
  \<open>allocatePortLocked\<close> therefore always finds a free port when there is one.
\<close>

theorem Lookup_refines_spec:
  assumes "nat_reachable n"
  shows "case Lookup t t' src dst n of (n', r) \<Rightarrow> spec_lookup (n_addrMap n) (src, dst) r (n_addrMap n')"
proof -
  have n: "nat_inv n" using assms by (rule nat_reachable_inv)
  have ran: "p \<in> ran (n_addrMap n) \<longleftrightarrow> n_portMap n p \<noteq> None" for p
    unfolding ran_def mem_Collect_eq not_None_eq using nat_invD(1,2) [OF n] by blast
  obtain n' r where l: "Lookup t t' src dst n = (n', r)" by (cases "Lookup t t' src dst n")
  from n l have "spec_lookup (n_addrMap n) (src, dst) r (n_addrMap n')"
  proof (cases rule: Lookup_cases)
    case hit
    then show ?thesis by (auto simp: spec_lookup_def Nat_refresh_def split: option.split)
  next
    case full
    then show ?thesis by (auto simp: spec_lookup_def ran simp del: split_paired_All)
  next
    case new
    then show ?thesis by (auto simp: spec_lookup_def ran)
  qed
  then show ?thesis using l by simp
qed

theorem Lookup_refines_spec_witness:
  "case Lookup 5 5 (Addr4 [10, 0, 0, 1], 1024) (Addr4 [1, 1, 1, 1], 443) (NewNat 60) of (n', r) \<Rightarrow>
     spec_lookup Map.empty ((Addr4 [10, 0, 0, 1], 1024), (Addr4 [1, 1, 1, 1], 443)) r (n_addrMap n')"
  using Lookup_refines_spec [OF nat_reachable.start [of 60], where t = 5 and t' = 5 and
      src = "(Addr4 [10, 0, 0, 1], 1024)" and dst = "(Addr4 [1, 1, 1, 1], 443)"]
  by (simp add: NewNat_def)

theorem nat_maps_inverse_witness:
  "inj_on (n_addrMap (fst (Lookup 5 5 (Addr4 [10, 0, 0, 1], 1024) (Addr4 [1, 1, 1, 1], 443) (NewNat 60))))
     (dom (n_addrMap (fst (Lookup 5 5 (Addr4 [10, 0, 0, 1], 1024) (Addr4 [1, 1, 1, 1], 443) (NewNat 60)))))"
  using nat_maps_inverse [OF nat_reachable.lookup [OF nat_reachable.start]] by blast

text \<open>
  C28. A connection keeps its port, and looking the port up finds the connection again, through any
  sequence of lookups in both directions; two different connections never get the same port.
\<close>

theorem Lookup_stable:
  assumes "nat_reachable n" and "Lookup t t' src dst n = (n1, Some p)" and "n2 = fold nat_exec ops n1"
  shows "snd (Lookup u u' src dst n2) = Some p \<and>
    map_option session_key (snd (LookupBack v v' p n2)) = Some (src, dst) \<and>
    (\<forall>src' dst' n3. (src', dst') \<noteq> (src, dst) \<longrightarrow> Lookup u u' src' dst' n2 \<noteq> (n3, Some p))"
proof -
  have n: "nat_inv n" using assms(1) by (rule nat_reachable_inv)
  have l: "(case (t, t') of (t, t') \<Rightarrow> \<lambda>(src, dst). Lookup t t' src dst) (src, dst) n = (n1, Some p)"
    using assms(2) by simp
  have "snd (Lookup u u' src dst n2) = Some p"
    using nat_table.find_stable [OF n l, of "(u, u')" ops] assms(3) by simp
  moreover have "owner n2 p = Some (src, dst)"
    using nat_table.steps_own [of n1 p "(src, dst)" ops] nat_table.find_inv [OF n, of "(t, t')" "(src, dst)"]
      nat_table.find_own [OF n l] assms(2,3) by simp
  moreover have "Lookup u u' src' dst' n2 \<noteq> (n3, Some p)" if "(src', dst') \<noteq> (src, dst)" for src' dst' n3
  proof
    assume "Lookup u u' src' dst' n2 = (n3, Some p)"
    then show False
      using nat_table.find_distinct [OF n l, of "(u, u')" "(src', dst')" ops n3 p] not_sym [OF that] assms(3) by simp
  qed
  ultimately show ?thesis by (simp add: LookupBack_owner)
qed

text \<open>The first connection of a fresh table gets port 10000.\<close>

definition one_session :: TCPNat where
  "one_session = \<lparr>n_timeout = 60, n_portIndex = 10001,
     n_addrMap = [((Addr4 [10, 0, 0, 1], 1024), (Addr4 [1, 1, 1, 1], 443)) \<mapsto> 10000],
     n_portMap = [10000 \<mapsto> \<lparr>s_Source = (Addr4 [10, 0, 0, 1], 1024), s_Destination = (Addr4 [1, 1, 1, 1], 443), s_LastActive = 5\<rparr>]\<rparr>"

lemma first_session:
  "Lookup 5 5 (Addr4 [10, 0, 0, 1], 1024) (Addr4 [1, 1, 1, 1], 443) (NewNat 60) = (one_session, Some 10000)"
proof -
  have "65535 - 10000 + 1 = Suc 55535" by simp
  then show ?thesis
    unfolding Lookup_def allocatePortLocked_def by (simp only: allocate_loop.simps) (simp add: NewNat_def one_session_def)
qed

lemma one_session_reachable: "nat_reachable one_session"
  using nat_reachable.lookup [OF nat_reachable.start [of 60], of 5 5 "(Addr4 [10, 0, 0, 1], 1024)" "(Addr4 [1, 1, 1, 1], 443)"]
  by (simp add: first_session)

theorem Lookup_stable_witness:
  "map_option session_key (snd (LookupBack 9 9 10000
     (fold nat_exec [FindOp 6 6 (Addr4 [10, 0, 0, 1], 1025) (Addr4 [1, 1, 1, 1], 443)] one_session))) =
   Some ((Addr4 [10, 0, 0, 1], 1024), (Addr4 [1, 1, 1, 1], 443))"
  using Lookup_stable [OF nat_reachable.start first_session refl] by blast

text \<open>
  C26. \<open>checkTimeout\<close> removes exactly the sessions whose last activity is more than the timeout ago,
  from both maps, whatever the iteration order of the port map.
\<close>

theorem checkTimeout_exact:
  assumes "nat_reachable n" and "set order = dom (n_portMap n)"
  shows "(n_portMap (checkTimeout now order n) p = Some s \<longleftrightarrow>
      n_portMap n p = Some s \<and> now - s_LastActive s \<le> n_timeout n) \<and>
    (n_addrMap (checkTimeout now order n) k = Some p \<longleftrightarrow>
      n_addrMap n k = Some p \<and> (\<exists>s. n_portMap n p = Some s \<and> now - s_LastActive s \<le> n_timeout n))"
proof -
  have n: "nat_inv n" using assms(1) by (rule nat_reachable_inv)
  have o: "dom (n_portMap n) \<subseteq> set order" using assms(2) by simp
  have "n_portMap (checkTimeout now order n) p = Some s \<longleftrightarrow>
      n_portMap n p = Some s \<and> now - s_LastActive s \<le> n_timeout n"
    unfolding checkTimeout_eq(1) [OF n o] by (auto simp: timed_out_def split: option.split)
  moreover have "n_addrMap (checkTimeout now order n) k = Some p \<longleftrightarrow>
      n_addrMap n k = Some p \<and> (\<exists>s. n_portMap n p = Some s \<and> now - s_LastActive s \<le> n_timeout n)"
    unfolding checkTimeout_eq(2) [OF n o] using nat_invD(1) [OF n, of k]
    by (auto simp: timed_out_def simp del: split_paired_All split: option.split)
  ultimately show ?thesis by blast
qed

theorem checkTimeout_exact_witness:
  "n_portMap (checkTimeout 50 [10000] one_session) 10000 =
     Some \<lparr>s_Source = (Addr4 [10, 0, 0, 1], 1024), s_Destination = (Addr4 [1, 1, 1, 1], 443), s_LastActive = 5\<rparr>"
  using checkTimeout_exact [OF one_session_reachable, of "[10000]" 50 10000] by (simp add: one_session_def)

end
