(* ===== verification/Nat_Threads.thy ===== *)
theory Nat_Threads
  imports TCP_Nat
begin

text \<open>
  \<^verbatim>\<open>stack_system_nat.go\<close> with its goroutines: any number of them call \<open>Lookup\<close> and \<open>LookupBack\<close>
  while \<open>loopCheckTimeout\<close> removes old sessions. Sessions are objects on a heap and the port map
  holds pointers, so that a session fetched under the lock can be refreshed after it was removed.
  A step is what one goroutine does between taking and releasing locks. Writers of the two maps
  hold \<open>addrAccess\<close> for the whole section, so the section that starts with
  \<^verbatim>\<open>n.addrAccess.Lock()\<close> is one step. The theory shows that every interleaving keeps the invariant of
  the table, each step being an operation of the sequential model or nothing, and that a lookup
  that races with the expiry can return a port that is no longer in the table.
\<close>

record nat_heap =
  h_timeout :: int
  h_portIndex :: u16
  h_addrMap :: "tcpNatKey \<Rightarrow> u16 option"
  h_portMap :: "u16 \<Rightarrow> nat option"
  h_session :: "nat \<Rightarrow> TCPSession"
  h_next :: nat

datatype pc =
    Idle
  | Reading tcpNatKey
  | Refreshing tcpNatKey u16
  | Touching tcpNatKey u16 nat
  | Locking tcpNatKey
  | Returned tcpNatKey "u16 option"
  | BackTouching u16 nat
  | BackReturned u16 "nat option"

datatype checker = Waiting | Collected int "(u16 \<times> nat) list"

record nat_sys =
  heap :: nat_heap
  pcs :: "nat \<Rightarrow> pc"
  chk :: checker

text \<open>The table the heap stands for.\<close>

definition abs_nat :: "nat_heap \<Rightarrow> TCPNat" where
  "abs_nat h = \<lparr>n_timeout = h_timeout h, n_portIndex = h_portIndex h, n_addrMap = h_addrMap h,
     n_portMap = (\<lambda>p. map_option (h_session h) (h_portMap h p))\<rparr>"

definition touch :: "int \<Rightarrow> int \<Rightarrow> nat \<Rightarrow> nat_heap \<Rightarrow> nat_heap" where
  "touch t t' r h = h\<lparr>h_session := (h_session h)(r := Session_refresh t t' (h_session h r))\<rparr>"

text \<open>The section of \<open>Lookup\<close> under \<open>addrAccess\<close>.\<close>

definition locked_lookup :: "int \<Rightarrow> int \<Rightarrow> tcpNatKey \<Rightarrow> nat_heap \<Rightarrow> nat_heap \<times> u16 option" where
  "locked_lookup t t' k h = (case h_addrMap h k of
     Some p \<Rightarrow> (case h_portMap h p of None \<Rightarrow> (h, Some p) | Some r \<Rightarrow> (touch t t' r h, Some p))
   | None \<Rightarrow> (case allocatePortLocked (abs_nat h) of
       (n, None) \<Rightarrow> (h\<lparr>h_portIndex := n_portIndex n\<rparr>, None)
     | (n, Some p) \<Rightarrow>
         (h\<lparr>h_portIndex := n_portIndex n,
            h_session := (h_session h)(h_next h := \<lparr>s_Source = fst k, s_Destination = snd k, s_LastActive = t\<rparr>),
            h_next := Suc (h_next h),
            h_portMap := (h_portMap h)(p \<mapsto> h_next h),
            h_addrMap := (h_addrMap h)(k \<mapsto> p)\<rparr>, Some p)))"

definition collect :: "int \<Rightarrow> u16 list \<Rightarrow> nat_heap \<Rightarrow> (u16 \<times> nat) list" where
  "collect now order h = filter (\<lambda>(p, r). timed_out now (abs_nat h) (h_session h r))
     (List.map_filter (\<lambda>p. map_option (Pair p) (h_portMap h p)) order)"

definition remove_one :: "int \<Rightarrow> u16 \<times> nat \<Rightarrow> nat_heap \<Rightarrow> nat_heap" where
  "remove_one now e h = (if now - s_LastActive (h_session h (snd e)) > h_timeout h
     then h\<lparr>h_addrMap := (h_addrMap h)(session_key (h_session h (snd e)) := None),
            h_portMap := (h_portMap h)(fst e := None)\<rparr>
     else h)"

inductive nat_step :: "nat_sys \<Rightarrow> nat_sys \<Rightarrow> bool" where
  call: "pcs s i = Idle \<Longrightarrow> nat_step s (s\<lparr>pcs := (pcs s)(i := Reading k)\<rparr>)"
| read_hit: "pcs s i = Reading k \<Longrightarrow> h_addrMap (heap s) k = Some p \<Longrightarrow>
     nat_step s (s\<lparr>pcs := (pcs s)(i := Refreshing k p)\<rparr>)"
| read_miss: "pcs s i = Reading k \<Longrightarrow> h_addrMap (heap s) k = None \<Longrightarrow>
     nat_step s (s\<lparr>pcs := (pcs s)(i := Locking k)\<rparr>)"
| fetch: "pcs s i = Refreshing k p \<Longrightarrow> h_portMap (heap s) p = Some r \<Longrightarrow>
     nat_step s (s\<lparr>pcs := (pcs s)(i := Touching k p r)\<rparr>)"
| fetch_gone: "pcs s i = Refreshing k p \<Longrightarrow> h_portMap (heap s) p = None \<Longrightarrow>
     nat_step s (s\<lparr>pcs := (pcs s)(i := Returned k (Some p))\<rparr>)"
| touched: "pcs s i = Touching k p r \<Longrightarrow>
     nat_step s (s\<lparr>heap := touch t t' r (heap s), pcs := (pcs s)(i := Returned k (Some p))\<rparr>)"
| locked: "pcs s i = Locking k \<Longrightarrow> locked_lookup t t' k (heap s) = (h', r) \<Longrightarrow>
     nat_step s (s\<lparr>heap := h', pcs := (pcs s)(i := Returned k r)\<rparr>)"
| back_fetch: "pcs s i = Idle \<Longrightarrow> h_portMap (heap s) p = Some r \<Longrightarrow>
     nat_step s (s\<lparr>pcs := (pcs s)(i := BackTouching p r)\<rparr>)"
| back_none: "pcs s i = Idle \<Longrightarrow> h_portMap (heap s) p = None \<Longrightarrow>
     nat_step s (s\<lparr>pcs := (pcs s)(i := BackReturned p None)\<rparr>)"
| back_touched: "pcs s i = BackTouching p r \<Longrightarrow>
     nat_step s (s\<lparr>heap := touch t t' r (heap s), pcs := (pcs s)(i := BackReturned p (Some r))\<rparr>)"
| finish: "pcs s i = Returned k r \<Longrightarrow> nat_step s (s\<lparr>pcs := (pcs s)(i := Idle)\<rparr>)"
| back_finish: "pcs s i = BackReturned p r \<Longrightarrow> nat_step s (s\<lparr>pcs := (pcs s)(i := Idle)\<rparr>)"
| collected: "chk s = Waiting \<Longrightarrow> set order = dom (h_portMap (heap s)) \<Longrightarrow>
     nat_step s (s\<lparr>chk := Collected now (collect now order (heap s))\<rparr>)"
| removed: "chk s = Collected now es \<Longrightarrow>
     nat_step s (s\<lparr>heap := fold (remove_one now) es (heap s), chk := Waiting\<rparr>)"

definition nat_start :: "int \<Rightarrow> nat_sys" where
  "nat_start timeout = \<lparr>heap = \<lparr>h_timeout = timeout, h_portIndex = 10000, h_addrMap = Map.empty, h_portMap = Map.empty,
     h_session = (\<lambda>_. \<lparr>s_Source = (ZeroAddr, 0), s_Destination = (ZeroAddr, 0), s_LastActive = 0\<rparr>), h_next = 0\<rparr>,
     pcs = (\<lambda>_. Idle), chk = Waiting\<rparr>"

inductive nat_steps :: "nat_sys \<Rightarrow> nat_sys \<Rightarrow> bool" for s where
  none: "nat_steps s s"
| more: "nat_steps s s' \<Longrightarrow> nat_step s' s'' \<Longrightarrow> nat_steps s s''"

section \<open>The invariant of all interleavings\<close>

text \<open>
  The heap stands for a table that satisfies the sequential invariant, no two ports share a
  session object, no object is beyond the allocation pointer, and the sessions the checker has
  collected are still in the table: only the checker removes sessions, and there is one.
\<close>

definition heap_inv :: "nat_heap \<Rightarrow> bool" where
  "heap_inv h \<longleftrightarrow> nat_inv (abs_nat h) \<and> (\<forall>p r. h_portMap h p = Some r \<longrightarrow> r < h_next h) \<and>
     (\<forall>p q r. h_portMap h p = Some r \<longrightarrow> h_portMap h q = Some r \<longrightarrow> p = q)"

definition chk_inv :: "checker \<Rightarrow> nat_heap \<Rightarrow> bool" where
  "chk_inv c h = (case c of Waiting \<Rightarrow> True | Collected now es \<Rightarrow> \<forall>(p, r) \<in> set es. h_portMap h p = Some r)"

definition sys_inv :: "nat_sys \<Rightarrow> bool" where
  "sys_inv s \<longleftrightarrow> heap_inv (heap s) \<and> chk_inv (chk s) (heap s)"

lemma abs_touch:
  assumes "heap_inv h" and "h_portMap h p = Some r"
  shows "abs_nat (touch t t' r h) = Nat_refresh t t' p (abs_nat h)"
proof -
  have u: "h_portMap h q \<noteq> Some r" if "q \<noteq> p" for q
    using assms that by (auto simp: heap_inv_def)
  show ?thesis
    using assms(2) by (auto simp: abs_nat_def touch_def Nat_refresh_def fun_eq_iff map_option_case dest: u split: option.splits)
qed

lemma abs_touch_gone: "\<forall>p. h_portMap h p \<noteq> Some r \<Longrightarrow> abs_nat (touch t t' r h) = abs_nat h"
  by (auto simp: abs_nat_def touch_def fun_eq_iff map_option_case split: option.splits)

lemma heap_inv_touch:
  assumes "heap_inv h" shows "heap_inv (touch t t' r h)"
proof -
  have "nat_inv (abs_nat (touch t t' r h))"
  proof (cases "\<exists>p. h_portMap h p = Some r")
    case True
    then show ?thesis using assms by (auto simp: abs_touch nat_inv_refresh heap_inv_def)
  next
    case False
    then show ?thesis using assms by (simp add: abs_touch_gone heap_inv_def)
  qed
  then show ?thesis using assms by (simp add: heap_inv_def touch_def)
qed

text \<open>What a step does to the table: nothing, a refresh, a lookup, or the removal of old sessions.\<close>

inductive nat_seq :: "TCPNat \<Rightarrow> TCPNat \<Rightarrow> bool" where
  idle: "nat_seq n n"
| refresh: "nat_seq n (Nat_refresh t t' p n)"
| lookup: "nat_seq n (fst (Lookup t t' src dst n))"
| remove: "\<forall>(p, x) \<in> set es. n_portMap n p = Some x \<Longrightarrow> nat_seq n (fold (remove_expired now) es n)"

lemma fold_remove_filter:
  "fold (remove_expired now) es n = fold (remove_expired now) (filter (\<lambda>e. timed_out now n (snd e)) es) n"
proof (induction es arbitrary: n)
  case (Cons e es)
  have "timed_out now (remove_expired now e n) = timed_out now n"
    by (auto simp: remove_expired_def timed_out_def fun_eq_iff)
  then show ?case
    using Cons [of "remove_expired now e n"] Cons [of n] by (auto simp: remove_expired_def)
qed simp

lemma nat_inv_restrict:
  assumes n: "nat_inv n" and K: "\<And>p x. n_portMap n p = Some x \<Longrightarrow> session_key x \<in> K \<longleftrightarrow> p \<in> A"
  shows "nat_inv (n\<lparr>n_portMap := (\<lambda>p. if p \<in> A then None else n_portMap n p),
    n_addrMap := (\<lambda>k. if k \<in> K then None else n_addrMap n k)\<rparr>)"
  unfolding nat_inv_def
proof (intro conjI allI impI, goal_cases)
  case (1 k p)
  then have "k \<notin> K" "n_addrMap n k = Some p" by (auto split: if_splits)
  then show ?case using nat_invD(1) [OF n, of k p] K by auto
next
  case (2 p x)
  then show ?case using nat_invD(2) [OF n, of p x] K [of p x] by (simp split: if_splits)
next
  case (3 p x)
  then show ?case using nat_invD(3) [OF n, of p x] by (simp split: if_splits)
next
  case 4
  then show ?case using nat_invD(4) [OF n] by simp
qed

lemma remove_inv:
  assumes "nat_inv n" and "\<forall>(p, x) \<in> set es. n_portMap n p = Some x"
  shows "nat_inv (fold (remove_expired now) es n)"
proof -
  let ?es = "filter (\<lambda>e. timed_out now n (snd e)) es"
  have t: "\<forall>e \<in> set ?es. timed_out now n (snd e)" by simp
  have es: "\<forall>(p, x) \<in> set ?es. n_portMap n p = Some x" using assms(2) by auto
  have "session_key x \<in> (session_key \<circ> snd) ` set ?es \<longleftrightarrow> p \<in> fst ` set ?es" if "n_portMap n p = Some x" for p x
  proof
    assume "session_key x \<in> (session_key \<circ> snd) ` set ?es"
    then obtain q y where q: "(q, y) \<in> set ?es" "session_key y = session_key x" by auto
    then have "n_portMap n q = Some y" using es by blast
    then have "p = q" using nat_invD(2) [OF assms(1)] that q(2) by (metis option.inject)
    then show "p \<in> fst ` set ?es" using q(1) by force
  next
    assume "p \<in> fst ` set ?es"
    then obtain y where "(p, y) \<in> set ?es" by force
    moreover from this have "y = x" using es that by fastforce
    ultimately show "session_key x \<in> (session_key \<circ> snd) ` set ?es" by force
  qed
  then show ?thesis
    unfolding fold_remove_filter [of now es n] fold_remove [OF t] by (rule nat_inv_restrict [OF assms(1)])
qed

lemma nat_seq_inv: "nat_seq n n' \<Longrightarrow> nat_inv n \<Longrightarrow> nat_inv n'"
  by (induction rule: nat_seq.induct) (auto simp: nat_inv_refresh Lookup_inv intro: remove_inv)

lemma TCPNat_eqI:
  "n_timeout a = n_timeout b \<Longrightarrow> n_portIndex a = n_portIndex b \<Longrightarrow> n_addrMap a = n_addrMap b \<Longrightarrow> n_portMap a = n_portMap b \<Longrightarrow>
   a = (b :: TCPNat)"
  by simp

lemma abs_nat_simps [simp]:
  "n_timeout (abs_nat h) = h_timeout h" "n_portIndex (abs_nat h) = h_portIndex h" "n_addrMap (abs_nat h) = h_addrMap h"
  "n_portMap (abs_nat h) p = map_option (h_session h) (h_portMap h p)"
  by (simp_all add: abs_nat_def)

lemma abs_nat_insert:
  assumes "\<forall>p r. h_portMap h p = Some r \<longrightarrow> r < h_next h"
  shows "n_portMap (abs_nat (h\<lparr>h_portIndex := i, h_session := (h_session h)(h_next h := x), h_next := Suc (h_next h),
      h_portMap := (h_portMap h)(p \<mapsto> h_next h), h_addrMap := a\<rparr>)) = (n_portMap (abs_nat h))(p \<mapsto> x)"
  using assms by (fastforce simp: fun_eq_iff map_option_case split: option.splits)

lemma locked_lookup_sim:
  assumes h: "heap_inv h" and l: "locked_lookup t t' k h = (h', r)"
  shows "Lookup t t' (fst k) (snd k) (abs_nat h) = (abs_nat h', r) \<and> heap_inv h' \<and>
    (\<forall>p q. h_portMap h p = Some q \<longrightarrow> h_portMap h' p = Some q)"
proof (cases "h_addrMap h k")
  case (Some p)
  have n: "nat_inv (abs_nat h)" using h by (simp add: heap_inv_def)
  obtain q where q: "h_portMap h p = Some q" using nat_invD(1) [OF n, of k p] Some by auto
  then have "h' = touch t t' q h" "r = Some p" using l Some by (auto simp: locked_lookup_def)
  then show ?thesis
    using h q Some abs_touch [OF h q, of t t'] by (simp add: Lookup_def heap_inv_touch) (simp add: touch_def)
next
  case None
  have n: "nat_inv (abs_nat h)" using h by (simp add: heap_inv_def)
  obtain m a where a: "allocatePortLocked (abs_nat h) = (m, a)" by (cases "allocatePortLocked (abs_nat h)")
  note sp = allocatePortLocked_spec [OF n a]
  show ?thesis
  proof (cases a)
    case None': None
    then have e: "h' = h\<lparr>h_portIndex := n_portIndex m\<rparr>" "r = None" using l None a by (auto simp: locked_lookup_def)
    have "abs_nat h' = m" using sp e by (intro TCPNat_eqI) (auto simp: fun_eq_iff)
    then have L: "Lookup t t' (fst k) (snd k) (abs_nat h) = (abs_nat h', r)" using a None None' e by (simp add: Lookup_def)
    then have "nat_inv (abs_nat h')" using Lookup_inv [OF n, of t t' "fst k" "snd k"] by simp
    then show ?thesis using L h e by (simp add: heap_inv_def)
  next
    case (Some p)
    let ?x = "\<lparr>s_Source = fst k, s_Destination = snd k, s_LastActive = t\<rparr>"
    have e: "h' = h\<lparr>h_portIndex := n_portIndex m, h_session := (h_session h)(h_next h := ?x), h_next := Suc (h_next h),
        h_portMap := (h_portMap h)(p \<mapsto> h_next h), h_addrMap := (h_addrMap h)(k \<mapsto> p)\<rparr>" "r = Some p"
      using l None a Some by (auto simp: locked_lookup_def)
    have lt: "\<forall>p r. h_portMap h p = Some r \<longrightarrow> r < h_next h" using h by (simp add: heap_inv_def)
    have free: "h_portMap h p = None" using sp(5) [OF Some] by simp
    have "n_portMap (abs_nat h') = (n_portMap (abs_nat h))(p \<mapsto> ?x)"
      unfolding e(1) by (rule abs_nat_insert [OF lt])
    then have L: "Lookup t t' (fst k) (snd k) (abs_nat h) = (abs_nat h', r)"
      using a None Some e sp(1-3) by (auto simp: Lookup_def intro!: TCPNat_eqI)
    then have "nat_inv (abs_nat h')" using Lookup_inv [OF n, of t t' "fst k" "snd k"] by simp
    then show ?thesis
      using L h lt free unfolding heap_inv_def e(1) by (auto simp: less_Suc_eq dest: spec split: if_splits)
  qed
qed

lemma remove_one_sim:
  "h_session (fold (remove_one now) es h) = h_session h \<and> h_next (fold (remove_one now) es h) = h_next h \<and>
   abs_nat (fold (remove_one now) es h) =
     fold (remove_expired now) (map (\<lambda>(p, r). (p, h_session h r)) es) (abs_nat h) \<and>
   (\<forall>p r. h_portMap (fold (remove_one now) es h) p = Some r \<longrightarrow> h_portMap h p = Some r)"
proof (induction es arbitrary: h)
  case (Cons e es)
  have "abs_nat (remove_one now e h) = remove_expired now (case e of (p, r) \<Rightarrow> (p, h_session h r)) (abs_nat h)"
    by (cases e) (auto simp: remove_one_def remove_expired_def timed_out_def fun_eq_iff intro!: TCPNat_eqI)
  moreover have "h_session (remove_one now e h) = h_session h" "h_next (remove_one now e h) = h_next h"
    "h_portMap (remove_one now e h) p = Some r \<Longrightarrow> h_portMap h p = Some r" for p r
    by (auto simp: remove_one_def split: if_splits)
  ultimately show ?case using Cons [of "remove_one now e h"] by auto
qed simp

lemma collect_in: "(p, r) \<in> set (collect now order h) \<Longrightarrow> h_portMap h p = Some r"
  by (auto simp: collect_def List.map_filter_def)

lemma touch_step:
  assumes "sys_inv s"
  shows "nat_seq (abs_nat (heap s)) (abs_nat (touch t t' r (heap s)))" and "heap_inv (touch t t' r (heap s))"
    and "chk_inv (chk s) (touch t t' r (heap s))"
proof -
  have h: "heap_inv (heap s)" using assms by (simp add: sys_inv_def)
  show "nat_seq (abs_nat (heap s)) (abs_nat (touch t t' r (heap s)))"
  proof (cases "\<exists>p. h_portMap (heap s) p = Some r")
    case True
    then show ?thesis using abs_touch [OF h] by (auto intro: nat_seq.refresh)
  next
    case False
    then show ?thesis by (simp add: abs_touch_gone nat_seq.idle)
  qed
  show "heap_inv (touch t t' r (heap s))" using h by (rule heap_inv_touch)
  show "chk_inv (chk s) (touch t t' r (heap s))"
    using assms by (auto simp: sys_inv_def chk_inv_def touch_def split: checker.splits)
qed

lemma locked_step:
  assumes "sys_inv s" and "locked_lookup t t' k (heap s) = (h', r)"
  shows "nat_seq (abs_nat (heap s)) (abs_nat h')" and "heap_inv h'" and "chk_inv (chk s) h'"
proof -
  have h: "heap_inv (heap s)" using assms(1) by (simp add: sys_inv_def)
  note l = locked_lookup_sim [OF h assms(2)]
  then show "heap_inv h'" by simp
  have "abs_nat h' = fst (Lookup t t' (fst k) (snd k) (abs_nat (heap s)))" using l by simp
  then show "nat_seq (abs_nat (heap s)) (abs_nat h')" by (simp add: nat_seq.lookup)
  show "chk_inv (chk s) h'"
    using assms(1) l by (auto simp: sys_inv_def chk_inv_def split: checker.splits)
qed

lemma remove_step:
  assumes "sys_inv s" and "chk s = Collected now es"
  shows "nat_seq (abs_nat (heap s)) (abs_nat (fold (remove_one now) es (heap s)))"
    and "heap_inv (fold (remove_one now) es (heap s))"
proof -
  note r = remove_one_sim [of now es "heap s"]
  have "\<forall>(p, x) \<in> set (map (\<lambda>(p, r). (p, h_session (heap s) r)) es). n_portMap (abs_nat (heap s)) p = Some x"
    using assms by (auto simp: sys_inv_def chk_inv_def)
  from nat_seq.remove [OF this] show q: "nat_seq (abs_nat (heap s)) (abs_nat (fold (remove_one now) es (heap s)))"
    using r by simp
  have "nat_inv (abs_nat (fold (remove_one now) es (heap s)))"
    using nat_seq_inv [OF q] assms(1) by (simp add: sys_inv_def heap_inv_def)
  then show "heap_inv (fold (remove_one now) es (heap s))"
    using assms(1) r by (simp add: sys_inv_def heap_inv_def) blast
qed

lemma step_sim:
  assumes "nat_step s s'" and "sys_inv s"
  shows "sys_inv s' \<and> nat_seq (abs_nat (heap s)) (abs_nat (heap s'))"
  using assms
proof (induction rule: nat_step.induct)
  case (touched s i k p r t t')
  then show ?case using touch_step [of s t t' r] by (simp add: sys_inv_def)
next
  case (back_touched s i p r t t')
  then show ?case using touch_step [of s t t' r] by (simp add: sys_inv_def)
next
  case (locked s i k t t' h' r)
  then show ?case using locked_step [of s t t' k h' r] by (simp add: sys_inv_def)
next
  case (collected s order now)
  then show ?case by (auto simp: sys_inv_def chk_inv_def nat_seq.idle dest: collect_in)
next
  case (removed s now es)
  then show ?case using remove_step [of s now es] by (simp add: sys_inv_def chk_inv_def)
qed (simp_all add: sys_inv_def nat_seq.idle)

lemma start_inv: "sys_inv (nat_start timeout)"
  by (simp add: sys_inv_def heap_inv_def chk_inv_def nat_start_def nat_inv_def)

lemma steps_inv: "nat_steps (nat_start timeout) s \<Longrightarrow> sys_inv s"
  by (induction rule: nat_steps.induct) (use start_inv step_sim in blast)+

section \<open>Properties\<close>

text \<open>
  C8. Every interleaving of lookups, reverse lookups and the expiry is safe: each step of a
  goroutine acts on the table like an operation of the sequential code or not at all, and after
  it the two maps are still inverse to each other, no two ports sharing a session object.
\<close>

theorem interleavings_safe:
  assumes "nat_steps (nat_start timeout) s" and "nat_step s s'"
  shows "nat_seq (abs_nat (heap s)) (abs_nat (heap s')) \<and>
    (\<forall>k p. h_addrMap (heap s') k = Some p \<longleftrightarrow>
      (\<exists>r. h_portMap (heap s') p = Some r \<and> session_key (h_session (heap s') r) = k)) \<and>
    inj_on (h_portMap (heap s')) (dom (h_portMap (heap s')))"
proof -
  note i = step_sim [OF assms(2) steps_inv [OF assms(1)]]
  then have h: "nat_inv (abs_nat (heap s'))" "heap_inv (heap s')" by (simp_all add: sys_inv_def heap_inv_def)
  have "h_addrMap (heap s') k = Some p \<longleftrightarrow>
      (\<exists>r. h_portMap (heap s') p = Some r \<and> session_key (h_session (heap s') r) = k)" for k p
    using nat_invD(1) [OF h(1), of k p] nat_invD(2) [OF h(1), of p] by auto
  moreover have "inj_on (h_portMap (heap s')) (dom (h_portMap (heap s')))"
    using h(2) by (auto simp: inj_on_def heap_inv_def)
  ultimately show ?thesis using i by blast
qed

text \<open>A run of the whole table with one session, and its expiry.\<close>

definition race_key :: tcpNatKey where
  "race_key = ((Addr4 [10, 0, 0, 1], 1024), (Addr4 [1, 1, 1, 1], 443))"

definition race_heap :: nat_heap where
  "race_heap = \<lparr>h_timeout = 60, h_portIndex = 10001, h_addrMap = [race_key \<mapsto> 10000], h_portMap = [10000 \<mapsto> 0],
     h_session = (\<lambda>_. \<lparr>s_Source = (ZeroAddr, 0), s_Destination = (ZeroAddr, 0), s_LastActive = 0\<rparr>)
       (0 := \<lparr>s_Source = fst race_key, s_Destination = snd race_key, s_LastActive = 5\<rparr>), h_next = 1\<rparr>"

lemma race_locked: "locked_lookup 5 5 race_key (heap (nat_start 60)) = (race_heap, Some 10000)"
proof -
  have n: "65535 - 10000 + 1 = Suc 55535" by simp
  have a: "allocatePortLocked (abs_nat (heap (nat_start 60))) =
      ((abs_nat (heap (nat_start 60)))\<lparr>n_portIndex := 10001\<rparr>, Some 10000)"
    unfolding allocatePortLocked_def n by (simp only: allocate_loop.simps) (simp add: nat_start_def abs_nat_def)
  show ?thesis
    unfolding locked_lookup_def a by (simp add: nat_start_def race_heap_def)
qed

abbreviation race_at :: "nat_heap \<Rightarrow> pc \<Rightarrow> checker \<Rightarrow> nat_sys" where
  "race_at h pc c \<equiv> \<lparr>heap = h, pcs = (\<lambda>_. Idle)(0 := pc), chk = c\<rparr>"

abbreviation race_collected :: checker where
  "race_collected \<equiv> Collected 100 [(10000, 0)]"

abbreviation race_expired :: nat_heap where
  "race_expired \<equiv> race_heap\<lparr>h_addrMap := Map.empty, h_portMap := Map.empty\<rparr>"

text \<open>The first lookup of the connection, before and after the section that allocates a port.\<close>

lemma race_lookup:
  "nat_steps (nat_start 60) (race_at (heap (nat_start 60)) (Locking race_key) Waiting)"
  "nat_step (race_at (heap (nat_start 60)) (Locking race_key) Waiting) (race_at race_heap (Returned race_key (Some 10000)) Waiting)"
proof -
  let ?h = "heap (nat_start 60)"
  have "(\<lambda>_ :: nat. Idle)(0 := Idle) = (\<lambda>_. Idle)" by auto
  then have 0: "nat_steps (nat_start 60) (race_at ?h Idle Waiting)"
    using nat_steps.none [of "nat_start 60"] by (simp add: nat_start_def)
  have 1: "nat_steps (nat_start 60) (race_at ?h (Reading race_key) Waiting)"
    by (rule nat_steps.more [OF 0]) (use nat_step.call [of "race_at ?h Idle Waiting" 0 race_key] in simp)
  show "nat_steps (nat_start 60) (race_at ?h (Locking race_key) Waiting)"
    by (rule nat_steps.more [OF 1]) (use nat_step.read_miss [of "race_at ?h (Reading race_key) Waiting" 0 race_key] in \<open>simp add: nat_start_def\<close>)
  show "nat_step (race_at ?h (Locking race_key) Waiting) (race_at race_heap (Returned race_key (Some 10000)) Waiting)"
    using nat_step.locked [of "race_at ?h (Locking race_key) Waiting" 0 race_key 5 5 race_heap "Some 10000"] race_locked by simp
qed

text \<open>A second lookup has read the port when the expiry has collected the session, and then removes it.\<close>

lemma race_expiry:
  "nat_steps (nat_start 60) (race_at race_heap (Refreshing race_key 10000) race_collected)"
  "nat_step (race_at race_heap (Refreshing race_key 10000) race_collected) (race_at race_expired (Refreshing race_key 10000) Waiting)"
proof -
  note 3 = nat_steps.more [OF race_lookup]
  have 4: "nat_steps (nat_start 60) (race_at race_heap Idle Waiting)"
    by (rule nat_steps.more [OF 3]) (use nat_step.finish [of "race_at race_heap (Returned race_key (Some 10000)) Waiting" 0] in simp)
  have 5: "nat_steps (nat_start 60) (race_at race_heap (Reading race_key) Waiting)"
    by (rule nat_steps.more [OF 4]) (use nat_step.call [of "race_at race_heap Idle Waiting" 0 race_key] in simp)
  have 6: "nat_steps (nat_start 60) (race_at race_heap (Refreshing race_key 10000) Waiting)"
    by (rule nat_steps.more [OF 5]) (use nat_step.read_hit [of "race_at race_heap (Reading race_key) Waiting" 0 race_key 10000] in \<open>simp add: race_heap_def\<close>)
  have "collect 100 [10000] race_heap = [(10000, 0)]"
    by (simp add: collect_def race_heap_def timed_out_def List.map_filter_def)
  then show "nat_steps (nat_start 60) (race_at race_heap (Refreshing race_key 10000) race_collected)"
    by (intro nat_steps.more [OF 6]) (use nat_step.collected [of "race_at race_heap (Refreshing race_key 10000) Waiting" "[10000]" 100] in \<open>simp add: race_heap_def\<close>)
  have "fold (remove_one 100) [(10000, 0)] race_heap = race_expired"
    by (simp add: remove_one_def race_heap_def session_key_def)
  then show "nat_step (race_at race_heap (Refreshing race_key 10000) race_collected) (race_at race_expired (Refreshing race_key 10000) Waiting)"
    using nat_step.removed [of "race_at race_heap (Refreshing race_key 10000) race_collected" 100 "[(10000, 0)]"] by simp
qed

theorem interleavings_safe_witness:
  "nat_seq (NewNat 60) (abs_nat race_heap) \<and> h_addrMap race_heap race_key = Some 10000 \<and>
    (\<exists>r. h_portMap race_heap 10000 = Some r \<and> session_key (h_session race_heap r) = race_key) \<and>
    nat_seq (abs_nat race_heap) (abs_nat race_expired) \<and> inj_on (h_portMap race_heap) {10000}"
proof -
  have n: "abs_nat (heap (nat_start 60)) = NewNat 60" by (simp add: abs_nat_def nat_start_def NewNat_def)
  have k: "h_addrMap race_heap race_key = Some 10000" "dom (h_portMap race_heap) = {10000}" by (simp_all add: race_heap_def)
  have "\<exists>r. h_portMap race_heap 10000 = Some r \<and> session_key (h_session race_heap r) = race_key"
    using interleavings_safe [OF race_lookup, THEN conjunct2, THEN conjunct1, THEN spec, THEN spec, of race_key 10000] k(1) by simp
  then show ?thesis
    using interleavings_safe [OF race_lookup] interleavings_safe [OF race_expiry] unfolding k(2) [symmetric] by (simp add: n k(1))
qed

text \<open>
  C38. A lookup can return a port that is not in the table any more: a goroutine has read the port
  of its connection, the expiry removes the session before it is refreshed, and \<open>Lookup\<close> still
  returns the port. Packets rewritten to it are answered to a port nobody owns.
\<close>

theorem lookup_races_with_expiry:
  "\<exists>s. nat_steps (nat_start 60) s \<and> pcs s 0 = Returned race_key (Some 10000) \<and>
     h_addrMap (heap s) race_key = None \<and> h_portMap (heap s) 10000 = None"
proof -
  have "nat_steps (nat_start 60) (race_at race_expired (Returned race_key (Some 10000)) Waiting)"
    by (rule nat_steps.more [OF nat_steps.more [OF race_expiry]])
      (use nat_step.fetch_gone [of "race_at race_expired (Refreshing race_key 10000) Waiting" 0 race_key 10000] in simp)
  then show ?thesis by (intro exI [of _ "race_at race_expired (Returned race_key (Some 10000)) Waiting"]) simp
qed

end
