(* ===== verification/System_TCP.thy ===== *)
theory System_TCP
  imports Packet_Build Nat_Threads
begin

text \<open>
  The TCP half of the system stack (\<^verbatim>\<open>stack_system.go\<close>): the state of the stack, the functions
  \<^verbatim>\<open>processIPv4TCP\<close> and \<^verbatim>\<open>processIPv6TCP\<close> that translate a connection seen on the tunnel to one with
  the listener of the stack and back, and the resets sent when no port is left.

  An operation works on a packet in place and returns the new state, the packet, the
  \<^verbatim>\<open>writeBack\<close> flag, the error and what it did to the outside, in order. The outside is the record
  \<open>World\<close>: clock readings, the contents of buffers fresh from the pool of \<^verbatim>\<open>sing/common/buf\<close>, the result
  of writing to the device and of the route lookup for ICMP, and the constant \<^verbatim>\<open>PacketOffset\<close> of the
  platform.
\<close>

datatype system_error =
  InvalidIPv4Packet | InvalidIPv6Packet | UnknownVersion int
| SessionNotFound4 u16 | SessionNotFound6 u16
| FragmentDropped | UDPFragmentDropped
| WriteFailed | ActionFailed

datatype direct_error = ErrReset | ErrDrop | OtherError

record System =
  sy_mtu :: int
  sy_inet4Address :: Addr
  sy_inet4NextAddress :: Addr
  sy_inet6Address :: Addr
  sy_inet6NextAddress :: Addr
  sy_broadcastAddr :: Addr
  sy_inet4LoopbackAddress :: "Addr list"
  sy_inet6LoopbackAddress :: "Addr list"
  sy_udpTimeout :: int
  sy_tcpPort :: u16
  sy_tcpPort6 :: u16
  sy_tcpNat4 :: "TCPNat option"
  sy_tcpNat6 :: "TCPNat option"
  sy_enforceBind :: bool
  sy_frontHeadroom :: nat
  sy_txChecksumOffload :: bool
  sy_recvMsgX :: bool

record World =
  w_PacketOffset :: nat
  w_now :: int
  w_now' :: int
  w_fresh :: "nat \<Rightarrow> bytes"
  w_tunWrite :: "bytes \<Rightarrow> system_error option"
  w_directNat :: "Addr \<times> Addr \<Rightarrow> bool \<times> direct_error option"
  w_actionWrite :: "bytes \<Rightarrow> system_error option"

text \<open>The packet writers handed to the UDP handler, defined with their methods in \<open>System_UDP\<close>.\<close>

record systemUDPPacketWriter =
  uw_frontHeadroom :: nat
  uw_header :: bytes
  uw_source :: AddrPort
  uw_txChecksumOffload :: bool

datatype effect =
  TunWrite bytes
| TunBatchWrite "bytes list"
| NewConnection AddrPort AddrPort
| NewPacket AddrPort bytes AddrPort systemUDPPacketWriter
| ActionWrite bytes

type_synonym outcome = "System \<times> bytes \<times> bool \<times> system_error option \<times> effect list"

section \<open>Writing to the device\<close>

definition PacketFillHeader :: "nat \<Rightarrow> bytes \<Rightarrow> int \<Rightarrow> bytes option" where
  "PacketFillHeader PacketOffset packet ipVersion =
     (if PacketOffset > 0 then do {
        packet \<leftarrow> on_slice 0 3 (\<lambda>s. Some (replicate (length s) 0)) packet;
        if ipVersion = 4 then set_byte packet 3 2
        else if ipVersion = 6 then set_byte packet 3 30
        else Some packet }
      else Some packet)"

text \<open>
  The end of every function that sends a packet of its own: the packet \<open>p\<close> was built in a buffer
  behind \<open>h\<close> bytes of headroom; on Darwin the four bytes before it become the protocol family,
  elsewhere the headroom of the device is given back.
\<close>

definition send_packet :: "World \<Rightarrow> nat \<Rightarrow> bytes \<Rightarrow> int \<Rightarrow> bytes \<Rightarrow> (system_error option \<times> effect list) option" where
  "send_packet w frontHeadroom h ipVersion p = do {
     bs \<leftarrow> (if w_PacketOffset w > 0 then do {
         ext \<leftarrow> slice_from h (length h - w_PacketOffset w);
         PacketFillHeader (w_PacketOffset w) ext ipVersion }
       else slice_from h (length h - frontHeadroom));
     Some (w_tunWrite w (bs @ p), [TunWrite (bs @ p)]) }"

section \<open>Resets\<close>

text \<open>Lines 467 to 485, the same for both families: the fields of the reset for a segment.\<close>

definition reset_fields :: "TCP \<Rightarrow> TCPFields option" where
  "reset_fields origTCPHdr = do {
     dp \<leftarrow> TCP_DestinationPort origTCPHdr;
     sp \<leftarrow> TCP_SourcePort origTCPHdr;
     let fields = \<lparr>ft_SrcPort = dp, ft_DstPort = sp, ft_SeqNum = 0, ft_AckNum = 0, ft_DataOffset = 20,
       ft_Flags = TCPFlagRst, ft_WindowSize = 0, ft_Checksum = 0, ft_UrgentPointer = 0\<rparr>;
     flags \<leftarrow> TCP_Flags origTCPHdr;
     if flags AND TCPFlagAck \<noteq> 0 then do {
       a \<leftarrow> TCP_AckNumber origTCPHdr;
       Some (fields\<lparr>ft_SeqNum := a\<rparr>) }
     else do {
       let fields = fields\<lparr>ft_Flags := ft_Flags fields OR TCPFlagAck\<rparr>;
       s \<leftarrow> TCP_SequenceNumber origTCPHdr;
       p \<leftarrow> TCP_Payload origTCPHdr;
       let ackNum = s + word_of_nat (length p);
       let ackNum = (if flags AND TCPFlagSyn \<noteq> 0 then ackNum + 1 else ackNum);
       let ackNum = (if flags AND TCPFlagFin \<noteq> 0 then ackNum + 1 else ackNum);
       Some (fields\<lparr>ft_AckNum := ackNum\<rparr>) } }"

definition resetIPv4TCP :: "World \<Rightarrow> System \<Rightarrow> IPv4 \<Rightarrow> TCP \<Rightarrow> (system_error option \<times> effect list) option" where
  "resetIPv4TCP w s origIPHdr origTCPHdr = do {
     let frontHeadroom = sy_frontHeadroom s + w_PacketOffset w;
     let newPacket = w_fresh w (frontHeadroom + 20 + 20);
     let h = take frontHeadroom newPacket;
     ipHdr \<leftarrow> slice newPacket frontHeadroom (frontHeadroom + 20 + 20);
     sa \<leftarrow> IPv4_DestinationAddr origIPHdr;
     da \<leftarrow> IPv4_SourceAddr origIPHdr;
     ipHdr \<leftarrow> IPv4_Encode ipHdr \<lparr>f4_TOS = 0, f4_TotalLength = word_of_nat (length ipHdr), f4_ID = 0, f4_Flags = 0,
       f4_FragmentOffset = 0, f4_TTL = 0, f4_Protocol = 6, f4_Checksum = 0, f4_SrcAddr = sa, f4_DstAddr = da,
       f4_Options = []\<rparr>;
     (lo, hi) \<leftarrow> payload_window4 ipHdr;
     fields \<leftarrow> reset_fields origTCPHdr;
     ipHdr \<leftarrow> on_slice lo hi (\<lambda>t. TCP_Encode t fields) ipHdr;
     ipHdr \<leftarrow> (if \<not> sy_txChecksumOffload s then do {
         ss \<leftarrow> IPv4_SourceAddressSlice ipHdr;
         ds \<leftarrow> IPv4_DestinationAddressSlice ipHdr;
         ph \<leftarrow> PseudoHeaderChecksum TCPProtocolNumber ss ds 20;
         on_slice lo hi (\<lambda>t. do { c \<leftarrow> TCP_CalculateChecksum t ph; TCP_SetChecksum t (NOT c) }) ipHdr }
       else Some ipHdr);
     c \<leftarrow> IPv4_CalculateChecksum ipHdr;
     ipHdr \<leftarrow> IPv4_SetChecksum ipHdr (NOT c);
     send_packet w (sy_frontHeadroom s) h 4 ipHdr }"

definition resetIPv6TCP :: "World \<Rightarrow> System \<Rightarrow> IPv6 \<Rightarrow> TCP \<Rightarrow> (system_error option \<times> effect list) option" where
  "resetIPv6TCP w s origIPHdr origTCPHdr = do {
     let frontHeadroom = sy_frontHeadroom s + w_PacketOffset w;
     let newPacket = w_fresh w (frontHeadroom + 40 + 20);
     let h = take frontHeadroom newPacket;
     ipHdr \<leftarrow> slice newPacket frontHeadroom (frontHeadroom + 40 + 20);
     sa \<leftarrow> IPv6_DestinationAddr origIPHdr;
     da \<leftarrow> IPv6_SourceAddr origIPHdr;
     ipHdr \<leftarrow> IPv6_Encode ipHdr \<lparr>f6_TrafficClass = 0, f6_FlowLabel = 0, f6_PayloadLength = 20,
       f6_TransportProtocol = TCPProtocolNumber, f6_HopLimit = 0, f6_SrcAddr = sa, f6_DstAddr = da,
       f6_ExtensionHeaders = []\<rparr>;
     (lo, hi) \<leftarrow> payload_window6 ipHdr;
     fields \<leftarrow> reset_fields origTCPHdr;
     ipHdr \<leftarrow> on_slice lo hi (\<lambda>t. TCP_Encode t fields) ipHdr;
     ipHdr \<leftarrow> (if \<not> sy_txChecksumOffload s then do {
         ss \<leftarrow> IPv6_SourceAddressSlice ipHdr;
         ds \<leftarrow> IPv6_DestinationAddressSlice ipHdr;
         ph \<leftarrow> PseudoHeaderChecksum TCPProtocolNumber ss ds 20;
         on_slice lo hi (\<lambda>t. do { c \<leftarrow> TCP_CalculateChecksum t ph; TCP_SetChecksum t (NOT c) }) ipHdr }
       else Some ipHdr);
     send_packet w (sy_frontHeadroom s) h 6 ipHdr }"

section \<open>Processing a segment\<close>

definition processIPv4TCP :: "World \<Rightarrow> System \<Rightarrow> IPv4 \<Rightarrow> nat \<Rightarrow> nat \<Rightarrow> outcome option" where
  "processIPv4TCP w s ipHdr lo hi = (case sy_tcpNat4 s of
     None \<Rightarrow> Some (s, ipHdr, False, None, [])
   | Some tcpNat4 \<Rightarrow> do {
       tcpHdr \<leftarrow> slice ipHdr lo hi;
       sa \<leftarrow> IPv4_SourceAddr ipHdr;
       sp \<leftarrow> TCP_SourcePort tcpHdr;
       da \<leftarrow> IPv4_DestinationAddr ipHdr;
       dp \<leftarrow> TCP_DestinationPort tcpHdr;
       if \<not> IsGlobalUnicast da then Some (s, ipHdr, False, None, [])
       else if sa = sy_inet4Address s \<and> sp = sy_tcpPort s then
         (case LookupBack (w_now w) (w_now' w) dp tcpNat4 of
            (tcpNat4, None) \<Rightarrow> Some (s\<lparr>sy_tcpNat4 := Some tcpNat4\<rparr>, ipHdr, False, Some (SessionNotFound4 dp), [])
          | (tcpNat4, Some session) \<Rightarrow> do {
              ipHdr \<leftarrow> rewriteIPv4TCP ipHdr lo hi (sy_txChecksumOffload s)
                (fst (s_Destination session)) (snd (s_Destination session)) True
                (fst (s_Source session)) (snd (s_Source session)) True;
              Some (s\<lparr>sy_tcpNat4 := Some tcpNat4\<rparr>, ipHdr, True, None, []) })
       else (case find (\<lambda>a. da = a) (sy_inet4LoopbackAddress s) of
            Some inet4LoopbackAddress \<Rightarrow> do {
              ipHdr \<leftarrow> rewriteIPv4TCP ipHdr lo hi (sy_txChecksumOffload s) inet4LoopbackAddress 0 False sa 0 False;
              Some (s, ipHdr, True, None, []) }
          | None \<Rightarrow> (case Lookup (w_now w) (w_now' w) (sa, sp) (da, dp) tcpNat4 of
              (tcpNat4, None) \<Rightarrow> do {
                (err, effs) \<leftarrow> resetIPv4TCP w s ipHdr tcpHdr;
                Some (s\<lparr>sy_tcpNat4 := Some tcpNat4\<rparr>, ipHdr, False, err, effs) }
            | (tcpNat4, Some natPort) \<Rightarrow> do {
                ipHdr \<leftarrow> rewriteIPv4TCP ipHdr lo hi (sy_txChecksumOffload s)
                  (sy_inet4NextAddress s) natPort True (sy_inet4Address s) (sy_tcpPort s) True;
                Some (s\<lparr>sy_tcpNat4 := Some tcpNat4\<rparr>, ipHdr, True, None, []) })) })"

definition processIPv6TCP :: "World \<Rightarrow> System \<Rightarrow> IPv6 \<Rightarrow> nat \<Rightarrow> nat \<Rightarrow> outcome option" where
  "processIPv6TCP w s ipHdr lo hi = (case sy_tcpNat6 s of
     None \<Rightarrow> Some (s, ipHdr, False, None, [])
   | Some tcpNat6 \<Rightarrow> do {
       tcpHdr \<leftarrow> slice ipHdr lo hi;
       sa \<leftarrow> IPv6_SourceAddr ipHdr;
       sp \<leftarrow> TCP_SourcePort tcpHdr;
       da \<leftarrow> IPv6_DestinationAddr ipHdr;
       dp \<leftarrow> TCP_DestinationPort tcpHdr;
       if \<not> IsGlobalUnicast da then Some (s, ipHdr, False, None, [])
       else if sa = sy_inet6Address s \<and> sp = sy_tcpPort6 s then
         (case LookupBack (w_now w) (w_now' w) dp tcpNat6 of
            (tcpNat6, None) \<Rightarrow> Some (s\<lparr>sy_tcpNat6 := Some tcpNat6\<rparr>, ipHdr, False, Some (SessionNotFound6 dp), [])
          | (tcpNat6, Some session) \<Rightarrow> do {
              ipHdr \<leftarrow> rewriteIPv6TCP ipHdr lo hi (sy_txChecksumOffload s)
                (fst (s_Destination session)) (snd (s_Destination session)) True
                (fst (s_Source session)) (snd (s_Source session)) True;
              Some (s\<lparr>sy_tcpNat6 := Some tcpNat6\<rparr>, ipHdr, True, None, []) })
       else (case find (\<lambda>a. da = a) (sy_inet6LoopbackAddress s) of
            Some inet6LoopbackAddress \<Rightarrow> do {
              ipHdr \<leftarrow> rewriteIPv6TCP ipHdr lo hi (sy_txChecksumOffload s) inet6LoopbackAddress 0 False sa 0 False;
              Some (s, ipHdr, True, None, []) }
          | None \<Rightarrow> (case Lookup (w_now w) (w_now' w) (sa, sp) (da, dp) tcpNat6 of
              (tcpNat6, None) \<Rightarrow> do {
                (err, effs) \<leftarrow> resetIPv6TCP w s ipHdr tcpHdr;
                Some (s\<lparr>sy_tcpNat6 := Some tcpNat6\<rparr>, ipHdr, False, err, effs) }
            | (tcpNat6, Some natPort) \<Rightarrow> do {
                ipHdr \<leftarrow> rewriteIPv6TCP ipHdr lo hi (sy_txChecksumOffload s)
                  (sy_inet6NextAddress s) natPort True (sy_inet6Address s) (sy_tcpPort6 s) True;
                Some (s\<lparr>sy_tcpNat6 := Some tcpNat6\<rparr>, ipHdr, True, None, []) })) })"

section \<open>Resets are right\<close>

text \<open>What the stack relies on outside: buffers have the size asked for, and \<^verbatim>\<open>PacketOffset\<close> is 0 or 4.\<close>

definition world_ok :: "World \<Rightarrow> bool" where
  "world_ok w \<longleftrightarrow> (\<forall>n. length (w_fresh w n) = n) \<and> w_PacketOffset w \<in> {0, 4}"

text \<open>One packet with the property \<open>P\<close> went to the device, behind its headroom or its protocol family.\<close>

definition wrote :: "World \<Rightarrow> nat \<Rightarrow> (bytes \<Rightarrow> bool) \<Rightarrow> system_error option \<times> effect list \<Rightarrow> bool" where
  "wrote w frontHeadroom P out \<longleftrightarrow> (\<exists>pre p. out = (w_tunWrite w (pre @ p), [TunWrite (pre @ p)]) \<and>
     length pre = (if w_PacketOffset w = 0 then frontHeadroom else 4) \<and> P p)"

lemma wroteI [intro]:
  "length pre = (if w_PacketOffset w = 0 then frontHeadroom else 4) \<Longrightarrow> P p \<Longrightarrow>
   wrote w frontHeadroom P (w_tunWrite w (pre @ p), [TunWrite (pre @ p)])"
  unfolding wrote_def by blast

lemma wrote_mono: "wrote w frontHeadroom P out \<Longrightarrow> (\<And>p. P p \<Longrightarrow> Q p) \<Longrightarrow> wrote w frontHeadroom Q out"
  unfolding wrote_def by blast

lemma send_packet_right:
  assumes "world_ok w" and "w_PacketOffset w \<le> length h" and "w_PacketOffset w = 0 \<Longrightarrow> length h = frontHeadroom"
  shows "\<exists>pre. length pre = (if w_PacketOffset w = 0 then frontHeadroom else 4) \<and>
    send_packet w frontHeadroom h v p = Some (w_tunWrite w (pre @ p), [TunWrite (pre @ p)])"
proof (cases "w_PacketOffset w = 0")
  case True
  then show ?thesis using assms by (auto simp: send_packet_def slice_from_def)
next
  case False
  then have o: "w_PacketOffset w = 4" using assms(1) by (auto simp: world_ok_def)
  define e where "e = drop (length h - 4) h"
  have e: "length e = 4" using assms(2) o by (simp add: e_def)
  then have "\<exists>pre. length pre = 4 \<and> PacketFillHeader 4 e v = Some pre"
    by (auto simp: PacketFillHeader_def go_defs)
  then show ?thesis using o assms(2) by (auto simp: send_packet_def slice_from_def simp flip: e_def)
qed

text \<open>RFC 793: the sequence space a segment occupies, and the reset that answers it.\<close>

definition segment_space :: "TCP \<Rightarrow> u32 option" where
  "segment_space t = do {
     p \<leftarrow> TCP_Payload t; f \<leftarrow> TCP_Flags t;
     Some (word_of_nat (length p) + (if f AND TCPFlagSyn \<noteq> 0 then 1 else 0) + (if f AND TCPFlagFin \<noteq> 0 then 1 else 0)) }"

definition answers_with_reset :: "TCP \<Rightarrow> TCP \<Rightarrow> bool" where
  "answers_with_reset t r \<longleftrightarrow>
     TCP_SourcePort r = TCP_DestinationPort t \<and> TCP_DestinationPort r = TCP_SourcePort t \<and>
     returns (TCP_Flags t) (\<lambda>f.
       if f AND TCPFlagAck \<noteq> 0 then TCP_Flags r = Some TCPFlagRst \<and> TCP_SequenceNumber r = TCP_AckNumber t
       else TCP_Flags r = Some (TCPFlagRst OR TCPFlagAck) \<and> TCP_SequenceNumber r = Some 0 \<and>
         TCP_AckNumber r = do { s \<leftarrow> TCP_SequenceNumber t; n \<leftarrow> segment_space t; Some (s + n) })"

lemma BE_Uint32_ex: "off + 4 \<le> length b \<Longrightarrow> \<exists>v. BE_Uint32 b off = Some v"
  by (simp add: BE_Uint32_def)

lemma reset_fields_right:
  assumes "tcp_shape t"
  shows "\<exists>f. reset_fields t = Some f \<and> ft_DataOffset f = 20 \<and>
    (\<forall>r. TCP_SourcePort r = Some (ft_SrcPort f) \<and> TCP_DestinationPort r = Some (ft_DstPort f) \<and>
      TCP_SequenceNumber r = Some (ft_SeqNum f) \<and> TCP_AckNumber r = Some (ft_AckNum f) \<and> TCP_Flags r = Some (ft_Flags f) \<longrightarrow>
      answers_with_reset t r)"
proof -
  have t: "20 \<le> length t" "tcp_off t \<le> length t"
    using assms tcp_segmentD [of "tcp_off t" "drop (tcp_off t) t" t] by (simp_all add: tcp_shape_iff)
  obtain sp dp where ports: "TCP_SourcePort t = Some sp" "TCP_DestinationPort t = Some dp"
    using tcp_shape_ports [OF assms] by blast
  obtain s a where sa: "TCP_SequenceNumber t = Some s" "TCP_AckNumber t = Some a"
    using t(1) BE_Uint32_ex [of 4 t] BE_Uint32_ex [of 8 t] by (auto simp: TCP_SequenceNumber_def TCP_AckNumber_def)
  obtain f where f: "TCP_Flags t = Some f" using t(1) by (simp add: TCP_Flags_def byte_at_def)
  obtain p where p: "TCP_Payload t = Some p" using t by (simp add: TCP_Payload_eq)
  define n where "n = (word_of_nat (length p) + (if f AND TCPFlagSyn \<noteq> 0 then 1 else 0) + (if f AND TCPFlagFin \<noteq> 0 then 1 else 0) :: u32)"
  have "segment_space t = Some n" using p f by (simp add: segment_space_def n_def)
  moreover have "(if f AND TCPFlagFin \<noteq> 0 then (if f AND TCPFlagSyn \<noteq> 0 then s + word_of_nat (length p) + 1 else s + word_of_nat (length p)) + 1
      else if f AND TCPFlagSyn \<noteq> 0 then s + word_of_nat (length p) + 1 else s + word_of_nat (length p)) = s + n"
    unfolding n_def by (simp only: split: if_split) (simp only: add.assoc add_0_right, simp)
  ultimately show ?thesis
    using ports sa f p by (cases "f AND TCPFlagAck = 0")
      (simp_all add: reset_fields_def answers_with_reset_def Let_def cong: if_cong)
qed

text \<open>The segment part of a reset, in place: encoding the fields, then the checksum unless it is offloaded.\<close>

lemma reset_segment:
  assumes t: "length t = 20" and f: "ft_DataOffset f = 20" and n: "unat ph = fold16 n"
  shows "\<exists>t' r. TCP_Encode t f = Some t' \<and> length t' = 20 \<and>
    (if \<not> off then do { c \<leftarrow> TCP_CalculateChecksum t' ph; TCP_SetChecksum t' (NOT c) } else Some t') = Some r \<and>
    length r = 20 \<and> segment_with off 20 [] n (ft_SrcPort f) (ft_DstPort f) r \<and>
    TCP_SequenceNumber r = Some (ft_SeqNum f) \<and> TCP_AckNumber r = Some (ft_AckNum f) \<and> TCP_Flags r = Some (ft_Flags f)"
proof -
  obtain t' where t': "TCP_Encode t f = Some t'" "tcp_segment 20 [] t'" "TCP_SourcePort t' = Some (ft_SrcPort f)"
    "TCP_DestinationPort t' = Some (ft_DstPort f)" "TCP_SequenceNumber t' = Some (ft_SeqNum f)"
    "TCP_AckNumber t' = Some (ft_AckNum f)" "TCP_Flags t' = Some (ft_Flags f)"
    using TCP_plain [OF t f] by blast
  have l: "length t' = 20" using tcp_segment_length [OF t'(2)] by simp
  obtain c where c: "TCP_CalculateChecksum t' ph = Some c"
      "TCP_SetChecksum t' (NOT c) = Some (t'[16 := hi8 (NOT c), 17 := lo8 (NOT c)])"
      "verifies n (t'[16 := hi8 (NOT c), 17 := lo8 (NOT c)])"
    using TCP_plain_checksum [OF t'(2) n] by blast
  let ?r = "if off then t' else t'[16 := hi8 (NOT c), 17 := lo8 (NOT c)]"
  have "segment_with off 20 [] n (ft_SrcPort f) (ft_DstPort f) ?r"
    using t' c(3) l by (simp add: segment_with_def tcp_segment_write TCP_SourcePort_def TCP_DestinationPort_def go_simps)
  moreover have "TCP_SequenceNumber ?r = Some (ft_SeqNum f)" "TCP_AckNumber ?r = Some (ft_AckNum f)" "TCP_Flags ?r = Some (ft_Flags f)"
    using t' l by (simp_all add: TCP_SequenceNumber_def TCP_AckNumber_def TCP_Flags_def BE_Uint32_write byte_at_def)
  ultimately show ?thesis
    using t'(1) c(1,2) l by (intro exI [of _ t'] exI [of _ ?r]) simp
qed

lemma addr_sum_From: "length x = 4 \<Longrightarrow> addr_sum (AddrFrom4 x) = sum16 x" "length y = 16 \<Longrightarrow> addr_sum (AddrFrom16 y) = sum16 y"
  using AddrFrom4_wf [of x] AddrFrom16_wf [of y] by (simp_all add: addr_sum_def)

lemma on_slice_tail: "length p = lo \<Longrightarrow> hi = lo + length t \<Longrightarrow> on_slice lo hi g (p @ t) = g t \<bind> (\<lambda>t. Some (p @ t))"
  by (simp add: on_slice_in)

lemma fill4:
  assumes e: "valid4 e (length e)" "hlen4 e = 20" "tlen4 e = 40" "length e = 40"
    and r: "segment_with off 20 [] (26 + addr_sum (src4 e) + addr_sum (dst4 e)) sp dp r"
  shows "\<exists>c p. IPv4_CalculateChecksum (take 20 e @ r) = Some c \<and> IPv4_SetChecksum (take 20 e @ r) (NOT c) = Some p \<and>
    ip4.carries off 20 [] (src4 e) (dst4 e) sp dp 20 40 [] p \<and> ip4.seg p = r"
proof -
  have l: "length r = 20" using r tcp_segment_length [of 20 "[]" r] by (simp add: segment_with_def)
  define e' where "e' = take 20 e @ r"
  have p: "valid4 e' (length e')" "hlen4 e' = 20" "tlen4 e' = 40" "src4 e' = src4 e" "dst4 e' = dst4 e" "length e' = 40"
    "drop 20 e' = r"
    using payload4 [OF e(1), of r] e l by (simp_all add: e'_def)
  obtain c p where "IPv4_CalculateChecksum e' = Some c" "IPv4_SetChecksum e' (NOT c) = Some p" "ok4 p"
      "hlen4 p = hlen4 e'" "tlen4 p = tlen4 e'" "src4 p = src4 e'" "dst4 p = dst4 e'" "drop (hlen4 e') p = drop (hlen4 e') e'"
      "length p = length e'"
    using finish4 [OF p(1)] by blast
  then show ?thesis
    using p r l unfolding e'_def [symmetric]
    by (intro exI [of _ c] exI [of _ p]) (simp add: ip4.carries_def ip4.seg_def)
qed

lemma fill6:
  assumes e: "valid6 e (length e)" "plen6 e = 20" "length e = 60"
    and r: "segment_with off 20 [] (26 + addr_sum (src6 e) + addr_sum (dst6 e)) sp dp r"
  shows "ip6.carries off 20 [] (src6 e) (dst6 e) sp dp 40 60 [] (take 40 e @ r)" and "ip6.seg (take 40 e @ r) = r"
proof -
  have l: "length r = 20" using r tcp_segment_length [of 20 "[]" r] by (simp add: segment_with_def)
  have "ok6 e" using e(1) by (simp add: ok6_def)
  from ip6.payload [OF this, of r]
  have p: "ok6 (take 40 e @ r)" "src6 (take 40 e @ r) = src6 e" "dst6 (take 40 e @ r) = dst6 e" "plen6 (take 40 e @ r) = 20"
    using e l by simp_all
  show "ip6.seg (take 40 e @ r) = r" using e l p by (simp add: ip6.seg_def)
  then show "ip6.carries off 20 [] (src6 e) (dst6 e) sp dp 40 60 [] (take 40 e @ r)"
    using p r e(3) l by (simp add: ip6.carries_def)
qed

text \<open>The segment part in the packet it is built in, behind a header \<open>h\<close> that names the addresses.\<close>

lemma reset_in_place:
  assumes e: "length h = lo" "length t = 20" "lo + 20 = hi" and f: "ft_DataOffset f = 20"
    and a: "n = 26 + sum16 ss + sum16 ds"
  shows "\<exists>t' r. on_slice lo hi (\<lambda>t. TCP_Encode t f) (h @ t) = Some (h @ t') \<and> length t' = 20 \<and>
    (if \<not> off then do {
       ph \<leftarrow> PseudoHeaderChecksum TCPProtocolNumber ss ds 20;
       on_slice lo hi (\<lambda>t. do { c \<leftarrow> TCP_CalculateChecksum t ph; TCP_SetChecksum t (NOT c) }) (h @ t') }
     else Some (h @ t')) = Some (h @ r) \<and>
    segment_with off 20 [] n (ft_SrcPort f) (ft_DstPort f) r \<and>
    TCP_SequenceNumber r = Some (ft_SeqNum f) \<and> TCP_AckNumber r = Some (ft_AckNum f) \<and> TCP_Flags r = Some (ft_Flags f)"
proof -
  have "sum16 ss + sum16 ds + 20 + 6 = n" using a by simp
  then have ph: "PseudoHeaderChecksum TCPProtocolNumber ss ds 20 = Some (word_of_nat (fold16 n))"
    using PseudoHeaderChecksum_Some [of TCPProtocolNumber ss ds 20] by simp
  have u: "unat (word_of_nat (fold16 n) :: u16) = fold16 n" by (simp add: unat_of_nat_u16)
  obtain t' r where r: "TCP_Encode t f = Some t'" "length t' = 20"
    "(if \<not> off then do { c \<leftarrow> TCP_CalculateChecksum t' (word_of_nat (fold16 n)); TCP_SetChecksum t' (NOT c) } else Some t') = Some r"
    "segment_with off 20 [] n (ft_SrcPort f) (ft_DstPort f) r" "TCP_SequenceNumber r = Some (ft_SeqNum f)"
    "TCP_AckNumber r = Some (ft_AckNum f)" "TCP_Flags r = Some (ft_Flags f)"
    using reset_segment [OF e(2) f u, of off] by blast
  have "on_slice lo hi (\<lambda>t. TCP_Encode t f) (h @ t) = Some (h @ t')"
    using on_slice_tail [OF e(1), of hi t] e(2,3) r(1) by simp
  moreover have "(if \<not> off then do {
       ph \<leftarrow> PseudoHeaderChecksum TCPProtocolNumber ss ds 20;
       on_slice lo hi (\<lambda>t. do { c \<leftarrow> TCP_CalculateChecksum t ph; TCP_SetChecksum t (NOT c) }) (h @ t') }
     else Some (h @ t')) = Some (h @ r)"
    using on_slice_tail [OF e(1), of hi t'] r(2,3) e(3) ph by (auto split: if_splits Option.bind_splits)
  ultimately show ?thesis using r(2,4-7) by blast
qed

lemma reset4_right:
  assumes w: "world_ok w" and x: "IPv4_SourceAddr b = Some (Addr4 x)" "length x = 4"
    and y: "IPv4_DestinationAddr b = Some (Addr4 y)" "length y = 4" and t: "tcp_shape t"
  shows "returns (resetIPv4TCP w s b t) (wrote w (sy_frontHeadroom s) (\<lambda>p. good4 (sy_txChecksumOffload s) p \<and>
    IPv4_SourceAddr p = Some (Addr4 y) \<and> IPv4_DestinationAddr p = Some (Addr4 x) \<and>
    returns (IPv4_Payload p) (answers_with_reset t)))"
proof -
  let ?fh = "sy_frontHeadroom s + w_PacketOffset w" and ?off = "sy_txChecksumOffload s"
  define nb where "nb = w_fresh w (?fh + 20 + 20)"
  have nb: "length nb = ?fh + 40" using w by (simp add: world_ok_def nb_def)
  let ?b0 = "drop ?fh nb"
  let ?i = "\<lparr>f4_TOS = 0, f4_TotalLength = word_of_nat (length ?b0), f4_ID = 0, f4_Flags = 0, f4_FragmentOffset = 0,
    f4_TTL = 0, f4_Protocol = 6, f4_Checksum = 0, f4_SrcAddr = Addr4 y, f4_DstAddr = Addr4 x, f4_Options = []\<rparr>"
  obtain e where e: "IPv4_Encode ?b0 ?i = Some e" "valid4 e (length e)" "hlen4 e = 20" "tlen4 e = 40" "length e = 40"
      "take 4 (drop 12 e) = y" "take 4 (drop 16 e) = x"
    using encode_plain4 [of ?b0 ?i y x] nb x(2) y(2) by auto
  obtain f where f: "reset_fields t = Some f" "ft_DataOffset f = 20"
      "\<And>r. TCP_SourcePort r = Some (ft_SrcPort f) \<and> TCP_DestinationPort r = Some (ft_DstPort f) \<and>
      TCP_SequenceNumber r = Some (ft_SeqNum f) \<and> TCP_AckNumber r = Some (ft_AckNum f) \<and> TCP_Flags r = Some (ft_Flags f) \<Longrightarrow>
      answers_with_reset t r"
    using reset_fields_right [OF t] by blast
  define n where "n = 26 + addr_sum (src4 e) + addr_sum (dst4 e)"
  have sd: "src4 e = AddrFrom4 y" "dst4 e = AddrFrom4 x" using e by (simp_all add: src4_def dst4_def)
  have n: "n = 26 + sum16 y + sum16 x" using addr_sum_From(1) x(2) y(2) by (simp add: n_def sd)
  have d20: "length (drop 20 e) = 20" "length (take 20 e) = 20" using e(5) by simp_all
  obtain t' r where r: "on_slice 20 40 (\<lambda>t. TCP_Encode t f) e = Some (take 20 e @ t')" "length t' = 20"
    "(if \<not> ?off then do {
       ph \<leftarrow> PseudoHeaderChecksum TCPProtocolNumber y x 20;
       on_slice 20 40 (\<lambda>t. do { c \<leftarrow> TCP_CalculateChecksum t ph; TCP_SetChecksum t (NOT c) }) (take 20 e @ t') }
     else Some (take 20 e @ t')) = Some (take 20 e @ r)"
    "segment_with ?off 20 [] n (ft_SrcPort f) (ft_DstPort f) r" "TCP_SequenceNumber r = Some (ft_SeqNum f)"
    "TCP_AckNumber r = Some (ft_AckNum f)" "TCP_Flags r = Some (ft_Flags f)"
    using reset_in_place [OF d20(2,1) _ f(2) n, of 40 ?off] unfolding append_take_drop_id by auto
  obtain c p where p: "IPv4_CalculateChecksum (take 20 e @ r) = Some c" "IPv4_SetChecksum (take 20 e @ r) (NOT c) = Some p"
      "ip4.carries ?off 20 [] (AddrFrom4 y) (AddrFrom4 x) (ft_SrcPort f) (ft_DstPort f) 20 40 [] p" "ip4.seg p = r"
    using fill4 [OF e(2-5)] r(4) unfolding n_def sd by blast
  note g = carries_good4 [OF p(3) y(2) x(2)]
  have h: "w_PacketOffset w \<le> length (take ?fh nb)" "w_PacketOffset w = 0 \<Longrightarrow> length (take ?fh nb) = sy_frontHeadroom s"
    using nb by simp_all
  obtain pre where pre: "length pre = (if w_PacketOffset w = 0 then sy_frontHeadroom s else 4)"
      "send_packet w (sy_frontHeadroom s) (take ?fh nb) 4 p = Some (w_tunWrite w (pre @ p), [TunWrite (pre @ p)])"
    using send_packet_right [OF w h, of 4 p] by blast
  have addr: "IPv4_SourceAddressSlice (take 20 e @ t') = Some y" "IPv4_DestinationAddressSlice (take 20 e @ t') = Some x"
    using e(5-7) x(2) y(2) by (simp_all add: IPv4_SourceAddressSlice_def IPv4_DestinationAddressSlice_def go_simps drop_take)
  have sl: "slice nb ?fh (?fh + 20 + 20) = Some ?b0" using nb by (simp add: slice_in)
  have "resetIPv4TCP w s b t = Some (w_tunWrite w (pre @ p), [TunWrite (pre @ p)])"
    unfolding resetIPv4TCP_def Let_def nb_def [symmetric] sl x(1) y(1) bind.bind_lunit e(1)
      payload_window4_eq [OF e(2)] e(3,4) prod.case f(1) r(1) addr r(3) p(1,2) pre(2) by simp
  moreover have "answers_with_reset t r" using f(3) [of r] r(4-7) by (simp add: segment_with_def)
  moreover have "IPv4_SourceAddr p = Some (Addr4 y)" "IPv4_DestinationAddr p = Some (Addr4 x)"
    using g(2) by (auto simp: endpoints4_def split: Option.bind_splits)
  ultimately show ?thesis using wroteI [OF pre(1)] g(1,3) p(4) by simp
qed

lemma reset6_right:
  assumes w: "world_ok w" and x: "IPv6_SourceAddr b = Some (Addr16 x)" "length x = 16"
    and y: "IPv6_DestinationAddr b = Some (Addr16 y)" "length y = 16" and t: "tcp_shape t"
  shows "returns (resetIPv6TCP w s b t) (wrote w (sy_frontHeadroom s) (\<lambda>p. good6 (sy_txChecksumOffload s) p \<and>
    IPv6_SourceAddr p = Some (Addr16 y) \<and> IPv6_DestinationAddr p = Some (Addr16 x) \<and>
    returns (IPv6_Payload p) (answers_with_reset t)))"
proof -
  let ?fh = "sy_frontHeadroom s + w_PacketOffset w" and ?off = "sy_txChecksumOffload s"
  define nb where "nb = w_fresh w (?fh + 40 + 20)"
  have nb: "length nb = ?fh + 60" using w by (simp add: world_ok_def nb_def)
  let ?b0 = "drop ?fh nb"
  let ?i = "\<lparr>f6_TrafficClass = 0, f6_FlowLabel = 0, f6_PayloadLength = 20,
    f6_TransportProtocol = TCPProtocolNumber, f6_HopLimit = 0, f6_SrcAddr = Addr16 y, f6_DstAddr = Addr16 x,
    f6_ExtensionHeaders = []\<rparr>"
  obtain e where e: "IPv6_Encode ?b0 ?i = Some e" "valid6 e (length e)" "plen6 e = 20" "length e = 60"
      "take 16 (drop 8 e) = y" "take 16 (drop 24 e) = x"
    using encode_plain6 [of ?b0 ?i y x] nb x(2) y(2) by auto
  obtain f where f: "reset_fields t = Some f" "ft_DataOffset f = 20"
      "\<And>r. TCP_SourcePort r = Some (ft_SrcPort f) \<and> TCP_DestinationPort r = Some (ft_DstPort f) \<and>
      TCP_SequenceNumber r = Some (ft_SeqNum f) \<and> TCP_AckNumber r = Some (ft_AckNum f) \<and> TCP_Flags r = Some (ft_Flags f) \<Longrightarrow>
      answers_with_reset t r"
    using reset_fields_right [OF t] by blast
  define n where "n = 26 + addr_sum (src6 e) + addr_sum (dst6 e)"
  have sd: "src6 e = AddrFrom16 y" "dst6 e = AddrFrom16 x" using e by (simp_all add: src6_def dst6_def)
  have n: "n = 26 + sum16 y + sum16 x" using addr_sum_From(2) x(2) y(2) by (simp add: n_def sd)
  have d20: "length (drop 40 e) = 20" "length (take 40 e) = 40" using e(4) by simp_all
  obtain t' r where r: "on_slice 40 60 (\<lambda>t. TCP_Encode t f) e = Some (take 40 e @ t')" "length t' = 20"
    "(if \<not> ?off then do {
       ph \<leftarrow> PseudoHeaderChecksum TCPProtocolNumber y x 20;
       on_slice 40 60 (\<lambda>t. do { c \<leftarrow> TCP_CalculateChecksum t ph; TCP_SetChecksum t (NOT c) }) (take 40 e @ t') }
     else Some (take 40 e @ t')) = Some (take 40 e @ r)"
    "segment_with ?off 20 [] n (ft_SrcPort f) (ft_DstPort f) r" "TCP_SequenceNumber r = Some (ft_SeqNum f)"
    "TCP_AckNumber r = Some (ft_AckNum f)" "TCP_Flags r = Some (ft_Flags f)"
    using reset_in_place [OF d20(2,1) _ f(2) n, of 60 ?off] unfolding append_take_drop_id by auto
  define p where "p = take 40 e @ r"
  have p: "ip6.carries ?off 20 [] (AddrFrom16 y) (AddrFrom16 x) (ft_SrcPort f) (ft_DstPort f) 40 60 [] p" "ip6.seg p = r"
    using fill6 [OF e(2-4)] r(4) unfolding n_def sd p_def by blast+
  note g = carries_good6 [OF p(1) y(2) x(2)]
  have h: "w_PacketOffset w \<le> length (take ?fh nb)" "w_PacketOffset w = 0 \<Longrightarrow> length (take ?fh nb) = sy_frontHeadroom s"
    using nb by simp_all
  obtain pre where pre: "length pre = (if w_PacketOffset w = 0 then sy_frontHeadroom s else 4)"
      "send_packet w (sy_frontHeadroom s) (take ?fh nb) 6 p = Some (w_tunWrite w (pre @ p), [TunWrite (pre @ p)])"
    using send_packet_right [OF w h, of 6 p] by blast
  have addr: "IPv6_SourceAddressSlice (take 40 e @ t') = Some y" "IPv6_DestinationAddressSlice (take 40 e @ t') = Some x"
    using e(4-6) x(2) y(2) by (simp_all add: IPv6_SourceAddressSlice_def IPv6_DestinationAddressSlice_def go_simps drop_take)
  have win: "payload_window6 e = Some (40, 60)" using payload_window6_eq [OF e(2)] e(3) by simp
  have sl: "slice nb ?fh (?fh + 40 + 20) = Some ?b0" using nb by (simp add: slice_in)
  have "resetIPv6TCP w s b t = Some (w_tunWrite w (pre @ p), [TunWrite (pre @ p)])"
    unfolding resetIPv6TCP_def Let_def nb_def [symmetric] sl x(1) y(1) bind.bind_lunit e(1)
      win prod.case f(1) r(1) addr r(3) p_def [symmetric] pre(2) by simp
  moreover have "answers_with_reset t r" using f(3) [of r] r(4-7) by (simp add: segment_with_def)
  moreover have "IPv6_SourceAddr p = Some (Addr16 y)" "IPv6_DestinationAddr p = Some (Addr16 x)"
    using g(2) by (auto simp: endpoints6_def split: Option.bind_splits)
  ultimately show ?thesis using wroteI [OF pre(1)] g(1,3) p(2) by simp
qed

section \<open>A sample\<close>

text \<open>A concrete stack and world.\<close>

definition sample_world :: World where
  "sample_world = \<lparr>w_PacketOffset = 0, w_now = 0, w_now' = 0, w_fresh = \<lambda>n. replicate n 0, w_tunWrite = \<lambda>_. None,
     w_directNat = \<lambda>_. (False, None), w_actionWrite = \<lambda>_. None\<rparr>"

definition sample_system :: System where
  "sample_system = \<lparr>sy_mtu = 9000, sy_inet4Address = Addr4 [172, 18, 0, 1], sy_inet4NextAddress = Addr4 [172, 18, 0, 2],
     sy_inet6Address = Addr16 (fd00 17), sy_inet6NextAddress = Addr16 (fd00 18), sy_broadcastAddr = Addr4 [172, 18, 0, 3],
     sy_inet4LoopbackAddress = [], sy_inet6LoopbackAddress = [], sy_udpTimeout = 60, sy_tcpPort = 443, sy_tcpPort6 = 443,
     sy_tcpNat4 = Some (NewNat 60), sy_tcpNat6 = Some (NewNat 60), sy_enforceBind = False, sy_frontHeadroom = 10,
     sy_txChecksumOffload = False, sy_recvMsgX = False\<rparr>"

lemma sample_world_ok: "world_ok sample_world"
  by (simp add: world_ok_def sample_world_def)

lemma sample_unicast:
  "IsGlobalUnicast (Addr4 [10, 0, 0, 1])" "IsGlobalUnicast (Addr4 [10, 0, 0, 2])" "IsGlobalUnicast (Addr4 [172, 18, 0, 2])"
  "IsGlobalUnicast (Addr16 (fd00 1))" "IsGlobalUnicast (Addr16 (fd00 2))" "IsGlobalUnicast (Addr16 (fd00 18))"
  by code_simp+

end
