(* ===== verification/System_Translate.thy ===== *)
theory System_Translate
  imports System_TCP
begin

text \<open>
  The translation of TCP connections by the system stack, proved once for both families. The locale
  \<open>tcp_stack\<close> has what \<^verbatim>\<open>processIPv4TCP\<close> and \<^verbatim>\<open>processIPv6TCP\<close> rely on: the packet formats with the
  rewriting of \<open>System_Rewrite\<close>, the resets of \<open>System_TCP\<close>, and the table of \<open>TCP_Nat\<close>. Its lemmas give
  the invariant of the stack, and that what leaves through a port of the table comes back to its owner.
\<close>

fun is4 :: "Addr \<Rightarrow> bool" where
  "is4 (Addr4 x) = (length x = 4)"
| "is4 _ = False"

fun is6 :: "Addr \<Rightarrow> bool" where
  "is6 (Addr16 x) = (length x = 16)"
| "is6 _ = False"

text \<open>The endpoints as \<^verbatim>\<open>processIPv4TCP\<close> and \<^verbatim>\<open>processIPv6TCP\<close> read them, before anything is checked.\<close>

definition peek4 :: "IPv4 \<Rightarrow> nat \<Rightarrow> nat \<Rightarrow> (AddrPort \<times> AddrPort) option" where
  "peek4 b lo hi = do {
     t \<leftarrow> slice b lo hi; sa \<leftarrow> IPv4_SourceAddr b; sp \<leftarrow> TCP_SourcePort t;
     da \<leftarrow> IPv4_DestinationAddr b; dp \<leftarrow> TCP_DestinationPort t; Some ((sa, sp), (da, dp)) }"

definition peek6 :: "IPv6 \<Rightarrow> nat \<Rightarrow> nat \<Rightarrow> (AddrPort \<times> AddrPort) option" where
  "peek6 b lo hi = do {
     t \<leftarrow> slice b lo hi; sa \<leftarrow> IPv6_SourceAddr b; sp \<leftarrow> TCP_SourcePort t;
     da \<leftarrow> IPv6_DestinationAddr b; dp \<leftarrow> TCP_DestinationPort t; Some ((sa, sp), (da, dp)) }"

section \<open>The interface\<close>

locale tcp_stack =
  fixes fam :: "Addr \<Rightarrow> bool"
    and good :: "bool \<Rightarrow> bytes \<Rightarrow> bool"
    and ends :: "bytes \<Rightarrow> (AddrPort \<times> AddrPort) option"
    and payload :: "bytes \<Rightarrow> TCP option"
    and lo hi :: "bytes \<Rightarrow> nat"
    and peek :: "bytes \<Rightarrow> nat \<Rightarrow> nat \<Rightarrow> (AddrPort \<times> AddrPort) option"
    and rewrite :: "bytes \<Rightarrow> nat \<Rightarrow> nat \<Rightarrow> bool \<Rightarrow> Addr \<Rightarrow> u16 \<Rightarrow> bool \<Rightarrow> Addr \<Rightarrow> u16 \<Rightarrow> bool \<Rightarrow> bytes option"
    and reset :: "World \<Rightarrow> System \<Rightarrow> bytes \<Rightarrow> TCP \<Rightarrow> (system_error option \<times> effect list) option"
    and process :: "World \<Rightarrow> System \<Rightarrow> bytes \<Rightarrow> nat \<Rightarrow> nat \<Rightarrow> outcome option"
    and table :: "System \<Rightarrow> TCPNat option"
    and set_table :: "TCPNat \<Rightarrow> System \<Rightarrow> System"
    and listener :: "System \<Rightarrow> AddrPort"
    and nextAddr :: "System \<Rightarrow> Addr"
    and loopbacks :: "System \<Rightarrow> Addr list"
    and not_found :: "u16 \<Rightarrow> system_error"
  assumes rewrite_right: "good off b \<Longrightarrow> ends b = Some ((s, sp), (d, dp)) \<Longrightarrow> fam x \<Longrightarrow> fam y \<Longrightarrow>
      returns (rewrite b (lo b) (hi b) off x p ps y q qs) (\<lambda>b'. good off b' \<and>
        ends b' = Some ((x, if ps then p else sp), (y, if qs then q else dp)) \<and>
        (payload b' \<bind> TCP_Payload) = (payload b \<bind> TCP_Payload))"
    and reset_right: "world_ok w \<Longrightarrow> good (sy_txChecksumOffload z) b \<Longrightarrow> ends b = Some (src, dst) \<Longrightarrow>
      payload b = Some t \<Longrightarrow> returns (reset w z b t) (wrote w (sy_frontHeadroom z) (\<lambda>r.
        good (sy_txChecksumOffload z) r \<and> ends r = Some (dst, src) \<and> returns (payload r) (answers_with_reset t)))"
    and good_ends: "good off b \<Longrightarrow> \<exists>src dst t. ends b = Some (src, dst) \<and> peek b (lo b) (hi b) = Some (src, dst) \<and>
      payload b = Some t \<and> slice b (lo b) (hi b) = Some t"
    and peek_fam: "peek b l h = Some (src, dst) \<Longrightarrow> fam (fst src) \<and> fam (fst dst)"
    and process_eq: "process w z b l h = (case table z of
        None \<Rightarrow> Some (z, b, False, None, [])
      | Some n \<Rightarrow> do {
          (src, dst) \<leftarrow> peek b l h;
          if \<not> IsGlobalUnicast (fst dst) then Some (z, b, False, None, [])
          else if src = listener z then
            (case LookupBack (w_now w) (w_now' w) (snd dst) n of
               (n, None) \<Rightarrow> Some (set_table n z, b, False, Some (not_found (snd dst)), [])
             | (n, Some session) \<Rightarrow> do {
                 b \<leftarrow> rewrite b l h (sy_txChecksumOffload z) (fst (s_Destination session)) (snd (s_Destination session)) True
                   (fst (s_Source session)) (snd (s_Source session)) True;
                 Some (set_table n z, b, True, None, []) })
          else if fst dst \<in> set (loopbacks z) then do {
            b \<leftarrow> rewrite b l h (sy_txChecksumOffload z) (fst dst) 0 False (fst src) 0 False;
            Some (z, b, True, None, []) }
          else (case Lookup (w_now w) (w_now' w) src dst n of
              (n, None) \<Rightarrow> do {
                t \<leftarrow> slice b l h; (err, effs) \<leftarrow> reset w z b t; Some (set_table n z, b, False, err, effs) }
            | (n, Some p) \<Rightarrow> do {
                b \<leftarrow> rewrite b l h (sy_txChecksumOffload z) (nextAddr z) p True (fst (listener z)) (snd (listener z)) True;
                Some (set_table n z, b, True, None, []) }) })"
    and table_set: "table (set_table n z) = Some n"
    and set_keeps: "listener (set_table n z) = listener z" "nextAddr (set_table n z) = nextAddr z"
      "loopbacks (set_table n z) = loopbacks z" "sy_txChecksumOffload (set_table n z) = sy_txChecksumOffload z"
      "sy_frontHeadroom (set_table n z) = sy_frontHeadroom z"
begin

definition table_ok :: "TCPNat \<Rightarrow> bool" where
  "table_ok n \<longleftrightarrow> nat_inv n \<and> (\<forall>p src dst. owner n p = Some (src, dst) \<longrightarrow> fam (fst src) \<and> fam (fst dst))"

definition stack_inv :: "System \<Rightarrow> bool" where
  "stack_inv z \<longleftrightarrow> (\<forall>n. table z = Some n \<longrightarrow> table_ok n \<and> fam (fst (listener z)) \<and> fam (nextAddr z))"

definition owns :: "System \<Rightarrow> u16 \<Rightarrow> tcpNatKey \<Rightarrow> bool" where
  "owns z p k \<longleftrightarrow> (\<exists>n. table z = Some n \<and> owner n p = Some k)"

lemma table_ok_Lookup:
  assumes "table_ok n" and "Lookup t t' src dst n = (n', r)" and "fam (fst src)" "fam (fst dst)"
  shows "table_ok n'" and "owner n p = Some k \<Longrightarrow> owner n' p = Some k"
proof -
  have i: "nat_inv n" "nat_inv n'" using assms(1) Lookup_inv [of n t t' src dst] assms(2) by (simp_all add: table_ok_def)
  show "table_ok n'"
    using owner_Lookup [OF i(1), of t t' src dst n'] owner_Lookup_full [OF i(1), of t t' src dst n'] assms i
    by (cases r) (auto simp: table_ok_def)
  show "owner n p = Some k \<Longrightarrow> owner n' p = Some k"
    using Lookup_keeps [OF i(1), of p k t t' src dst] assms(2) by simp
qed

lemma table_ok_LookupBack:
  assumes "table_ok n" and "LookupBack t t' p n = (n', r)"
  shows "table_ok n'" and "owner n' = owner n" and "map_option session_key r = owner n p"
  using assms LookupBack_inv [of n t t' p] owner_LookupBack [of t t' p n] LookupBack_owner [of t t' p n]
  by (simp_all add: table_ok_def)

text \<open>Whatever comes in, the invariant and every entry of the table stay, and so does the configuration.\<close>

lemma process_keeps:
  assumes "process w z b l h = Some (z', b', wb, err, effs)" and "stack_inv z"
  shows "stack_inv z'" and "owns z p k \<Longrightarrow> owns z' p k" and "listener z' = listener z" and "nextAddr z' = nextAddr z"
    and "loopbacks z' = loopbacks z" and "sy_txChecksumOffload z' = sy_txChecksumOffload z" "sy_frontHeadroom z' = sy_frontHeadroom z"
proof -
  consider "z' = z" | n src dst where "table z = Some n" "peek b l h = Some (src, dst)"
      "z' = set_table (fst (LookupBack (w_now w) (w_now' w) (snd dst) n)) z \<or> z' = set_table (fst (Lookup (w_now w) (w_now' w) src dst n)) z"
    using assms(1) unfolding process_eq
    by (auto split: option.splits Option.bind_splits if_splits prod.splits)
  then have "stack_inv z' \<and> (owns z p k \<longrightarrow> owns z' p k) \<and> listener z' = listener z \<and> nextAddr z' = nextAddr z \<and>
    loopbacks z' = loopbacks z \<and> sy_txChecksumOffload z' = sy_txChecksumOffload z \<and> sy_frontHeadroom z' = sy_frontHeadroom z"
  proof cases
    case (2 n src dst)
    then have n: "table_ok n" using assms(2) by (simp add: stack_inv_def)
    note f = peek_fam [OF 2(2)]
    obtain m r m' r' where L: "LookupBack (w_now w) (w_now' w) (snd dst) n = (m, r)" "Lookup (w_now w) (w_now' w) src dst n = (m', r')"
      by fastforce
    show ?thesis
      using 2(1,3) assms(2) L table_ok_LookupBack(1,2) [OF n L(1)] table_ok_Lookup(1) [OF n L(2)]
        table_ok_Lookup(2) [OF n L(2), of p k] f
      by (auto simp: stack_inv_def owns_def table_set set_keeps)
  qed (use assms(2) in auto)
  then show "stack_inv z'" and "owns z p k \<Longrightarrow> owns z' p k" and "listener z' = listener z" and "nextAddr z' = nextAddr z"
    and "loopbacks z' = loopbacks z" and "sy_txChecksumOffload z' = sy_txChecksumOffload z" "sy_frontHeadroom z' = sy_frontHeadroom z"
    by blast+
qed

text \<open>A packet the receiver accepts, towards a port of the table or a new one.\<close>

definition well :: "bool \<Rightarrow> AddrPort \<Rightarrow> AddrPort \<Rightarrow> bytes option \<Rightarrow> bytes \<Rightarrow> bool" where
  "well off src dst d b \<longleftrightarrow> good off b \<and> ends b = Some (src, dst) \<and> (payload b \<bind> TCP_Payload) = d"

lemma well_peek:
  assumes "well off src dst d b"
  shows "peek b (lo b) (hi b) = Some (src, dst)" and "fam (fst src)" "fam (fst dst)"
    and "\<exists>t. payload b = Some t \<and> slice b (lo b) (hi b) = Some t"
  using assms good_ends [of off b] peek_fam [of b "lo b" "hi b" src dst] by (auto simp: well_def)

lemma well_rewrite:
  assumes "well off src dst d b" and "fam x" "fam y"
  shows "returns (rewrite b (lo b) (hi b) off x p ps y q qs)
    (well off (x, if ps then p else snd src) (y, if qs then q else snd dst) d)"
  using returns_mono [OF rewrite_right [of off b "fst src" "snd src" "fst dst" "snd dst" x y p ps q qs]] assms
  by (simp add: well_def)

lemma outbound:
  assumes w: "world_ok w" and z: "stack_inv z" "table z = Some n" and b: "well (sy_txChecksumOffload z) src dst d b"
    and d: "IsGlobalUnicast (fst dst)" "src \<noteq> listener z" "fst dst \<notin> set (loopbacks z)"
  shows "returns (process w z b (lo b) (hi b)) (\<lambda>(z', b', wb, err, effs).
    case Lookup (w_now w) (w_now' w) src dst n of
      (n', Some p) \<Rightarrow> z' = set_table n' z \<and> owns z' p (src, dst) \<and> wb \<and> err = None \<and> effs = [] \<and>
        well (sy_txChecksumOffload z) (nextAddr z, p) (listener z) d b'
    | (n', None) \<Rightarrow> z' = set_table n' z \<and> \<not> wb \<and> wrote w (sy_frontHeadroom z) (\<lambda>r.
        good (sy_txChecksumOffload z) r \<and> ends r = Some (dst, src) \<and>
        returns (payload b) (\<lambda>t. returns (payload r) (answers_with_reset t))) (err, effs))"
proof -
  note k = well_peek [OF b]
  have n: "table_ok n" "fam (nextAddr z)" "fam (fst (listener z))" using z by (simp_all add: stack_inv_def)
  obtain n' r where L: "Lookup (w_now w) (w_now' w) src dst n = (n', r)" by fastforce
  obtain t where t: "payload b = Some t" "slice b (lo b) (hi b) = Some t" using k(4) by blast
  show ?thesis
  proof (cases r)
    case None
    then show ?thesis
      using reset_right [OF w, of z b src dst t] b d z(2) L k(1) t
      by (auto simp: process_eq well_def elim!: returns_mono)
  next
    case (Some p)
    have "owner n' p = Some (src, dst)" using owner_Lookup [of n] n(1) L Some by (simp add: table_ok_def)
    then show ?thesis
      using well_rewrite [OF b n(2,3), of p True "snd (listener z)" True] d z(2) L k(1) Some
      by (auto simp: process_eq owns_def table_set elim!: returns_mono)
  qed
qed

lemma inbound:
  assumes z: "stack_inv z" "owns z p (src, dst)" and b: "well (sy_txChecksumOffload z) (listener z) (a, p) d b"
    and a: "IsGlobalUnicast a"
  shows "returns (process w z b (lo b) (hi b)) (\<lambda>(z', b', wb, err, effs).
    wb \<and> err = None \<and> effs = [] \<and> well (sy_txChecksumOffload z) dst src d b')"
proof -
  obtain n where n: "table z = Some n" "owner n p = Some (src, dst)" using z(2) by (auto simp: owns_def)
  have ok: "table_ok n" using z(1) n(1) by (simp add: stack_inv_def)
  then have f: "fam (fst src)" "fam (fst dst)" using n(2) unfolding table_ok_def by blast+
  obtain n' r where L: "LookupBack (w_now w) (w_now' w) p n = (n', r)" by fastforce
  then obtain x where x: "r = Some x" "session_key x = (src, dst)"
    using table_ok_LookupBack(3) [OF ok L] n(2) by auto
  show ?thesis
    using well_rewrite [OF b f(2,1), of "snd dst" True "snd src" True] well_peek(1) [OF b] n(1) L x a
    by (auto simp: process_eq session_key_def elim!: returns_mono)
qed

lemma loopback:
  assumes z: "table z = Some n" and b: "well (sy_txChecksumOffload z) src dst d b"
    and d: "IsGlobalUnicast (fst dst)" "src \<noteq> listener z" "fst dst \<in> set (loopbacks z)"
  shows "returns (process w z b (lo b) (hi b)) (\<lambda>(z', b', wb, err, effs).
    z' = z \<and> wb \<and> err = None \<and> effs = [] \<and> well (sy_txChecksumOffload z) (fst dst, snd src) (fst src, snd dst) d b')"
  using well_rewrite [OF b well_peek(3,2) [OF b], of 0 False 0 False] well_peek(1) [OF b] z d
  by (auto simp: process_eq elim!: returns_mono)

text \<open>No packet the receiver accepts makes the stack panic.\<close>

lemma process_returns:
  assumes w: "world_ok w" and z: "stack_inv z" and b: "well (sy_txChecksumOffload z) src dst d b"
  shows "\<exists>out. process w z b (lo b) (hi b) = Some out"
proof (cases "table z = None \<or> \<not> IsGlobalUnicast (fst dst)")
  case True
  then show ?thesis using well_peek(1) [OF b] by (auto simp: process_eq split: option.split)
next
  case False
  then obtain n where n: "table z = Some n" and d: "IsGlobalUnicast (fst dst)" by auto
  have ok: "table_ok n" using z n by (simp add: stack_inv_def)
  consider "src \<noteq> listener z" "fst dst \<in> set (loopbacks z)" | "src \<noteq> listener z" "fst dst \<notin> set (loopbacks z)"
    | "src = listener z" by blast
  then show ?thesis
  proof cases
    case 1 then show ?thesis using loopback [OF n b d, of w] by (auto simp: returns_iff)
  next
    case 2 then show ?thesis using outbound [OF w z n b d] by (auto simp: returns_iff)
  next
    case 3
    obtain n' r where L: "LookupBack (w_now w) (w_now' w) (snd dst) n = (n', r)" by fastforce
    show ?thesis
    proof (cases r)
      case None
      then show ?thesis using 3 L n d well_peek(1) [OF b] by (auto simp: process_eq)
    next
      case (Some x)
      then have "owns z (snd dst) (session_key x)" using table_ok_LookupBack(3) [OF ok L] n by (auto simp: owns_def)
      then show ?thesis
        using inbound [OF z, of "snd dst" "s_Source x" "s_Destination x" "fst dst" d b w] b d 3
        by (auto simp: returns_iff session_key_def)
    qed
  qed
qed

end

section \<open>The two families\<close>

lemma case_find: "(case find (\<lambda>a. x = a) xs of None \<Rightarrow> g | Some a \<Rightarrow> f a) = (if x \<in> set xs then f x else g)"
  by (induction xs) auto

lemma family4:
  shows "IPv4_SourceAddr b = Some a \<Longrightarrow> is4 a" and "IPv4_DestinationAddr b = Some a \<Longrightarrow> is4 a"
  by (auto simp: IPv4_SourceAddr_def IPv4_DestinationAddr_def slice_def split: if_splits)

lemma family6:
  shows "IPv6_SourceAddr b = Some a \<Longrightarrow> is6 a" and "IPv6_DestinationAddr b = Some a \<Longrightarrow> is6 a"
  by (auto simp: IPv6_SourceAddr_def IPv6_DestinationAddr_def slice_def split: if_splits)

lemma is4D: "is4 a \<Longrightarrow> \<exists>x. a = Addr4 x \<and> length x = 4" and is6D: "is6 a \<Longrightarrow> \<exists>x. a = Addr16 x \<and> length x = 16"
  by (cases a; simp)+

lemma good4_reads:
  assumes "good4 off b"
  shows "\<exists>src dst t. endpoints4 b = Some (src, dst) \<and> peek4 b (hlen4 b) (tlen4 b) = Some (src, dst) \<and>
    IPv4_Payload b = Some t \<and> slice b (hlen4 b) (tlen4 b) = Some t"
proof -
  have v: "valid4 b (length b)" using assms by (simp add: good4_def IPv4_IsValid_eq)
  note b = valid4D [OF v]
  have p: "IPv4_Payload b = Some (ip4.seg b)" "slice b (hlen4 b) (tlen4 b) = Some (ip4.seg b)"
    using IPv4_Payload_eq [OF v order_refl] b by (simp_all add: ip4.seg_def slice_in)
  have "tcp_shape (ip4.seg b)" using assms p(1) by (auto simp: good4_def returns_iff split: Option.bind_splits)
  then obtain sp dp where "TCP_SourcePort (ip4.seg b) = Some sp" "TCP_DestinationPort (ip4.seg b) = Some dp"
    using tcp_shape_ports by blast
  then show ?thesis
    using b p by (simp add: endpoints4_def peek4_def IPv4_SourceAddr_def IPv4_DestinationAddr_def go_simps)
qed

lemma good6_reads:
  assumes "good6 off b"
  shows "\<exists>src dst t. endpoints6 b = Some (src, dst) \<and> peek6 b 40 (end6 b) = Some (src, dst) \<and>
    IPv6_Payload b = Some t \<and> slice b 40 (end6 b) = Some t"
proof -
  have v: "valid6 b (length b)" using assms by (simp add: good6_def IPv6_IsValid_eq)
  note b = valid6D [OF v]
  have p: "IPv6_Payload b = Some (ip6.seg b)" "slice b 40 (end6 b) = Some (ip6.seg b)"
    using IPv6_Payload_eq [OF v order_refl] b by (simp_all add: ip6.seg_def slice_in)
  have "tcp_shape (ip6.seg b)" using assms p(1) by (auto simp: good6_def returns_iff split: Option.bind_splits)
  then obtain sp dp where "TCP_SourcePort (ip6.seg b) = Some sp" "TCP_DestinationPort (ip6.seg b) = Some dp"
    using tcp_shape_ports by blast
  then show ?thesis
    using b p by (simp add: endpoints6_def peek6_def IPv6_SourceAddr_def IPv6_DestinationAddr_def go_simps)
qed

abbreviation listener4 :: "System \<Rightarrow> AddrPort" where "listener4 z \<equiv> (sy_inet4Address z, sy_tcpPort z)"
abbreviation listener6 :: "System \<Rightarrow> AddrPort" where "listener6 z \<equiv> (sy_inet6Address z, sy_tcpPort6 z)"

lemma translate4:
  assumes "good4 off b" "endpoints4 b = Some ((s, sp), (d, dp))" "is4 x" "is4 y"
  shows "returns (rewriteIPv4TCP b (hlen4 b) (tlen4 b) off x p ps y q qs) (\<lambda>b'. good4 off b' \<and>
    endpoints4 b' = Some ((x, if ps then p else sp), (y, if qs then q else dp)) \<and>
    (IPv4_Payload b' \<bind> TCP_Payload) = (IPv4_Payload b \<bind> TCP_Payload))"
proof -
  obtain u v where u: "x = Addr4 u" "length u = 4" and v: "y = Addr4 v" "length v = 4"
    using is4D [OF assms(3)] is4D [OF assms(4)] by blast
  show ?thesis unfolding u(1) v(1) by (rule returns_mono [OF rewrite4 [OF assms(1,2) u(2) v(2)]]) blast
qed

lemma answer4:
  assumes w: "world_ok w" and g: "good4 (sy_txChecksumOffload z) b" "endpoints4 b = Some (src, dst)" "IPv4_Payload b = Some t"
  shows "returns (resetIPv4TCP w z b t) (wrote w (sy_frontHeadroom z) (\<lambda>r.
    good4 (sy_txChecksumOffload z) r \<and> endpoints4 r = Some (dst, src) \<and> returns (IPv4_Payload r) (answers_with_reset t)))"
proof -
  have a: "IPv4_SourceAddr b = Some (fst src)" "IPv4_DestinationAddr b = Some (fst dst)"
    "TCP_SourcePort t = Some (snd src)" "TCP_DestinationPort t = Some (snd dst)"
    using g(2,3) by (auto simp: endpoints4_def split: Option.bind_splits)
  obtain x y where x: "fst src = Addr4 x" "length x = 4" and y: "fst dst = Addr4 y" "length y = 4"
    using is4D [OF family4(1) [OF a(1)]] is4D [OF family4(2) [OF a(2)]] by blast
  have t: "tcp_shape t" using g(1,3) by (auto simp: good4_def returns_iff split: Option.bind_splits)
  have "endpoints4 r = Some (dst, src)"
    if "IPv4_SourceAddr r = Some (Addr4 y)" "IPv4_DestinationAddr r = Some (Addr4 x)" "returns (IPv4_Payload r) (answers_with_reset t)" for r
    using that a x y by (auto simp: endpoints4_def returns_iff answers_with_reset_def prod_eq_iff)
  then show ?thesis
    using returns_mono [OF reset4_right [OF w, of b x y t z] wrote_mono] a x y t by simp
qed

interpretation st4: tcp_stack is4 good4 endpoints4 IPv4_Payload hlen4 tlen4 peek4 rewriteIPv4TCP resetIPv4TCP
  processIPv4TCP sy_tcpNat4 "\<lambda>n. sy_tcpNat4_update (\<lambda>_. Some n)" listener4 sy_inet4NextAddress
  sy_inet4LoopbackAddress SessionNotFound4
proof unfold_locales
  fix b src dst l h w z
  show "is4 (fst src) \<and> is4 (fst dst)" if "peek4 b l h = Some (src, dst)"
    using that family4 [of b] by (auto simp: peek4_def split: Option.bind_splits)
  show "processIPv4TCP w z b l h = (case sy_tcpNat4 z of
        None \<Rightarrow> Some (z, b, False, None, [])
      | Some n \<Rightarrow> do {
          (src, dst) \<leftarrow> peek4 b l h;
          if \<not> IsGlobalUnicast (fst dst) then Some (z, b, False, None, [])
          else if src = listener4 z then
            (case LookupBack (w_now w) (w_now' w) (snd dst) n of
               (n, None) \<Rightarrow> Some (z\<lparr>sy_tcpNat4 := Some n\<rparr>, b, False, Some (SessionNotFound4 (snd dst)), [])
             | (n, Some session) \<Rightarrow> do {
                 b \<leftarrow> rewriteIPv4TCP b l h (sy_txChecksumOffload z) (fst (s_Destination session)) (snd (s_Destination session)) True
                   (fst (s_Source session)) (snd (s_Source session)) True;
                 Some (z\<lparr>sy_tcpNat4 := Some n\<rparr>, b, True, None, []) })
          else if fst dst \<in> set (sy_inet4LoopbackAddress z) then do {
            b \<leftarrow> rewriteIPv4TCP b l h (sy_txChecksumOffload z) (fst dst) 0 False (fst src) 0 False;
            Some (z, b, True, None, []) }
          else (case Lookup (w_now w) (w_now' w) src dst n of
              (n, None) \<Rightarrow> do {
                t \<leftarrow> slice b l h; (err, effs) \<leftarrow> resetIPv4TCP w z b t; Some (z\<lparr>sy_tcpNat4 := Some n\<rparr>, b, False, err, effs) }
            | (n, Some p) \<Rightarrow> do {
                b \<leftarrow> rewriteIPv4TCP b l h (sy_txChecksumOffload z) (sy_inet4NextAddress z) p True (fst (listener4 z)) (snd (listener4 z)) True;
                Some (z\<lparr>sy_tcpNat4 := Some n\<rparr>, b, True, None, []) }) })"
    by (cases "sy_tcpNat4 z"; cases "slice b l h") 
      (auto simp: processIPv4TCP_def peek4_def case_find intro!: Option.bind_cong split: prod.split option.split)
qed (use translate4 answer4 good4_reads in simp_all)

lemma translate6:
  assumes "good6 off b" "endpoints6 b = Some ((s, sp), (d, dp))" "is6 x" "is6 y"
  shows "returns (rewriteIPv6TCP b (40) (end6 b) off x p ps y q qs) (\<lambda>b'. good6 off b' \<and>
    endpoints6 b' = Some ((x, if ps then p else sp), (y, if qs then q else dp)) \<and>
    (IPv6_Payload b' \<bind> TCP_Payload) = (IPv6_Payload b \<bind> TCP_Payload))"
proof -
  obtain u v where u: "x = Addr16 u" "length u = 16" and v: "y = Addr16 v" "length v = 16"
    using is6D [OF assms(3)] is6D [OF assms(4)] by blast
  show ?thesis unfolding u(1) v(1) by (rule returns_mono [OF rewrite6 [OF assms(1,2) u(2) v(2)]]) blast
qed

lemma answer6:
  assumes w: "world_ok w" and g: "good6 (sy_txChecksumOffload z) b" "endpoints6 b = Some (src, dst)" "IPv6_Payload b = Some t"
  shows "returns (resetIPv6TCP w z b t) (wrote w (sy_frontHeadroom z) (\<lambda>r.
    good6 (sy_txChecksumOffload z) r \<and> endpoints6 r = Some (dst, src) \<and> returns (IPv6_Payload r) (answers_with_reset t)))"
proof -
  have a: "IPv6_SourceAddr b = Some (fst src)" "IPv6_DestinationAddr b = Some (fst dst)"
    "TCP_SourcePort t = Some (snd src)" "TCP_DestinationPort t = Some (snd dst)"
    using g(2,3) by (auto simp: endpoints6_def split: Option.bind_splits)
  obtain x y where x: "fst src = Addr16 x" "length x = 16" and y: "fst dst = Addr16 y" "length y = 16"
    using is6D [OF family6(1) [OF a(1)]] is6D [OF family6(2) [OF a(2)]] by blast
  have t: "tcp_shape t" using g(1,3) by (auto simp: good6_def returns_iff split: Option.bind_splits)
  have "endpoints6 r = Some (dst, src)"
    if "IPv6_SourceAddr r = Some (Addr16 y)" "IPv6_DestinationAddr r = Some (Addr16 x)" "returns (IPv6_Payload r) (answers_with_reset t)" for r
    using that a x y by (auto simp: endpoints6_def returns_iff answers_with_reset_def prod_eq_iff)
  then show ?thesis
    using returns_mono [OF reset6_right [OF w, of b x y t z] wrote_mono] a x y t by simp
qed

interpretation st6: tcp_stack is6 good6 endpoints6 IPv6_Payload "\<lambda>_. 40" end6 peek6 rewriteIPv6TCP resetIPv6TCP
  processIPv6TCP sy_tcpNat6 "\<lambda>n. sy_tcpNat6_update (\<lambda>_. Some n)" listener6 sy_inet6NextAddress
  sy_inet6LoopbackAddress SessionNotFound6
proof unfold_locales
  fix b src dst l h w z
  show "is6 (fst src) \<and> is6 (fst dst)" if "peek6 b l h = Some (src, dst)"
    using that family6 [of b] by (auto simp: peek6_def split: Option.bind_splits)
  show "processIPv6TCP w z b l h = (case sy_tcpNat6 z of
        None \<Rightarrow> Some (z, b, False, None, [])
      | Some n \<Rightarrow> do {
          (src, dst) \<leftarrow> peek6 b l h;
          if \<not> IsGlobalUnicast (fst dst) then Some (z, b, False, None, [])
          else if src = listener6 z then
            (case LookupBack (w_now w) (w_now' w) (snd dst) n of
               (n, None) \<Rightarrow> Some (z\<lparr>sy_tcpNat6 := Some n\<rparr>, b, False, Some (SessionNotFound6 (snd dst)), [])
             | (n, Some session) \<Rightarrow> do {
                 b \<leftarrow> rewriteIPv6TCP b l h (sy_txChecksumOffload z) (fst (s_Destination session)) (snd (s_Destination session)) True
                   (fst (s_Source session)) (snd (s_Source session)) True;
                 Some (z\<lparr>sy_tcpNat6 := Some n\<rparr>, b, True, None, []) })
          else if fst dst \<in> set (sy_inet6LoopbackAddress z) then do {
            b \<leftarrow> rewriteIPv6TCP b l h (sy_txChecksumOffload z) (fst dst) 0 False (fst src) 0 False;
            Some (z, b, True, None, []) }
          else (case Lookup (w_now w) (w_now' w) src dst n of
              (n, None) \<Rightarrow> do {
                t \<leftarrow> slice b l h; (err, effs) \<leftarrow> resetIPv6TCP w z b t; Some (z\<lparr>sy_tcpNat6 := Some n\<rparr>, b, False, err, effs) }
            | (n, Some p) \<Rightarrow> do {
                b \<leftarrow> rewriteIPv6TCP b l h (sy_txChecksumOffload z) (sy_inet6NextAddress z) p True (fst (listener6 z)) (snd (listener6 z)) True;
                Some (z\<lparr>sy_tcpNat6 := Some n\<rparr>, b, True, None, []) }) })"
    by (cases "sy_tcpNat6 z"; cases "slice b l h") 
      (auto simp: processIPv6TCP_def peek6_def case_find intro!: Option.bind_cong split: prod.split option.split)
qed (use translate6 answer6 good6_reads in simp_all)

end
