(* ===== verification/System_UDP.thy ===== *)
theory System_UDP
  imports System_TCP Header_UDP
begin

text \<open>
  The UDP half of the system stack (\<^verbatim>\<open>stack_system.go\<close>): \<^verbatim>\<open>processIPv4UDP\<close> and \<^verbatim>\<open>processIPv6UDP\<close> give a
  datagram to the handler together with a packet writer that holds a copy of its headers, and the
  writers turn an answer into a packet for the device. The lemmas show that an answer reaches the
  sender of the datagram it answers, for every content that fits into a packet.

  The handler calls the constructor of the writer while it handles the packet, so the writer of the
  effect \<open>NewPacket\<close> is computed from the packet as it is then.
\<close>

type_synonym udp_outcome = "(system_error option \<times> effect list) option"

definition processIPv4UDP :: "World \<Rightarrow> System \<Rightarrow> IPv4 \<Rightarrow> nat \<Rightarrow> nat \<Rightarrow> udp_outcome" where
  "processIPv4UDP w s ipHdr lo hi = do {
     flags \<leftarrow> IPv4_Flags ipHdr;
     if flags AND 1 \<noteq> 0 then Some (Some FragmentDropped, [])
     else do {
       fo \<leftarrow> IPv4_FragmentOffset ipHdr;
       if fo \<noteq> 0 then Some (Some UDPFragmentDropped, [])
       else do {
         udpHdr \<leftarrow> slice ipHdr lo hi;
         sa \<leftarrow> IPv4_SourceAddr ipHdr;
         sp \<leftarrow> UDP_SourcePort udpHdr;
         da \<leftarrow> IPv4_DestinationAddr ipHdr;
         dp \<leftarrow> UDP_DestinationPort udpHdr;
         if \<not> IsGlobalUnicast da then Some (None, [])
         else do {
           data \<leftarrow> UDP_Payload udpHdr;
           if length data = 0 then Some (None, [])
           else do {
             hl \<leftarrow> IPv4_HeaderLength ipHdr;
             headerCopy \<leftarrow> slice ipHdr 0 (unat (hl + 8));
             Some (None, [NewPacket (sa, sp) data (da, dp)
               \<lparr>uw_frontHeadroom = sy_frontHeadroom s + w_PacketOffset w, uw_header = headerCopy,
                uw_source = (sa, sp), uw_txChecksumOffload = sy_txChecksumOffload s\<rparr>]) } } } } }"

definition processIPv6UDP :: "World \<Rightarrow> System \<Rightarrow> IPv6 \<Rightarrow> nat \<Rightarrow> nat \<Rightarrow> udp_outcome" where
  "processIPv6UDP w s ipHdr lo hi = do {
     udpHdr \<leftarrow> slice ipHdr lo hi;
     sa \<leftarrow> IPv6_SourceAddr ipHdr;
     sp \<leftarrow> UDP_SourcePort udpHdr;
     da \<leftarrow> IPv6_DestinationAddr ipHdr;
     dp \<leftarrow> UDP_DestinationPort udpHdr;
     if \<not> IsGlobalUnicast da then Some (None, [])
     else do {
       data \<leftarrow> UDP_Payload udpHdr;
       if length data = 0 then Some (None, [])
       else do {
         pl \<leftarrow> IPv6_PayloadLength ipHdr;
         headerCopy \<leftarrow> slice ipHdr 0 (length ipHdr - unat pl + 8);
         Some (None, [NewPacket (sa, sp) data (da, dp)
           \<lparr>uw_frontHeadroom = sy_frontHeadroom s + w_PacketOffset w, uw_header = headerCopy,
            uw_source = (sa, sp), uw_txChecksumOffload = sy_txChecksumOffload s\<rparr>]) } } }"

section \<open>The packet writers\<close>

text \<open>Lines 898 to 900 and 937 to 939, then 902 to 904 and 941 to 943: the UDP header in place.\<close>

definition udp_readdress :: "u16 \<Rightarrow> u16 \<Rightarrow> UDP \<Rightarrow> UDP option" where
  "udp_readdress port len udpHdr = do {
     sp \<leftarrow> UDP_SourcePort udpHdr;
     udpHdr \<leftarrow> UDP_SetDestinationPort udpHdr sp;
     udpHdr \<leftarrow> UDP_SetSourcePort udpHdr port;
     UDP_SetLength udpHdr len }"

definition udp_seal :: "bytes \<Rightarrow> bytes \<Rightarrow> u16 \<Rightarrow> UDP \<Rightarrow> UDP option" where
  "udp_seal src dst len udpHdr = do {
     ph \<leftarrow> PseudoHeaderChecksum UDPProtocolNumber src dst len;
     c \<leftarrow> UDP_CalculateChecksum udpHdr ph;
     p \<leftarrow> UDP_Payload udpHdr;
     x \<leftarrow> Checksum p c;
     UDP_SetChecksum udpHdr (NormalizeUDPChecksum (NOT x)) }"

definition systemUDPPacketWriter4_WritePacket :: "World \<Rightarrow> systemUDPPacketWriter \<Rightarrow> bytes \<Rightarrow> AddrPort \<Rightarrow> udp_outcome" where
  "systemUDPPacketWriter4_WritePacket w pw buffer destination = do {
     let newPacket = w_fresh w (uw_frontHeadroom pw + length (uw_header pw) + length buffer);
     let h = take (uw_frontHeadroom pw) newPacket;
     let ipHdr = uw_header pw @ buffer;
     ipHdr \<leftarrow> IPv4_SetTotalLength ipHdr (word_of_nat (length ipHdr));
     a \<leftarrow> IPv4_SourceAddress ipHdr;
     ipHdr \<leftarrow> IPv4_SetDestinationAddress ipHdr a;
     ipHdr \<leftarrow> IPv4_SetSourceAddr ipHdr (fst destination);
     (lo, hi) \<leftarrow> payload_window4 ipHdr;
     ipHdr \<leftarrow> on_slice lo hi (udp_readdress (snd destination) (word_of_nat (length buffer + 8))) ipHdr;
     ipHdr \<leftarrow> (if \<not> uw_txChecksumOffload pw then do {
         ss \<leftarrow> IPv4_SourceAddressSlice ipHdr;
         ds \<leftarrow> IPv4_DestinationAddressSlice ipHdr;
         pl \<leftarrow> IPv4_PayloadLength ipHdr;
         on_slice lo hi (udp_seal ss ds pl) ipHdr }
       else on_slice lo hi (\<lambda>u. UDP_SetChecksum u 0) ipHdr);
     c \<leftarrow> IPv4_CalculateChecksum ipHdr;
     ipHdr \<leftarrow> IPv4_SetChecksum ipHdr (NOT c);
     send_packet w (uw_frontHeadroom pw) h 4 ipHdr }"

definition systemUDPPacketWriter6_WritePacket :: "World \<Rightarrow> systemUDPPacketWriter \<Rightarrow> bytes \<Rightarrow> AddrPort \<Rightarrow> udp_outcome" where
  "systemUDPPacketWriter6_WritePacket w pw buffer destination = do {
     let newPacket = w_fresh w (uw_frontHeadroom pw + length (uw_header pw) + length buffer);
     let h = take (uw_frontHeadroom pw) newPacket;
     let ipHdr = uw_header pw @ buffer;
     let udpLen = word_of_nat (8 + length buffer);
     ipHdr \<leftarrow> IPv6_SetPayloadLength ipHdr udpLen;
     a \<leftarrow> IPv6_SourceAddress ipHdr;
     ipHdr \<leftarrow> IPv6_SetDestinationAddress ipHdr a;
     ipHdr \<leftarrow> IPv6_SetSourceAddr ipHdr (fst destination);
     (lo, hi) \<leftarrow> payload_window6 ipHdr;
     ipHdr \<leftarrow> on_slice lo hi (udp_readdress (snd destination) udpLen) ipHdr;
     ipHdr \<leftarrow> (if \<not> uw_txChecksumOffload pw then do {
         ss \<leftarrow> IPv6_SourceAddressSlice ipHdr;
         ds \<leftarrow> IPv6_DestinationAddressSlice ipHdr;
         pl \<leftarrow> IPv6_PayloadLength ipHdr;
         on_slice lo hi (udp_seal ss ds pl) ipHdr }
       else on_slice lo hi (\<lambda>u. UDP_SetChecksum u 0) ipHdr);
     send_packet w (uw_frontHeadroom pw) h 6 ipHdr }"

section \<open>Datagrams\<close>

text \<open>
  A datagram a receiver accepts: the length field is right and the checksum is present and verifies,
  or is zero when the device is to compute it.
\<close>

definition datagram :: "bool \<Rightarrow> nat \<Rightarrow> u16 \<Rightarrow> u16 \<Rightarrow> bytes \<Rightarrow> UDP \<Rightarrow> bool" where
  "datagram off n sp dp d u \<longleftrightarrow> UDP_Payload u = Some d \<and> UDP_Length u = Some (word_of_nat (length u)) \<and>
     UDP_SourcePort u = Some sp \<and> UDP_DestinationPort u = Some dp \<and>
     (if off then UDP_Checksum u = Some 0 else UDP_Checksum u \<noteq> Some 0 \<and> verifies n u)"

lemma udp_readdress_right:
  assumes "8 \<le> length u" and "UDP_SourcePort u = Some sp"
  shows "\<exists>u'. udp_readdress p l u = Some u' \<and> length u' = length u \<and> drop 8 u' = drop 8 u \<and>
    UDP_SourcePort u' = Some p \<and> UDP_DestinationPort u' = Some sp \<and> UDP_Length u' = Some l"
proof -
  have "u \<noteq> []" using assms(1) by auto
  then show ?thesis using assms by (simp add: udp_readdress_def udp_fields go_simps)
qed

lemma udp_seal_right:
  assumes u: "8 \<le> length u" and n: "n = sum16 src + sum16 dst + unat l + 17"
  shows "\<exists>u'. udp_seal src dst l u = Some u' \<and> length u' = length u \<and> drop 8 u' = drop 8 u \<and>
    take 6 u' = take 6 u \<and> UDP_Checksum u' \<noteq> Some 0 \<and> verifies n u'"
proof -
  obtain ph where ph: "PseudoHeaderChecksum UDPProtocolNumber src dst l = Some ph" "unat ph = fold16 n"
    using PseudoHeaderChecksum_Some [of UDPProtocolNumber src dst l] n by (simp add: unat_of_nat_u16)
  define x where "x = rfc1071 (drop 8 u) (rfc1071 (take 6 u) ph)"
  let ?v = "NormalizeUDPChecksum (NOT x)"
  have seal: "udp_seal src dst l u = Some (u[6 := hi8 ?v, 7 := lo8 ?v])"
    using u ph(1) by (simp add: udp_seal_def UDP_CalculateChecksum_eq udp_fields go_simps x_def)
  have "unat x = fold16 (n + sum16 (take 6 u) + sum16 (drop 8 u))"
    using ph(2) by (simp add: x_def rfc1071_def unat_of_nat_u16 add.assoc)
  then have "cong16 (unat x) (n + sum16 (take 6 u) + sum16 (drop (6 + 2) u))" using cong16_fold16 by simp
  then have "verifies n (u[6 := hi8 (NOT x), 6 + 1 := lo8 (NOT x)])"
    using u by (intro fresh_xsum) simp_all
  moreover have "cong16 (n + sum16 (u[6 := hi8 ?v, 6 + 1 := lo8 ?v])) (n + sum16 (u[6 := hi8 (NOT x), 6 + 1 := lo8 (NOT x)]))"
  proof -
    have "n + sum16 (u[6 := hi8 v, 6 + 1 := lo8 v]) + unat (be16 (u ! 6) (u ! 7)) = n + sum16 u + unat v" for v
      using sum16_put16 [of 6 u v] u by simp
    then show ?thesis
      using NormalizeUDPChecksum(2) [of "NOT x"] by (metis cong16_add cong16_cancel cong16_refl)
  qed
  ultimately have "verifies n (u[6 := hi8 ?v, 7 := lo8 ?v])" using verifies_cong by simp
  then show ?thesis
    using seal u NormalizeUDPChecksum(1) [of "NOT x"] by (simp add: udp_fields go_simps)
qed

lemma udp_fields_cong:
  assumes "take 6 u = take 6 v" and "length u = length v"
  shows "UDP_SourcePort u = UDP_SourcePort v" "UDP_DestinationPort u = UDP_DestinationPort v" "UDP_Length u = UDP_Length v"
proof -
  have "u ! i = v ! i" if "i < 6" for i using assms(1) that by (metis nth_take)
  then show "UDP_SourcePort u = UDP_SourcePort v" "UDP_DestinationPort u = UDP_DestinationPort v" "UDP_Length u = UDP_Length v"
    using assms(2) by (simp_all add: udp_fields BE_Uint16_def)
qed

text \<open>Both steps, in the packet that carries the datagram behind a header \<open>h\<close>.\<close>

lemma udp_in_place:
  assumes h: "length h = lo" "hi = lo + length u" and u: "8 \<le> length u" "length u < 65536" "UDP_SourcePort u = Some sp"
    and l: "l = word_of_nat (length u)" and n: "n = sum16 ss + sum16 ds + length u + 17"
  shows "\<exists>u' v. on_slice lo hi (udp_readdress p l) (h @ u) = Some (h @ u') \<and> length u' = length u \<and>
    (if \<not> off then on_slice lo hi (udp_seal ss ds l) (h @ u') else on_slice lo hi (\<lambda>u. UDP_SetChecksum u 0) (h @ u')) = Some (h @ v) \<and>
    length v = length u \<and> datagram off n p sp (drop 8 u) v"
proof -
  obtain u' where u': "udp_readdress p l u = Some u'" "length u' = length u" "drop 8 u' = drop 8 u"
      "UDP_SourcePort u' = Some p" "UDP_DestinationPort u' = Some sp" "UDP_Length u' = Some l"
    using udp_readdress_right [OF u(1,3)] by blast
  have l': "8 \<le> length u'" "n = sum16 ss + sum16 ds + unat l + 17" using u'(2) u(1,2) l n by (simp_all add: unat_of_nat_u16)
  obtain v1 where v1: "udp_seal ss ds l u' = Some v1" "length v1 = length u'" "drop 8 v1 = drop 8 u'" "take 6 v1 = take 6 u'"
      "UDP_Checksum v1 \<noteq> Some 0" "verifies n v1"
    using udp_seal_right [OF l'] by blast
  let ?v0 = "u'[6 := 0, 7 := 0]"
  define v where "v = (if off then ?v0 else v1)"
  have v0: "UDP_SetChecksum u' 0 = Some ?v0" "UDP_Checksum ?v0 = Some 0" "take 6 ?v0 = take 6 u'" "drop 8 ?v0 = drop 8 u'"
    using l'(1) by (simp_all add: udp_fields go_simps hi8_def lo8_def be16_def)
  then have v: "(if \<not> off then udp_seal ss ds l u' else UDP_SetChecksum u' 0) = Some v" "length v = length u'"
      "drop 8 v = drop 8 u" "take 6 v = take 6 u'" "if off then UDP_Checksum v = Some 0 else UDP_Checksum v \<noteq> Some 0 \<and> verifies n v"
    using v1 u'(3) by (simp_all add: v_def)
  have "datagram off n p sp (drop 8 u) v"
    unfolding datagram_def using v udp_fields_cong [OF v(4,2)] u' l u(1) by (simp add: UDP_Payload_def go_simps)
  moreover have "on_slice lo hi (udp_readdress p l) (h @ u) = Some (h @ u')"
    using on_slice_tail [OF h] u'(1) by simp
  moreover have "(if \<not> off then on_slice lo hi (udp_seal ss ds l) (h @ u') else on_slice lo hi (\<lambda>u. UDP_SetChecksum u 0) (h @ u')) = Some (h @ v)"
    using on_slice_tail [OF h(1), of hi u'] h(2) u'(2) v(1) by (simp split: if_splits)
  ultimately show ?thesis using u'(2) v(2) by auto
qed

section \<open>The network headers of an answer\<close>

lemma readdress4:
  assumes b: "20 \<le> length b" "length b < 65536" "20 \<le> hlen4 b" "hlen4 b \<le> length b" "unat (b ! 0) div 16 = 4"
    and x: "length x = 4"
  shows "\<exists>b1 b2 e. IPv4_SetTotalLength b (word_of_nat (length b)) = Some b1 \<and>
    (IPv4_SourceAddress b1 \<bind> IPv4_SetDestinationAddress b1) = Some b2 \<and> IPv4_SetSourceAddr b2 (Addr4 x) = Some e \<and>
    valid4 e (length e) \<and> hlen4 e = hlen4 b \<and> tlen4 e = length b \<and> length e = length b \<and> drop 20 e = drop 20 b \<and>
    take 4 (drop 12 e) = x \<and> take 4 (drop 16 e) = take 4 (drop 12 b) \<and> e ! 9 = b ! 9"
proof -
  let ?l = "word_of_nat (length b) :: u16" and ?s = "take 4 (drop 12 b)"
  let ?b1 = "b[2 := hi8 ?l, 3 := lo8 ?l]"
  let ?b2 = "put_slice 16 ?s ?b1"
  let ?e = "put_slice 12 x ?b2"
  have s: "AsSlice (AddrFrom4 ?s) = Some ?s" "length ?s = 4"
    using AsSlice_wf [of "AddrFrom4 ?s"] AddrFrom4_wf [of ?s] b(1) by simp_all
  have 1: "IPv4_SetTotalLength b ?l = Some ?b1" using b(1) by (simp add: IPv4_SetTotalLength_def go_simps)
  have 2: "(IPv4_SourceAddress ?b1 \<bind> IPv4_SetDestinationAddress ?b1) = Some ?b2"
    using b(1) s by (simp add: IPv4_SourceAddress_def IPv4_SetDestinationAddress_def go_simps)
  have 3: "IPv4_SetSourceAddr ?b2 (Addr4 x) = Some ?e"
    using b(1) s x by (simp add: IPv4_SetSourceAddr_def Addr_AsSlice_def go_simps)
  have len: "length ?e = length b" using b(1) s x by simp
  have at: "?e ! i = ?b1 ! i" if "i < 12" for i using that b(1) s x by (simp add: nth_put_slice)
  have "hlen4 ?e = hlen4 b" "unat (?e ! 0) div 16 = 4" using at b(5) by (simp_all add: hlen4_def)
  moreover have "tlen4 ?e = length b" using at b(1,2) by (simp add: tlen4_def unat_of_nat_u16)
  moreover have "take 4 (drop 12 ?e) = x" "take 4 (drop 16 ?e) = ?s" "drop 20 ?e = drop 20 b"
    using b(1) s x by (simp_all add: drop_put_slice)
  moreover have "?e ! 9 = b ! 9" using at by simp
  moreover have "valid4 ?e (length ?e)" using calculation len b unfolding valid4_def by simp
  ultimately show ?thesis using 1 2 3 len by blast
qed

lemma readdress6:
  assumes b: "40 \<le> length b" "40 + unat l \<le> length b" "unat (b ! 0) div 16 = 6" and x: "length x = 16"
  shows "\<exists>b1 b2 e. IPv6_SetPayloadLength b l = Some b1 \<and>
    (IPv6_SourceAddress b1 \<bind> IPv6_SetDestinationAddress b1) = Some b2 \<and> IPv6_SetSourceAddr b2 (Addr16 x) = Some e \<and>
    valid6 e (length e) \<and> plen6 e = unat l \<and> length e = length b \<and> drop 40 e = drop 40 b \<and>
    take 16 (drop 8 e) = x \<and> take 16 (drop 24 e) = take 16 (drop 8 b) \<and> e ! 6 = b ! 6"
proof -
  let ?s = "take 16 (drop 8 b)"
  let ?b1 = "b[4 := hi8 l, 5 := lo8 l]"
  let ?b2 = "put_slice 24 ?s ?b1"
  let ?e = "put_slice 8 x ?b2"
  have s: "AsSlice (AddrFrom16 ?s) = Some ?s" "length ?s = 16"
    using AsSlice_wf [of "AddrFrom16 ?s"] AddrFrom16_wf [of ?s] b(1) by simp_all
  have 1: "IPv6_SetPayloadLength b l = Some ?b1" using b(1) by (simp add: IPv6_SetPayloadLength_def go_simps)
  have 2: "(IPv6_SourceAddress ?b1 \<bind> IPv6_SetDestinationAddress ?b1) = Some ?b2"
    using b(1) s by (simp add: IPv6_SourceAddress_def IPv6_SetDestinationAddress_def go_simps)
  have 3: "IPv6_SetSourceAddr ?b2 (Addr16 x) = Some ?e"
    using b(1) s x by (simp add: IPv6_SetSourceAddr_def Addr_AsSlice_def go_simps)
  have len: "length ?e = length b" using b(1) s x by simp
  have at: "?e ! i = ?b1 ! i" if "i < 8" for i using that b(1) s x by (simp add: nth_put_slice)
  have "unat (?e ! 0) div 16 = 6" using at b(3) by simp
  moreover have "plen6 ?e = unat l" using at b(1) by (simp add: plen6_def)
  moreover have "take 16 (drop 8 ?e) = x" "take 16 (drop 24 ?e) = ?s" "drop 40 ?e = drop 40 b"
    using b(1) s x by (simp_all add: drop_put_slice)
  moreover have "?e ! 6 = b ! 6" using at by simp
  moreover have "valid6 ?e (length ?e)" using calculation len b unfolding valid6_def by simp
  ultimately show ?thesis using 1 2 3 len by blast
qed

section \<open>Answers\<close>

text \<open>A packet with a datagram its receiver accepts, by the check of the header package.\<close>

definition accepts_udp :: "u32 \<Rightarrow> Address \<Rightarrow> Address \<Rightarrow> UDP \<Rightarrow> bool" where
  "accepts_udp proto src dst u \<longleftrightarrow> UDP_Length u = Some (word_of_nat (length u)) \<and> returns (do {
     p \<leftarrow> UDP_Payload u;
     UDPValid u (Some (rfc1071 p 0)) (word_of_nat (length p)) proto src dst False }) (\<lambda>v. v = (True, True))"

definition udp_good4 :: "bool \<Rightarrow> IPv4 \<Rightarrow> bool" where
  "udp_good4 off b \<longleftrightarrow> IPv4_IsValid b (length b) = Some True \<and> IPv4_IsChecksumValid b = Some True \<and>
     returns (do { u \<leftarrow> IPv4_Payload b; s \<leftarrow> IPv4_SourceAddress b; d \<leftarrow> IPv4_DestinationAddress b; Some (u, s, d) })
       (\<lambda>(u, s, d). if off then UDP_Checksum u = Some 0 else accepts_udp 0x0800 s d u)"

definition udp_good6 :: "bool \<Rightarrow> IPv6 \<Rightarrow> bool" where
  "udp_good6 off b \<longleftrightarrow> IPv6_IsValid b (length b) = Some True \<and>
     returns (do { u \<leftarrow> IPv6_Payload b; s \<leftarrow> IPv6_SourceAddress b; d \<leftarrow> IPv6_DestinationAddress b; Some (u, s, d) })
       (\<lambda>(u, s, d). if off then UDP_Checksum u = Some 0 else accepts_udp 0x86dd s d u)"

definition udp_message4 :: "IPv4 \<Rightarrow> (AddrPort \<times> AddrPort \<times> bytes) option" where
  "udp_message4 b = do {
     s \<leftarrow> IPv4_SourceAddr b; d \<leftarrow> IPv4_DestinationAddr b; u \<leftarrow> IPv4_Payload b;
     sp \<leftarrow> UDP_SourcePort u; dp \<leftarrow> UDP_DestinationPort u; p \<leftarrow> UDP_Payload u; Some ((s, sp), (d, dp), p) }"

definition udp_message6 :: "IPv6 \<Rightarrow> (AddrPort \<times> AddrPort \<times> bytes) option" where
  "udp_message6 b = do {
     s \<leftarrow> IPv6_SourceAddr b; d \<leftarrow> IPv6_DestinationAddr b; u \<leftarrow> IPv6_Payload b;
     sp \<leftarrow> UDP_SourcePort u; dp \<leftarrow> UDP_DestinationPort u; p \<leftarrow> UDP_Payload u; Some ((s, sp), (d, dp), p) }"

lemma datagram_accepted:
  assumes d: "datagram False (addr_sum src + addr_sum dst + length u + 17) sp dp d u" and l: "length u < 65536"
    and a: "wf_Address src" "wf_Address dst"
  shows "accepts_udp proto src dst u"
proof -
  have u: "8 \<le> length u" "UDP_Payload u = Some (drop 8 u)" "be16 (u ! 4) (u ! 5) = word_of_nat (length u)" "be16 (u ! 6) (u ! 7) \<noteq> 0"
    and v: "verifies (addr_sum src + addr_sum dst + length u + 17) u"
    using d by (auto simp: datagram_def udp_fields go_defs split: if_splits)
  have n: "unat (word_of_nat (length u) :: u16) = length u" "unat (word_of_nat (length (drop 8 u)) :: u16) = length u - 8"
    using l by (simp_all add: unat_of_nat_u16)
  have "d = drop 8 u" using d u(2) by (simp add: datagram_def)
  then have e: "(word_of_nat (length d) :: u16) + 8 = word_of_nat (length u)"
    using n u(1) l by (simp add: word_unat_eq_iff unat_word_ariths)
  have g: "\<not> (word_of_nat (length u) :: u16) < 8" using n u(1) by (simp add: word_less_nat_alt)
  show ?thesis
    using u v g e UDP_IsChecksumValid_eq [OF u(1) a] n(1) d
    by (simp add: accepts_udp_def UDPValid_def datagram_def UDP_Length_def UDP_Checksum_def go_simps)
qed

lemma udp_packet4:
  assumes e: "valid4 e (length e)" "tlen4 e = length e" "take 4 (drop 12 e) = x" "take 4 (drop 16 e) = y"
    and v: "length v = length e - hlen4 e" "datagram off (sum16 x + sum16 y + length v + 17) p sp d v"
  shows "\<exists>c r. IPv4_CalculateChecksum (take (hlen4 e) e @ v) = Some c \<and>
    IPv4_SetChecksum (take (hlen4 e) e @ v) (NOT c) = Some r \<and>
    udp_good4 off r \<and> udp_message4 r = Some ((Addr4 x, p), (Addr4 y, sp), d)"
proof -
  note b = valid4D [OF e(1)]
  let ?f = "take (hlen4 e) e @ v"
  have f: "valid4 ?f (length ?f)" "hlen4 ?f = hlen4 e" "tlen4 ?f = tlen4 e" "src4 ?f = src4 e" "dst4 ?f = dst4 e" "length ?f = length e"
    using payload4 [OF e(1), of v] e(2) v(1) by simp_all
  obtain c r where r: "IPv4_CalculateChecksum ?f = Some c" "IPv4_SetChecksum ?f (NOT c) = Some r" "ok4 r"
      "hlen4 r = hlen4 ?f" "tlen4 r = tlen4 ?f" "src4 r = src4 ?f" "dst4 r = dst4 ?f" "drop (hlen4 ?f) r = drop (hlen4 ?f) ?f"
      "length r = length ?f"
    using finish4 [OF f(1)] by blast
  have ok: "valid4 r (length r)" "rfc1071 (take (hlen4 r) r) 0 = 0xffff" using r(3) by (simp_all add: ok4_def)
  note rb = valid4D [OF ok(1)]
  have p: "IPv4_Payload r = Some v"
    using IPv4_Payload_eq [OF ok(1) order_refl] r(4,5,8,9) f(2,3,6) e(2) v(1) b by simp
  have a: "take 4 (drop 12 r) = x" "take 4 (drop 16 r) = y"
  proof -
    have "src4 r = AddrFrom4 x" "dst4 r = AddrFrom4 y" using r(6,7) f(4,5) e(3,4) by (simp_all add: src4_def dst4_def)
    then show "take 4 (drop 12 r) = x" "take 4 (drop 16 r) = y"
      using AddrFrom4_wf [of x] AddrFrom4_wf [of y] AddrFrom4_wf [of "take 4 (drop 12 r)"] AddrFrom4_wf [of "take 4 (drop 16 r)"]
        rb(1) b(1) e(3,4) by (auto simp: src4_def dst4_def)
  qed
  have "wf_Address (AddrFrom4 x)" "wf_Address (AddrFrom4 y)" "addr_sum (AddrFrom4 x) = sum16 x" "addr_sum (AddrFrom4 y) = sum16 y"
    using AddrFrom4_wf [of x] AddrFrom4_wf [of y] addr_sum_From(1) [of x] addr_sum_From(1) [of y] e(3,4) b(1) by auto
  moreover have "length v < 65536" using v(1) e(2) tlen4_less [of e] by simp
  ultimately have "if off then UDP_Checksum v = Some 0 else accepts_udp 0x0800 (AddrFrom4 x) (AddrFrom4 y) v"
    using v(2) datagram_accepted [of "AddrFrom4 x" "AddrFrom4 y" v p sp d] by (auto simp: datagram_def)
  then have "udp_good4 off r"
    using ok rb a p by (simp add: udp_good4_def IPv4_IsValid_eq IPv4_IsChecksumValid_eq IPv4_SourceAddress_def
        IPv4_DestinationAddress_def go_simps)
  moreover have "udp_message4 r = Some ((Addr4 x, p), (Addr4 y, sp), d)"
    using p a rb v(2) by (simp add: udp_message4_def IPv4_SourceAddr_def IPv4_DestinationAddr_def datagram_def go_simps)
  ultimately show ?thesis using r(1,2) by blast
qed

lemma reply4:
  assumes w: "world_ok w" "w_PacketOffset w \<le> uw_frontHeadroom pw"
    and h: "length (uw_header pw) = hlen4 (uw_header pw) + 8" "20 \<le> hlen4 (uw_header pw)" "unat (uw_header pw ! 0) div 16 = 4"
    and y: "take 4 (drop 12 (uw_header pw)) = y" and sp: "BE_Uint16 (uw_header pw) (hlen4 (uw_header pw)) = Some sp"
    and d: "length (uw_header pw) + length d < 65536" and x: "length x = 4"
  shows "returns (systemUDPPacketWriter4_WritePacket w pw d (Addr4 x, p)) (wrote w (uw_frontHeadroom pw)
    (\<lambda>r. udp_good4 (uw_txChecksumOffload pw) r \<and> udp_message4 r = Some ((Addr4 x, p), (Addr4 y, sp), d)))"
proof -
  define hd where "hd = uw_header pw"
  define b where "b = hd @ d"
  let ?hl = "hlen4 hd" and ?off = "uw_txChecksumOffload pw" and ?l = "word_of_nat (length d + 8) :: u16"
  have hb: "hlen4 b = ?hl" "unat (b ! 0) div 16 = 4" "length b = ?hl + (8 + length d)" "take 4 (drop 12 b) = y"
    using h y by (simp_all add: hlen4_def b_def hd_def nth_append)
  have b20: "20 \<le> length b" "length b < 65536" "20 \<le> hlen4 b" "hlen4 b \<le> length b" "unat (b ! 0) div 16 = 4"
    using hb d h by (simp_all add: hd_def)
  obtain b1 b2 e where e: "IPv4_SetTotalLength b (word_of_nat (length b)) = Some b1"
      "(IPv4_SourceAddress b1 \<bind> IPv4_SetDestinationAddress b1) = Some b2" "IPv4_SetSourceAddr b2 (Addr4 x) = Some e"
      "valid4 e (length e)" "hlen4 e = hlen4 b" "tlen4 e = length b" "length e = length b" "drop 20 e = drop 20 b"
      "take 4 (drop 12 e) = x" "take 4 (drop 16 e) = y"
    using readdress4 [OF b20 x] unfolding hb(4) by blast
  define u where "u = drop ?hl b"
  have u: "length u = 8 + length d" "drop 8 u = d" "UDP_SourcePort u = Some sp" "drop ?hl e = u"
  proof -
    show "length u = 8 + length d" "drop 8 u = d" using hb(3) h(1) by (simp_all add: u_def b_def hd_def)
    show "UDP_SourcePort u = Some sp"
      using sp h(1) by (simp add: u_def b_def hd_def UDP_SourcePort_def BE_Uint16_def nth_append)
    show "drop ?hl e = u" using e(8) h(2) by (metis drop_drop hd_def le_add_diff_inverse2 u_def)
  qed
  have eu: "take ?hl e @ u = e" "length (take ?hl e) = ?hl" using u(4) append_take_drop_id [of ?hl e] e(7) hb(3) by simp_all
  have arith: "length b = ?hl + length u" "8 \<le> length u" "length u < 65536" "?l = word_of_nat (length u)"
    using hb(3) u(1) d h(1) by (simp_all add: hd_def add.commute)
  obtain u' v where v: "on_slice ?hl (length b) (udp_readdress p ?l) e = Some (take ?hl e @ u')" "length u' = length u"
      "(if \<not> ?off then on_slice ?hl (length b) (udp_seal x y ?l) (take ?hl e @ u')
        else on_slice ?hl (length b) (\<lambda>u. UDP_SetChecksum u 0) (take ?hl e @ u')) = Some (take ?hl e @ v)"
      "length v = length u" "datagram ?off (sum16 x + sum16 y + length u + 17) p sp d v"
    using udp_in_place [OF eu(2) arith(1,2,3) u(3) arith(4) refl, of p ?off x y] unfolding eu(1) u(2) by blast
  have hle: "hlen4 e = ?hl" "tlen4 e = length e" "length e - hlen4 e = length u" using e(5-7) hb(1) arith(1) by simp_all
  have vl: "length v = length e - hlen4 e" "datagram ?off (sum16 x + sum16 y + length v + 17) p sp d v"
    using v(4,5) hle(3) by simp_all
  obtain c r where r: "IPv4_CalculateChecksum (take ?hl e @ v) = Some c" "IPv4_SetChecksum (take ?hl e @ v) (NOT c) = Some r"
      "udp_good4 ?off r" "udp_message4 r = Some ((Addr4 x, p), (Addr4 y, sp), d)"
    using udp_packet4 [OF e(4) hle(2) e(9,10) vl] unfolding hle(1) by blast
  have f: "valid4 (take ?hl e @ u') (length (take ?hl e @ u'))" "hlen4 (take ?hl e @ u') = ?hl" "tlen4 (take ?hl e @ u') = length b"
    using payload4 [OF e(4), of u'] e(7) hle v(2) e(6) by simp_all
  have sl: "IPv4_SourceAddressSlice (take ?hl e @ u') = Some x" "IPv4_DestinationAddressSlice (take ?hl e @ u') = Some y"
    "IPv4_PayloadLength (take ?hl e @ u') = Some ?l"
    using e(9,10) h(2) e(7) hb(3) x valid4D [OF f(1)] IPv4_PayloadLength_eq [of "take ?hl e @ u'"] f(2,3) arith(1,4)
    by (simp_all add: IPv4_SourceAddressSlice_def IPv4_DestinationAddressSlice_def go_simps drop_take hd_def)
  let ?nb = "w_fresh w (uw_frontHeadroom pw + length hd + length d)"
  have nb: "w_PacketOffset w \<le> length (take (uw_frontHeadroom pw) ?nb)"
      "w_PacketOffset w = 0 \<Longrightarrow> length (take (uw_frontHeadroom pw) ?nb) = uw_frontHeadroom pw"
    using w by (simp_all add: world_ok_def)
  obtain pre where pre: "length pre = (if w_PacketOffset w = 0 then uw_frontHeadroom pw else 4)"
      "send_packet w (uw_frontHeadroom pw) (take (uw_frontHeadroom pw) ?nb) 4 r = Some (w_tunWrite w (pre @ r), [TunWrite (pre @ r)])"
    using send_packet_right [OF w(1) nb] by blast
  have "systemUDPPacketWriter4_WritePacket w pw d (Addr4 x, p) = Some (w_tunWrite w (pre @ r), [TunWrite (pre @ r)])"
    unfolding systemUDPPacketWriter4_WritePacket_def Let_def hd_def [symmetric] b_def [symmetric] e(1) bind.bind_lunit
      Option.bind_assoc [symmetric] e(2) e(3) payload_window4_eq [OF e(4)] hle(1) e(6) prod.case fst_conv snd_conv v(1) sl v(3) r(1,2) pre(2)
    by (rule refl)
  then show ?thesis using wroteI [OF pre(1)] r(3,4) by simp
qed

lemma udp_packet6:
  assumes e: "valid6 e (length e)" "length e = 40 + plen6 e" "take 16 (drop 8 e) = x" "take 16 (drop 24 e) = y"
    and v: "length v = plen6 e" "datagram off (sum16 x + sum16 y + length v + 17) p sp d v"
  defines "r \<equiv> take 40 e @ v"
  shows "valid6 r (length r)" and "plen6 r = plen6 e" and "udp_good6 off r" and "udp_message6 r = Some ((Addr16 x, p), (Addr16 y, sp), d)"
    and "take 16 (drop 8 r) = x" "take 16 (drop 24 r) = y"
proof -
  have b: "40 \<le> length e" "unat (e ! 0) div 16 = 6" using valid6D [OF e(1)] by simp_all
  have at: "take 40 r = take 40 e" "length r = length e" "drop 40 r = v" using b e(2) v(1) by (simp_all add: r_def)
  have "take 8 (take 40 r) = take 8 (take 40 e)" using at(1) by (rule arg_cong)
  then have "take 8 r = take 8 e" by simp
  then show pl: "plen6 r = plen6 e" using header6_cong [of r e] by simp
  have "r ! 0 = e ! 0" using b(1) by (simp add: r_def nth_append)
  then show ok: "valid6 r (length r)" using e(1) pl at(2) by (simp add: valid6_def)
  show a: "take 16 (drop 8 r) = x" "take 16 (drop 24 r) = y" using e(3,4) b(1) by (auto simp: r_def drop_take)
  have p: "IPv6_Payload r = Some v"
    using IPv6_Payload_eq [OF ok order_refl] at(3) pl v(1) by simp
  have "wf_Address (AddrFrom16 x)" "wf_Address (AddrFrom16 y)" "addr_sum (AddrFrom16 x) = sum16 x" "addr_sum (AddrFrom16 y) = sum16 y"
    using AddrFrom16_wf [of x] AddrFrom16_wf [of y] addr_sum_From(2) [of x] addr_sum_From(2) [of y] e(3,4) b(1) by auto
  moreover have "length v < 65536" using v(1) unfolding plen6_def by (simp only: unat_u16_less)
  ultimately have "if off then UDP_Checksum v = Some 0 else accepts_udp 0x86dd (AddrFrom16 x) (AddrFrom16 y) v"
    using v(2) datagram_accepted [of "AddrFrom16 x" "AddrFrom16 y" v p sp d] by (auto simp: datagram_def)
  then show "udp_good6 off r"
    using ok at(2) b a p by (simp add: udp_good6_def IPv6_IsValid_eq IPv6_SourceAddress_def IPv6_DestinationAddress_def go_simps)
  show "udp_message6 r = Some ((Addr16 x, p), (Addr16 y, sp), d)"
    using p a at(2) b v(2) by (simp add: udp_message6_def IPv6_SourceAddr_def IPv6_DestinationAddr_def datagram_def go_simps)
qed

lemma reply6:
  assumes w: "world_ok w" "w_PacketOffset w \<le> uw_frontHeadroom pw"
    and h: "length (uw_header pw) = 48" "unat (uw_header pw ! 0) div 16 = 6"
    and y: "take 16 (drop 8 (uw_header pw)) = y" and sp: "BE_Uint16 (uw_header pw) 40 = Some sp"
    and d: "8 + length d < 65536" and x: "length x = 16"
  shows "returns (systemUDPPacketWriter6_WritePacket w pw d (Addr16 x, p)) (wrote w (uw_frontHeadroom pw)
    (\<lambda>r. udp_good6 (uw_txChecksumOffload pw) r \<and> udp_message6 r = Some ((Addr16 x, p), (Addr16 y, sp), d)))"
proof -
  define hd where "hd = uw_header pw"
  define b where "b = hd @ d"
  let ?off = "uw_txChecksumOffload pw" and ?l = "word_of_nat (8 + length d) :: u16"
  have ul: "unat ?l = 8 + length d" using d by (rule unat_of_nat_u16)
  have hb: "length b = 48 + length d" "take 16 (drop 8 b) = y" using h y by (simp_all add: b_def hd_def)
  have b40: "40 \<le> length b" "40 + unat ?l \<le> length b" "unat (b ! 0) div 16 = 6"
    using hb(1) h ul unfolding b_def hd_def by (simp_all add: nth_append)
  obtain b1 b2 e where e: "IPv6_SetPayloadLength b ?l = Some b1"
      "(IPv6_SourceAddress b1 \<bind> IPv6_SetDestinationAddress b1) = Some b2" "IPv6_SetSourceAddr b2 (Addr16 x) = Some e"
      "valid6 e (length e)" "plen6 e = unat ?l" "length e = length b" "drop 40 e = drop 40 b"
      "take 16 (drop 8 e) = x" "take 16 (drop 24 e) = y"
    using readdress6 [OF b40 x] unfolding hb(2) by blast
  define u where "u = drop 40 b"
  have u: "length u = 8 + length d" "drop 8 u = d" "UDP_SourcePort u = Some sp"
    using hb(1) h(1) sp by (simp_all add: u_def b_def hd_def UDP_SourcePort_def BE_Uint16_def nth_append)
  have eu: "take 40 e @ u = e" "length (take 40 e) = 40" using append_take_drop_id [of 40 e] e(6,7) hb(1) by (simp_all add: u_def)
  have arith: "end6 e = 40 + length u" "8 \<le> length u" "length u < 65536" "?l = word_of_nat (length u)"
    unfolding e(5) u(1) ul using d by simp_all
  obtain u' v where v: "on_slice 40 (end6 e) (udp_readdress p ?l) e = Some (take 40 e @ u')" "length u' = length u"
      "(if \<not> ?off then on_slice 40 (end6 e) (udp_seal x y ?l) (take 40 e @ u')
        else on_slice 40 (end6 e) (\<lambda>u. UDP_SetChecksum u 0) (take 40 e @ u')) = Some (take 40 e @ v)"
      "length v = length u" "datagram ?off (sum16 x + sum16 y + length u + 17) p sp d v"
    using udp_in_place [OF eu(2) arith(1,2,3) u(3) arith(4) refl, of p ?off x y] unfolding eu(1) u(2) by blast
  have el: "length e = 40 + plen6 e" "length v = plen6 e" "datagram ?off (sum16 x + sum16 y + length v + 17) p sp d v"
    using v(5) unfolding e(5,6) hb(1) ul v(4) u(1) by simp_all
  note r = udp_packet6 [OF e(4) el(1) e(8,9) el(2,3)]
  have at: "take 40 (take 40 e @ u') = take 40 e" "length (take 40 e @ u') = length e" using eu(2) v(2,4) el(1,2) by simp_all
  have sl: "IPv6_SourceAddressSlice (take 40 e @ u') = Some x" "IPv6_DestinationAddressSlice (take 40 e @ u') = Some y"
    "IPv6_PayloadLength (take 40 e @ u') = Some ?l"
  proof -
    have ly: "length y = 16" using e(6,9) hb(1) by auto
    then have "take 16 (drop 8 (take 40 e)) = x" "take 16 (drop 24 (take 40 e)) = y" using e(8,9) by (simp_all add: drop_take)
    then show "IPv6_SourceAddressSlice (take 40 e @ u') = Some x" "IPv6_DestinationAddressSlice (take 40 e @ u') = Some y"
      using eu(2) ly by (simp_all add: IPv6_SourceAddressSlice_def IPv6_DestinationAddressSlice_def go_simps)
    have "be16 (e ! 4) (e ! 5) = ?l" using e(5) unfolding plen6_def by (simp only: word_unat_eq_iff)
    then show "IPv6_PayloadLength (take 40 e @ u') = Some ?l"
      using eu(2) by (simp add: IPv6_PayloadLength_def go_simps nth_append)
  qed
  let ?nb = "w_fresh w (uw_frontHeadroom pw + length hd + length d)"
  have nb: "w_PacketOffset w \<le> length (take (uw_frontHeadroom pw) ?nb)"
      "w_PacketOffset w = 0 \<Longrightarrow> length (take (uw_frontHeadroom pw) ?nb) = uw_frontHeadroom pw"
    using w by (simp_all add: world_ok_def)
  obtain pre where pre: "length pre = (if w_PacketOffset w = 0 then uw_frontHeadroom pw else 4)"
      "send_packet w (uw_frontHeadroom pw) (take (uw_frontHeadroom pw) ?nb) 6 (take 40 e @ v) =
        Some (w_tunWrite w (pre @ take 40 e @ v), [TunWrite (pre @ take 40 e @ v)])"
    using send_packet_right [OF w(1) nb] by blast
  have "systemUDPPacketWriter6_WritePacket w pw d (Addr16 x, p) = Some (w_tunWrite w (pre @ take 40 e @ v), [TunWrite (pre @ take 40 e @ v)])"
    unfolding systemUDPPacketWriter6_WritePacket_def Let_def hd_def [symmetric] b_def [symmetric] e(1) bind.bind_lunit
      Option.bind_assoc [symmetric] e(2) e(3) payload_window6_eq [OF e(4)] prod.case fst_conv snd_conv v(1) sl v(3) pre(2)
    by (rule refl)
  then show ?thesis using wroteI [OF pre(1)] r(3,4) by simp
qed

section \<open>A datagram and its answers\<close>

lemma accept4:
  fixes s :: System and w :: World
  assumes v: "valid4 b (length b)" and m: "udp_message4 b = Some (src, dst, d)" and d: "d \<noteq> []" "IsGlobalUnicast (fst dst)"
    and f: "IPv4_Flags b = Some f" "f AND 1 = 0" "IPv4_FragmentOffset b = Some 0"
  defines "pw \<equiv> \<lparr>uw_frontHeadroom = sy_frontHeadroom s + w_PacketOffset w, uw_header = take (hlen4 b + 8) b,
    uw_source = src, uw_txChecksumOffload = sy_txChecksumOffload s\<rparr>"
  shows "processIPv4UDP w s b (hlen4 b) (tlen4 b) = Some (None, [NewPacket src d dst pw])"
    and "length (uw_header pw) = hlen4 (uw_header pw) + 8" "hlen4 (uw_header pw) = hlen4 b" "unat (uw_header pw ! 0) div 16 = 4"
    and "\<exists>y. fst src = Addr4 y \<and> take 4 (drop 12 (uw_header pw)) = y"
    and "BE_Uint16 (uw_header pw) (hlen4 (uw_header pw)) = Some (snd src)"
proof -
  note b = valid4D [OF v]
  let ?u = "take (tlen4 b - hlen4 b) (drop (hlen4 b) b)"
  have p: "IPv4_Payload b = Some ?u" "slice b (hlen4 b) (tlen4 b) = Some ?u"
    using IPv4_Payload_eq [OF v order_refl] b by (simp_all add: slice_in)
  have r: "UDP_Payload ?u = Some d" "UDP_SourcePort ?u = Some (snd src)" "UDP_DestinationPort ?u = Some (snd dst)"
    "IPv4_SourceAddr b = Some (fst src)" "IPv4_DestinationAddr b = Some (fst dst)"
    using m p(1) by (auto simp: udp_message4_def split: Option.bind_splits)
  have l: "hlen4 b + 8 \<le> tlen4 b" using r(1) b by (simp add: UDP_Payload_def slice_from_def split: if_splits)
  have "hlen4 b = unat (b ! 0) mod 16 * 4" by (simp add: hlen4_def)
  then have h60: "hlen4 b \<le> 60" by linarith
  have hl: "IPv4_HeaderLength b = Some (word_of_nat (hlen4 b))"
    by (rule IPv4_HeaderLength_eq [OF b(2)])
  have "unat (word_of_nat (hlen4 b) + 8 :: u8) = hlen4 b + 8"
    using h60 by (simp add: unat_word_ariths unat_of_nat)
  then have c: "slice b 0 (unat (word_of_nat (hlen4 b) + 8 :: u8)) = Some (take (hlen4 b + 8) b)"
    using l b by (simp add: slice_in)
  show "processIPv4UDP w s b (hlen4 b) (tlen4 b) = Some (None, [NewPacket src d dst pw])"
    using f p(2) r d hl c by (simp add: processIPv4UDP_def pw_def)
  have nth: "uw_header pw ! i = b ! i" if "i < hlen4 b + 8" for i using that by (simp add: pw_def)
  then show h: "hlen4 (uw_header pw) = hlen4 b" "unat (uw_header pw ! 0) div 16 = 4" using b by (simp_all add: hlen4_def)
  then show "length (uw_header pw) = hlen4 (uw_header pw) + 8" using l b by (simp add: pw_def)
  show "\<exists>y. fst src = Addr4 y \<and> take 4 (drop 12 (uw_header pw)) = y"
    using r(4) b by (auto simp: pw_def IPv4_SourceAddr_def go_simps drop_take)
  show "BE_Uint16 (uw_header pw) (hlen4 (uw_header pw)) = Some (snd src)"
    using r(2) l b unfolding h by (auto simp: pw_def UDP_SourcePort_def BE_Uint16_def split: if_splits)
qed

lemma accept6:
  fixes s :: System and w :: World
  assumes v: "valid6 b (length b)" "length b = end6 b" and m: "udp_message6 b = Some (src, dst, d)"
    and d: "d \<noteq> []" "IsGlobalUnicast (fst dst)"
  defines "pw \<equiv> \<lparr>uw_frontHeadroom = sy_frontHeadroom s + w_PacketOffset w, uw_header = take 48 b,
    uw_source = src, uw_txChecksumOffload = sy_txChecksumOffload s\<rparr>"
  shows "processIPv6UDP w s b 40 (end6 b) = Some (None, [NewPacket src d dst pw])"
    and "length (uw_header pw) = 48" "unat (uw_header pw ! 0) div 16 = 6"
    and "\<exists>y. fst src = Addr16 y \<and> take 16 (drop 8 (uw_header pw)) = y"
    and "BE_Uint16 (uw_header pw) 40 = Some (snd src)"
proof -
  note b = valid6D [OF v(1)]
  let ?u = "drop 40 b"
  have p: "IPv6_Payload b = Some ?u" "slice b 40 (end6 b) = Some ?u"
    using IPv6_Payload_eq [OF v(1) order_refl] b v(2) by (simp_all add: slice_in)
  have r: "UDP_Payload ?u = Some d" "UDP_SourcePort ?u = Some (snd src)" "UDP_DestinationPort ?u = Some (snd dst)"
    "IPv6_SourceAddr b = Some (fst src)" "IPv6_DestinationAddr b = Some (fst dst)"
    using m p(1) by (auto simp: udp_message6_def split: Option.bind_splits)
  have l: "48 \<le> length b" using r(1) b by (simp add: UDP_Payload_def slice_from_def split: if_splits)
  have c: "\<exists>pl. IPv6_PayloadLength b = Some pl \<and> slice b 0 (length b - unat pl + 8) = Some (take 48 b)"
    using IPv6_PayloadLength_eq [of b] l v(2) by (simp add: slice_in plen6_def)
  show "processIPv6UDP w s b 40 (end6 b) = Some (None, [NewPacket src d dst pw])"
    using p(2) r d c by (auto simp: processIPv6UDP_def pw_def)
  show "length (uw_header pw) = 48" "unat (uw_header pw ! 0) div 16 = 6" using l b by (simp_all add: pw_def)
  show "\<exists>y. fst src = Addr16 y \<and> take 16 (drop 8 (uw_header pw)) = y"
    using r(4) b by (auto simp: pw_def IPv6_SourceAddr_def go_simps drop_take)
  show "BE_Uint16 (uw_header pw) 40 = Some (snd src)"
    using r(2) l by (auto simp: pw_def UDP_SourcePort_def BE_Uint16_def split: if_splits)
qed

text \<open>
  C2. An answer to a datagram reaches its sender. A valid, unfragmented datagram with data for a global
  unicast address is given to the handler with its endpoints and data, and whatever the handler writes back
  through the packet writer it got, from any address and port and of any length a packet can hold, leaves
  as one valid packet from that address to the sender of the datagram, with exactly the data written and
  a checksum the receiver accepts (or none, when the device computes it). For IPv6 the packet must
  end where its payload length says.
\<close>

theorem UDP_answer:
  assumes "world_ok w"
    and "IPv4_IsValid b (length b) = Some True" and "udp_message4 b = Some (src, dst, d)" and "d \<noteq> []"
    and "IsGlobalUnicast (fst dst)" and "IPv4_Flags b = Some f" "f AND 1 = 0" "IPv4_FragmentOffset b = Some 0"
    and "IPv4_HeaderLength b = Some hl" and "unat hl + 8 + length e < 65536" and "length x = 4"
    and "IPv6_IsValid c (length c) = Some True" and "IPv6_PayloadLength c = Some pl" and "length c = 40 + unat pl"
    and "udp_message6 c = Some (src', dst', d')" and "d' \<noteq> []" and "IsGlobalUnicast (fst dst')"
    and "8 + length e < 65536" and "length y = 16"
  shows "returns (do { (lo, hi) \<leftarrow> payload_window4 b; processIPv4UDP w s b lo hi }) (\<lambda>(err, effs).
      err = None \<and> (\<exists>pw. effs = [NewPacket src d dst pw] \<and>
        returns (systemUDPPacketWriter4_WritePacket w pw e (Addr4 x, p)) (wrote w (sy_frontHeadroom s + w_PacketOffset w)
          (\<lambda>r. udp_good4 (sy_txChecksumOffload s) r \<and> udp_message4 r = Some ((Addr4 x, p), src, e))))) \<and>
    returns (do { (lo, hi) \<leftarrow> payload_window6 c; processIPv6UDP w s c lo hi }) (\<lambda>(err, effs).
      err = None \<and> (\<exists>pw. effs = [NewPacket src' d' dst' pw] \<and>
        returns (systemUDPPacketWriter6_WritePacket w pw e (Addr16 y, p)) (wrote w (sy_frontHeadroom s + w_PacketOffset w)
          (\<lambda>r. udp_good6 (sy_txChecksumOffload s) r \<and> udp_message6 r = Some ((Addr16 y, p), src', e)))))"
proof (rule conjI)
  have v: "valid4 b (length b)" using assms(2) by (simp add: IPv4_IsValid_eq)
  have hl: "hlen4 b = unat hl"
  proof -
    have "hl = word_of_nat (hlen4 b)" using IPv4_HeaderLength_eq [of b] valid4D [OF v] assms(9) by simp
    moreover have "hlen4 b < 256" unfolding hlen4_def by (rule le_less_trans [of _ "15 * 4"]) auto
    ultimately show ?thesis by (simp add: unat_of_nat)
  qed
  note a = accept4 [OF v assms(3-8), where s = s and w = w]
  let ?pw = "\<lparr>uw_frontHeadroom = sy_frontHeadroom s + w_PacketOffset w, uw_header = take (hlen4 b + 8) b,
    uw_source = src, uw_txChecksumOffload = sy_txChecksumOffload s\<rparr>"
  have h: "w_PacketOffset w \<le> uw_frontHeadroom ?pw" "20 \<le> hlen4 (uw_header ?pw)" "length (uw_header ?pw) + length e < 65536"
    using a(2,3) assms(10) valid4D [OF v] unfolding hl by simp_all
  obtain z where z: "fst src = Addr4 z" "take 4 (drop 12 (uw_header ?pw)) = z" "(Addr4 z, snd src) = src"
    using a(5) by (metis prod.collapse)
  show "returns (do { (lo, hi) \<leftarrow> payload_window4 b; processIPv4UDP w s b lo hi }) (\<lambda>(err, effs).
      err = None \<and> (\<exists>pw. effs = [NewPacket src d dst pw] \<and>
        returns (systemUDPPacketWriter4_WritePacket w pw e (Addr4 x, p)) (wrote w (sy_frontHeadroom s + w_PacketOffset w)
          (\<lambda>r. udp_good4 (sy_txChecksumOffload s) r \<and> udp_message4 r = Some ((Addr4 x, p), src, e)))))"
    using reply4 [OF assms(1) h(1) a(2) h(2) a(4) z(2) a(6) h(3) assms(11), of p] payload_window4_eq [OF v] a(1)
    unfolding z(3) by simp
next
  have v: "valid6 c (length c)" using assms(12) by (simp add: IPv6_IsValid_eq)
  have e6: "length c = end6 c"
    using IPv6_PayloadLength_eq [of c] valid6D [OF v] assms(13,14) by (simp add: plen6_def)
  note a = accept6 [OF v e6 assms(15-17), where s = s and w = w]
  let ?pw = "\<lparr>uw_frontHeadroom = sy_frontHeadroom s + w_PacketOffset w, uw_header = take 48 c,
    uw_source = src', uw_txChecksumOffload = sy_txChecksumOffload s\<rparr>"
  have h: "w_PacketOffset w \<le> uw_frontHeadroom ?pw" by simp
  obtain z where z: "fst src' = Addr16 z" "take 16 (drop 8 (uw_header ?pw)) = z" "(Addr16 z, snd src') = src'"
    using a(4) by (metis prod.collapse)
  show "returns (do { (lo, hi) \<leftarrow> payload_window6 c; processIPv6UDP w s c lo hi }) (\<lambda>(err, effs).
      err = None \<and> (\<exists>pw. effs = [NewPacket src' d' dst' pw] \<and>
        returns (systemUDPPacketWriter6_WritePacket w pw e (Addr16 y, p)) (wrote w (sy_frontHeadroom s + w_PacketOffset w)
          (\<lambda>r. udp_good6 (sy_txChecksumOffload s) r \<and> udp_message6 r = Some ((Addr16 y, p), src', e)))))"
    using reply6 [OF assms(1) h a(2,3) z(2) a(5) assms(18,19), of p] payload_window6_eq [OF v] a(1)
    unfolding z(3) by simp
qed

text \<open>A query of one byte from 10.0.0.1 and from fd00::1.\<close>

definition query4 :: IPv4 where
  "query4 = [0x45, 0, 0, 29, 0, 0, 0, 0, 64, 17, 0, 0, 10, 0, 0, 1, 10, 0, 0, 2] @ [4, 0, 0, 53, 0, 9, 0, 0, 104]"

definition query6 :: IPv6 where
  "query6 = [0x60, 0, 0, 0, 0, 9, 17, 64] @ fd00 1 @ fd00 2 @ [4, 0, 0, 53, 0, 9, 0, 0, 104]"

lemma query4: "IPv4_IsValid query4 (length query4) = Some True"
    "udp_message4 query4 = Some ((Addr4 [10, 0, 0, 1], 1024), (Addr4 [10, 0, 0, 2], 53), [104])"
    "IPv4_Flags query4 = Some 0" "IPv4_FragmentOffset query4 = Some 0" "IPv4_HeaderLength query4 = Some 20"
proof -
  have v: "valid4 query4 (length query4)" "hlen4 query4 = 20" "tlen4 query4 = 29"
    by (simp_all add: query4_def valid4_def hlen4_def tlen4_def)
  have p: "IPv4_Payload query4 = Some [4, 0, 0, 53, 0, 9, 0, 0, 104]"
    using IPv4_Payload_eq [OF v(1) order_refl] v by (simp add: query4_def)
  show "IPv4_IsValid query4 (length query4) = Some True" using v(1) by (simp add: IPv4_IsValid_eq)
  show "udp_message4 query4 = Some ((Addr4 [10, 0, 0, 1], 1024), (Addr4 [10, 0, 0, 2], 53), [104])"
    using p by (simp add: udp_message4_def IPv4_SourceAddr_def IPv4_DestinationAddr_def query4_def go_simps udp_fields be16_def)
  show "IPv4_Flags query4 = Some 0" "IPv4_FragmentOffset query4 = Some 0"
    by (simp_all add: IPv4_Flags_def IPv4_FragmentOffset_def query4_def go_simps be16_def)
  show "IPv4_HeaderLength query4 = Some 20" using IPv4_HeaderLength_eq [of query4] v(2) by (simp add: query4_def)
qed

lemma query6: "IPv6_IsValid query6 (length query6) = Some True" "IPv6_PayloadLength query6 = Some 9"
    "udp_message6 query6 = Some ((Addr16 (fd00 1), 1024), (Addr16 (fd00 2), 53), [104])" "length query6 = 49"
proof -
  have v: "valid6 query6 (length query6)" "plen6 query6 = 9"
    by (simp_all add: query6_def valid6_def plen6_def)
  have p: "IPv6_Payload query6 = Some [4, 0, 0, 53, 0, 9, 0, 0, 104]"
    using IPv6_Payload_eq [OF v(1) order_refl] v by (simp add: query6_def)
  show "IPv6_IsValid query6 (length query6) = Some True" using v(1) by (simp add: IPv6_IsValid_eq)
  show "IPv6_PayloadLength query6 = Some 9" "length query6 = 49"
    by (simp_all add: query6_def IPv6_PayloadLength_def go_simps be16_def)
  show "udp_message6 query6 = Some ((Addr16 (fd00 1), 1024), (Addr16 (fd00 2), 53), [104])"
    using p by (simp add: udp_message6_def IPv6_SourceAddr_def IPv6_DestinationAddr_def query6_def go_simps udp_fields be16_def)
qed

theorem UDP_answer_witness:
  "returns (do { (lo, hi) \<leftarrow> payload_window4 query4; processIPv4UDP sample_world sample_system query4 lo hi }) (\<lambda>(err, effs).
      \<exists>pw. effs = [NewPacket (Addr4 [10, 0, 0, 1], 1024) [104] (Addr4 [10, 0, 0, 2], 53) pw] \<and>
        returns (systemUDPPacketWriter4_WritePacket sample_world pw [7, 8, 9] (Addr4 [10, 0, 0, 2], 53)) (wrote sample_world 10
          (\<lambda>r. udp_message4 r = Some ((Addr4 [10, 0, 0, 2], 53), (Addr4 [10, 0, 0, 1], 1024), [7, 8, 9]))))"
proof -
  have f: "(0 :: u8) AND 1 = 0" "unat (20 :: u8) + 8 + length [7, 8, 9 :: u8] < 65536" "length [10, 0, 0, 2 :: u8] = 4"
    "length query6 = 40 + unat (9 :: u16)" "8 + length [7, 8, 9 :: u8] < 65536" "length (fd00 2) = 16" "[104 :: u8] \<noteq> []"
    "IsGlobalUnicast (fst (Addr4 [10, 0, 0, 2], 53 :: u16))" "IsGlobalUnicast (fst (Addr16 (fd00 2), 53 :: u16))"
    by (simp_all add: query6 sample_unicast)
  note t = UDP_answer [OF sample_world_ok query4(1,2) f(7,8) query4(3) f(1) query4(4,5) f(2,3) query6(1,2) f(4) query6(3) f(7,9) f(5,6),
      of sample_system 53]
  show ?thesis
    by (rule returns_mono [OF conjunct1 [OF t]])
      (auto simp: sample_system_def sample_world_def elim!: returns_mono wrote_mono)
qed

end
