(* ===== verification/System_ICMP.thy ===== *)
theory System_ICMP
  imports System_TCP Header_ICMP
begin

text \<open>
  The ICMP part of the system stack (\<^verbatim>\<open>stack_system.go\<close>): echo requests for the stack itself, or for which
  the router has no action, are answered in place; the others go to the action the router has for them
  or are rejected with a destination unreachable message. \<^verbatim>\<open>s.directNat.Lookup\<close> is the function
  \<open>w_directNat\<close> of the world: whether there is an action, and the error.
\<close>

type_synonym icmp_outcome = "(bytes \<times> bool \<times> system_error option \<times> effect list) option"

section \<open>Rejection\<close>

definition rejectIPv4WithICMP :: "World \<Rightarrow> System \<Rightarrow> IPv4 \<Rightarrow> u8 \<Rightarrow> (system_error option \<times> effect list) option" where
  "rejectIPv4WithICMP w s ipHdr code = do {
     let frontHeadroom = sy_frontHeadroom s + w_PacketOffset w;
     let mtu = (if sy_mtu s > 576 - 20 then 576 - 20 else sy_mtu s);
     let available = mtu - 8;
     if available < int (length ipHdr) + 8 then Some (None, [])
     else do {
       payload \<leftarrow> (if int (length ipHdr) > available then slice ipHdr 0 (nat available) else Some ipHdr);
       let newPacket = w_fresh w (frontHeadroom + 20 + 8 + length payload);
       let h = take frontHeadroom newPacket;
       newIPHdr \<leftarrow> slice newPacket frontHeadroom (frontHeadroom + 20 + 8 + length payload);
       sa \<leftarrow> IPv4_DestinationAddr ipHdr;
       da \<leftarrow> IPv4_SourceAddr ipHdr;
       newIPHdr \<leftarrow> IPv4_Encode newIPHdr \<lparr>f4_TOS = 0, f4_TotalLength = word_of_nat (length newIPHdr), f4_ID = 0, f4_Flags = 0,
         f4_FragmentOffset = 0, f4_TTL = 0, f4_Protocol = 1, f4_Checksum = 0, f4_SrcAddr = sa, f4_DstAddr = da,
         f4_Options = []\<rparr>;
       c \<leftarrow> IPv4_CalculateChecksum newIPHdr;
       newIPHdr \<leftarrow> IPv4_SetChecksum newIPHdr (NOT c);
       (lo, hi) \<leftarrow> payload_window4 newIPHdr;
       p \<leftarrow> IPv4_Payload ipHdr;
       pc \<leftarrow> Checksum p 0;
       newIPHdr \<leftarrow> on_slice lo hi (\<lambda>icmpHdr. do {
         icmpHdr \<leftarrow> ICMPv4_SetType icmpHdr ICMPv4DstUnreachable;
         icmpHdr \<leftarrow> ICMPv4_SetCode icmpHdr code;
         m \<leftarrow> slice icmpHdr 0 8;
         x \<leftarrow> ICMPv4Checksum m pc;
         icmpHdr \<leftarrow> ICMPv4_SetChecksum icmpHdr x;
         copy_into 8 (length icmpHdr) payload icmpHdr }) newIPHdr;
       send_packet w (sy_frontHeadroom s) h 4 newIPHdr } }"

definition rejectIPv6WithICMP :: "World \<Rightarrow> System \<Rightarrow> IPv6 \<Rightarrow> u8 \<Rightarrow> (system_error option \<times> effect list) option" where
  "rejectIPv6WithICMP w s ipHdr code = do {
     let frontHeadroom = sy_frontHeadroom s + w_PacketOffset w;
     let mtu = (if sy_mtu s > 1280 - 40 then 1280 - 40 else sy_mtu s);
     let available = mtu - 8;
     if available < 40 then Some (None, [])
     else do {
       payload \<leftarrow> (if int (length ipHdr) > available then slice ipHdr 0 (nat available) else Some ipHdr);
       let newPacket = w_fresh w (frontHeadroom + 40 + 8 + length payload);
       let h = take frontHeadroom newPacket;
       newIPHdr \<leftarrow> slice newPacket frontHeadroom (frontHeadroom + 40 + 8 + length payload);
       sa \<leftarrow> IPv6_DestinationAddr ipHdr;
       da \<leftarrow> IPv6_SourceAddr ipHdr;
       newIPHdr \<leftarrow> IPv6_Encode newIPHdr \<lparr>f6_TrafficClass = 0, f6_FlowLabel = 0, f6_PayloadLength = word_of_nat (8 + length payload),
         f6_TransportProtocol = ICMPv6ProtocolNumber, f6_HopLimit = 0, f6_SrcAddr = sa, f6_DstAddr = da,
         f6_ExtensionHeaders = []\<rparr>;
       (lo, hi) \<leftarrow> payload_window6 newIPHdr;
       ss \<leftarrow> IPv6_SourceAddressSlice newIPHdr;
       ds \<leftarrow> IPv6_DestinationAddressSlice newIPHdr;
       pc \<leftarrow> Checksum payload 0;
       newIPHdr \<leftarrow> on_slice lo hi (\<lambda>icmpHdr. do {
         icmpHdr \<leftarrow> ICMPv6_SetType icmpHdr ICMPv6DstUnreachable;
         icmpHdr \<leftarrow> ICMPv6_SetCode icmpHdr code;
         m \<leftarrow> slice icmpHdr 0 8;
         x \<leftarrow> ICMPv6Checksum \<lparr>cp_Header = m, cp_Src = ss, cp_Dst = ds, cp_PayloadCsum = pc, cp_PayloadLen = length payload\<rparr>;
         icmpHdr \<leftarrow> ICMPv6_SetChecksum icmpHdr x;
         copy_into 8 (length icmpHdr) payload icmpHdr }) newIPHdr;
       send_packet w (sy_frontHeadroom s) h 6 newIPHdr } }"

section \<open>Echo requests\<close>

text \<open>Lines 748 to 753 and 823 to 831: the answer, in place.\<close>

definition echo_reply4 :: "IPv4 \<Rightarrow> nat \<Rightarrow> nat \<Rightarrow> IPv4 option" where
  "echo_reply4 ipHdr lo hi = do {
     ipHdr \<leftarrow> on_slice lo hi (\<lambda>i. ICMPv4_SetType i ICMPv4EchoReply) ipHdr;
     sourceAddress \<leftarrow> IPv4_SourceAddr ipHdr;
     d \<leftarrow> IPv4_DestinationAddr ipHdr;
     ipHdr \<leftarrow> IPv4_SetSourceAddr ipHdr d;
     ipHdr \<leftarrow> IPv4_SetDestinationAddr ipHdr sourceAddress;
     ipHdr \<leftarrow> on_slice lo hi (\<lambda>i. do { x \<leftarrow> ICMPv4Checksum i 0; ICMPv4_SetChecksum i x }) ipHdr;
     c \<leftarrow> IPv4_CalculateChecksum ipHdr;
     IPv4_SetChecksum ipHdr (NOT c) }"

definition echo_reply6 :: "IPv6 \<Rightarrow> nat \<Rightarrow> nat \<Rightarrow> IPv6 option" where
  "echo_reply6 ipHdr lo hi = do {
     ipHdr \<leftarrow> on_slice lo hi (\<lambda>i. ICMPv6_SetType i ICMPv6EchoReply) ipHdr;
     sourceAddress \<leftarrow> IPv6_SourceAddr ipHdr;
     d \<leftarrow> IPv6_DestinationAddr ipHdr;
     ipHdr \<leftarrow> IPv6_SetSourceAddr ipHdr d;
     ipHdr \<leftarrow> IPv6_SetDestinationAddr ipHdr sourceAddress;
     ss \<leftarrow> IPv6_SourceAddressSlice ipHdr;
     ds \<leftarrow> IPv6_DestinationAddressSlice ipHdr;
     on_slice lo hi (\<lambda>i. do {
       x \<leftarrow> ICMPv6Checksum \<lparr>cp_Header = i, cp_Src = ss, cp_Dst = ds, cp_PayloadCsum = 0, cp_PayloadLen = 0\<rparr>;
       ICMPv6_SetChecksum i x }) ipHdr }"

definition processIPv4ICMP :: "World \<Rightarrow> System \<Rightarrow> IPv4 \<Rightarrow> nat \<Rightarrow> nat \<Rightarrow> icmp_outcome" where
  "processIPv4ICMP w s ipHdr lo hi = do {
     icmpHdr \<leftarrow> slice ipHdr lo hi;
     t \<leftarrow> ICMPv4_Type icmpHdr;
     other \<leftarrow> (if t \<noteq> ICMPv4Echo then Some True else do { c \<leftarrow> ICMPv4_Code icmpHdr; Some (c \<noteq> 0) });
     if other then Some (ipHdr, False, None, [])
     else do {
       sourceAddr \<leftarrow> IPv4_SourceAddr ipHdr;
       destinationAddr \<leftarrow> IPv4_DestinationAddr ipHdr;
       let (action, err) = (if destinationAddr \<noteq> sy_inet4Address s then w_directNat w (sourceAddr, destinationAddr) else (False, None));
       if err = Some ErrReset then do {
         (e, effs) \<leftarrow> rejectIPv4WithICMP w s ipHdr ICMPv4HostUnreachable;
         Some (ipHdr, False, e, effs) }
       else if err = Some ErrDrop then Some (ipHdr, False, None, [])
       else if action then Some (ipHdr, False, w_actionWrite w ipHdr, [ActionWrite ipHdr])
       else do {
         ipHdr \<leftarrow> echo_reply4 ipHdr lo hi;
         Some (ipHdr, True, None, []) } } }"

definition processIPv6ICMP :: "World \<Rightarrow> System \<Rightarrow> IPv6 \<Rightarrow> nat \<Rightarrow> nat \<Rightarrow> icmp_outcome" where
  "processIPv6ICMP w s ipHdr lo hi = do {
     icmpHdr \<leftarrow> slice ipHdr lo hi;
     t \<leftarrow> ICMPv6_Type icmpHdr;
     other \<leftarrow> (if t \<noteq> ICMPv6EchoRequest then Some True else do { c \<leftarrow> ICMPv6_Code icmpHdr; Some (c \<noteq> 0) });
     if other then Some (ipHdr, False, None, [])
     else do {
       sourceAddr \<leftarrow> IPv6_SourceAddr ipHdr;
       destinationAddr \<leftarrow> IPv6_DestinationAddr ipHdr;
       let (action, err) = (if destinationAddr \<noteq> sy_inet6Address s then w_directNat w (sourceAddr, destinationAddr) else (False, None));
       if err = Some ErrReset then do {
         (e, effs) \<leftarrow> rejectIPv6WithICMP w s ipHdr ICMPv6AddressUnreachable;
         Some (ipHdr, False, e, effs) }
       else if err = Some ErrDrop then Some (ipHdr, False, None, [])
       else if action then Some (ipHdr, False, w_actionWrite w ipHdr, [ActionWrite ipHdr])
       else do {
         ipHdr \<leftarrow> echo_reply6 ipHdr lo hi;
         Some (ipHdr, True, None, []) } } }"

section \<open>The writers of the router's actions\<close>

text \<open>The fields of both writers are the headroom and the address of the client.\<close>

definition systemICMPDirectPacketWriter4_WritePacket ::
    "World \<Rightarrow> nat \<Rightarrow> Addr \<Rightarrow> bytes \<Rightarrow> (system_error option \<times> effect list) option" where
  "systemICMPDirectPacketWriter4_WritePacket w frontHeadroom source p = do {
     let h = take frontHeadroom (w_fresh w (frontHeadroom + length p));
     ipHdr \<leftarrow> IPv4_SetDestinationAddr p source;
     c \<leftarrow> IPv4_CalculateChecksum ipHdr;
     ipHdr \<leftarrow> IPv4_SetChecksum ipHdr (NOT c);
     send_packet w frontHeadroom h 4 ipHdr }"

definition systemICMPDirectPacketWriter6_WritePacket ::
    "World \<Rightarrow> nat \<Rightarrow> Addr \<Rightarrow> bytes \<Rightarrow> (system_error option \<times> effect list) option" where
  "systemICMPDirectPacketWriter6_WritePacket w frontHeadroom source p = do {
     let h = take frontHeadroom (w_fresh w (frontHeadroom + length p));
     ipHdr \<leftarrow> IPv6_SetDestinationAddr p source;
     send_packet w frontHeadroom h 6 ipHdr }"

section \<open>Messages\<close>

lemma icmp4_seal:
  assumes "4 \<le> length i"
  shows "\<exists>i'. (ICMPv4Checksum i 0 \<bind> ICMPv4_SetChecksum i) = Some i' \<and> length i' = length i \<and>
    Checksum i' 0 = Some 0xffff \<and> take 2 i' = take 2 i \<and> drop 4 i' = drop 4 i"
proof -
  let ?c = "NOT (word_of_nat (fold16 (sum16 (take 2 i) + sum16 (drop 4 i)))) :: u16"
  have "verifies 0 (i[2 := hi8 ?c, 3 := lo8 ?c])" "0 < sum16 (i[2 := hi8 ?c, 3 := lo8 ?c])"
    using icmp_fresh [OF assms, of 0] by simp_all
  then show ?thesis
    using assms Checksum_verifies [of 0] by (simp add: ICMPv4Checksum_eq icmp_fields go_simps)
qed

lemma icmp6_seal:
  assumes "4 \<le> length i"
  shows "\<exists>i'. (ICMPv6Checksum \<lparr>cp_Header = i, cp_Src = ss, cp_Dst = ds, cp_PayloadCsum = 0, cp_PayloadLen = 0\<rparr> \<bind> ICMPv6_SetChecksum i) = Some i' \<and>
    length i' = length i \<and> (PseudoHeaderChecksum ICMPv6ProtocolNumber ss ds (word_of_nat (length i)) \<bind> Checksum i') = Some 0xffff \<and>
    take 2 i' = take 2 i \<and> drop 4 i' = drop 4 i"
proof -
  let ?n = "pseudo6 ss ds (length i)"
  let ?c = "NOT (word_of_nat (fold16 (?n + sum16 (take 2 i) + sum16 (drop 4 i)))) :: u16"
  have "verifies ?n (i[2 := hi8 ?c, 3 := lo8 ?c])" using icmp_fresh(1) [OF assms, of ?n] by simp
  then have "(PseudoHeaderChecksum ICMPv6ProtocolNumber ss ds (word_of_nat (length i)) \<bind> Checksum (i[2 := hi8 ?c, 3 := lo8 ?c])) = Some 0xffff"
    by (rule Checksum_pseudo6)
  then show ?thesis
    using assms by (intro exI [of _ "i[2 := hi8 ?c, 3 := lo8 ?c]"]) (simp add: ICMPv6Checksum_eq icmp_fields go_simps)
qed

section \<open>The answer to an echo request\<close>

lemma swap4:
  assumes "20 \<le> length b"
  shows "(do { sa \<leftarrow> IPv4_SourceAddr b; d \<leftarrow> IPv4_DestinationAddr b; b \<leftarrow> IPv4_SetSourceAddr b d; IPv4_SetDestinationAddr b sa }) =
    Some (take 12 b @ take 4 (drop 16 b) @ take 4 (drop 12 b) @ drop 20 b)"
  using assms by (simp add: IPv4_SourceAddr_def IPv4_DestinationAddr_def IPv4_SetSourceAddr_def IPv4_SetDestinationAddr_def
      Addr_AsSlice_def go_simps put_slice_def)

lemma swap6:
  assumes "40 \<le> length b"
  shows "(do { sa \<leftarrow> IPv6_SourceAddr b; d \<leftarrow> IPv6_DestinationAddr b; b \<leftarrow> IPv6_SetSourceAddr b d; IPv6_SetDestinationAddr b sa }) =
    Some (take 8 b @ take 16 (drop 24 b) @ take 16 (drop 8 b) @ drop 40 b)"
  using assms by (simp add: IPv6_SourceAddr_def IPv6_DestinationAddr_def IPv6_SetSourceAddr_def IPv6_SetDestinationAddr_def
      Addr_AsSlice_def go_simps put_slice_def)

text \<open>The addresses are exchanged and nothing else changes in a header.\<close>

lemma swapped4:
  assumes "valid4 b (length b)"
  defines "e \<equiv> take 12 b @ take 4 (drop 16 b) @ take 4 (drop 12 b) @ drop 20 b"
  shows "valid4 e (length e)" "hlen4 e = hlen4 b" "tlen4 e = tlen4 b" "length e = length b" "src4 e = dst4 b" "dst4 e = src4 b"
    "drop (hlen4 b) e = drop (hlen4 b) b"
proof -
  note b = valid4D [OF assms(1)]
  show l: "length e = length b" using b by (simp add: e_def)
  have t: "take 10 e = take 10 b" using b by (simp add: e_def)
  show h: "hlen4 e = hlen4 b" "tlen4 e = tlen4 b" using header4_cong [OF t] l b by simp_all
  show "valid4 e (length e)" using header4_cong [OF t] h l b assms(1) by (simp add: valid4_def)
  show "src4 e = dst4 b" "dst4 e = src4 b" using b by (simp_all add: src4_def dst4_def e_def)
  have "drop 20 e = drop 20 b" using b by (simp add: e_def)
  then show "drop (hlen4 b) e = drop (hlen4 b) b" using b(3) by (metis drop_drop le_add_diff_inverse2)
qed

lemma swapped6:
  assumes "valid6 b (length b)"
  defines "e \<equiv> take 8 b @ take 16 (drop 24 b) @ take 16 (drop 8 b) @ drop 40 b"
  shows "valid6 e (length e)" "plen6 e = plen6 b" "length e = length b" "take 16 (drop 8 e) = take 16 (drop 24 b)"
    "take 16 (drop 24 e) = take 16 (drop 8 b)" "drop 40 e = drop 40 b"
proof -
  note b = valid6D [OF assms(1)]
  show l: "length e = length b" using b by (simp add: e_def)
  have t: "take 8 e = take 8 b" using b by (simp add: e_def)
  show h: "plen6 e = plen6 b" using header6_cong [OF t] by simp
  show "valid6 e (length e)" using header6_cong [OF t] h l b assms(1) by (simp add: valid6_def)
  show "take 16 (drop 8 e) = take 16 (drop 24 b)" "take 16 (drop 24 e) = take 16 (drop 8 b)" "drop 40 e = drop 40 b"
    using b by (simp_all add: e_def)
qed

lemma payload6:
  assumes "valid6 b (length b)" and "length s = plen6 b"
  defines "b' \<equiv> take 40 b @ s @ drop (end6 b) b"
  shows "valid6 b' (length b')" "plen6 b' = plen6 b" "length b' = length b"
    "take 16 (drop 8 b') = take 16 (drop 8 b)" "take 16 (drop 24 b') = take 16 (drop 24 b)"
    "take (plen6 b) (drop 40 b') = s"
proof -
  note b = valid6D [OF assms(1)]
  show l: "length b' = length b" using b assms(2) by (simp add: b'_def)
  have t8: "take 8 b' = take 8 b" using b by (simp add: b'_def)
  show h: "plen6 b' = plen6 b" using header6_cong [OF t8] by simp
  show "valid6 b' (length b')" using header6_cong(2) [OF t8] h l assms(1) unfolding valid6_def by simp
  show "take 16 (drop 8 b') = take 16 (drop 8 b)" "take 16 (drop 24 b') = take 16 (drop 24 b)"
    "take (plen6 b) (drop 40 b') = s"
    using b assms(2) by (simp_all add: drop_take b'_def)
qed

lemma echo4_right:
  assumes v: "valid4 b (length b)" and i: "i = take (tlen4 b - hlen4 b) (drop (hlen4 b) b)" "4 \<le> length i"
  shows "\<exists>r i'. echo_reply4 b (hlen4 b) (tlen4 b) = Some r \<and> ok4 r \<and> length r = length b \<and> src4 r = dst4 b \<and> dst4 r = src4 b \<and>
    IPv4_Payload r = Some i' \<and> length i' = length i \<and> take 2 i' = take 2 (i[0 := 0]) \<and> drop 4 i' = drop 4 i \<and> Checksum i' 0 = Some 0xffff"
proof -
  note b = valid4D [OF v]
  let ?i1 = "i[0 := 0 :: u8]" and ?w = "\<lambda>b s. take (hlen4 b) b @ s @ drop (tlen4 b) b"
  have li: "length i = tlen4 b - hlen4 b" "i \<noteq> []" using i b by auto
  define b1 where "b1 = ?w b ?i1"
  have l1: "length ?i1 = tlen4 b - hlen4 b" using li by simp
  have s1: "on_slice (hlen4 b) (tlen4 b) (\<lambda>i. ICMPv4_SetType i ICMPv4EchoReply) b = Some b1"
    using b li i(1) by (simp add: on_slice_in icmp_fields go_simps b1_def)
  note p1 = payload4 [OF v l1, folded b1_def]
  define e where "e = take 12 b1 @ take 4 (drop 16 b1) @ take 4 (drop 12 b1) @ drop 20 b1"
  note e = swapped4 [OF p1(1), folded e_def]
  have ei: "take (tlen4 b - hlen4 b) (drop (hlen4 b) e) = ?i1" using e(7) p1(2,8) by simp
  obtain i2 where i2: "(ICMPv4Checksum ?i1 0 \<bind> ICMPv4_SetChecksum ?i1) = Some i2" "length i2 = length ?i1"
      "Checksum i2 0 = Some 0xffff" "take 2 i2 = take 2 ?i1" "drop 4 i2 = drop 4 ?i1"
    using icmp4_seal [of ?i1] i(2) by auto
  have s2: "on_slice (hlen4 b) (tlen4 b) (\<lambda>i. ICMPv4Checksum i 0 \<bind> ICMPv4_SetChecksum i) e = Some (?w e i2)"
    using b e(2-4) p1(2,3,6) ei i2(1) by (simp add: on_slice_in)
  have l2: "length i2 = tlen4 e - hlen4 e" using i2(2) li e(2,3) p1(2,3) by simp
  note p2 = payload4 [OF e(1) l2]
  obtain c r where r: "IPv4_CalculateChecksum (?w e i2) = Some c" "IPv4_SetChecksum (?w e i2) (NOT c) = Some r" "ok4 r"
      "hlen4 r = hlen4 (?w e i2)" "tlen4 r = tlen4 (?w e i2)" "src4 r = src4 (?w e i2)" "dst4 r = dst4 (?w e i2)"
      "drop (hlen4 (?w e i2)) r = drop (hlen4 (?w e i2)) (?w e i2)" "length r = length (?w e i2)"
    using finish4 [OF p2(1)] by blast
  have s: "echo_reply4 b (hlen4 b) (tlen4 b) = Some r"
  proof -
    have "20 \<le> length b1" using p1(6) b(1) by simp
    note sw = swap4 [OF this, folded e_def]
    have "echo_reply4 b (hlen4 b) (tlen4 b) = (do { e \<leftarrow> (do { sa \<leftarrow> IPv4_SourceAddr b1; d \<leftarrow> IPv4_DestinationAddr b1;
        b \<leftarrow> IPv4_SetSourceAddr b1 d; IPv4_SetDestinationAddr b sa });
      f \<leftarrow> on_slice (hlen4 b) (tlen4 b) (\<lambda>i. ICMPv4Checksum i 0 \<bind> ICMPv4_SetChecksum i) e;
      c \<leftarrow> IPv4_CalculateChecksum f; IPv4_SetChecksum f (NOT c) })"
      by (simp add: echo_reply4_def s1)
    then show ?thesis by (simp add: sw s2 r(1,2))
  qed
  have "IPv4_Payload r = Some i2"
    using IPv4_Payload_eq [of r "length r"] r(3-5,8) p2(2,3,8) by (simp add: ok4_def)
  moreover have "src4 r = dst4 b" "dst4 r = src4 b" using r(6,7) p2(4,5) e(5,6) p1(4,5) by simp_all
  moreover have "length r = length b" using r(9) p2(6) e(4) p1(6) by simp
  moreover have "length i2 = length i" "drop 4 i2 = drop 4 i" using i2(2,5) by simp_all
  ultimately show ?thesis using s r(3) i2(3,4) by blast
qed

lemma echo6_right:
  assumes v: "valid6 b (length b)" and i: "i = take (plen6 b) (drop 40 b)" "4 \<le> length i"
  shows "\<exists>r i'. echo_reply6 b 40 (end6 b) = Some r \<and> valid6 r (length r) \<and> length r = length b \<and>
    take 16 (drop 8 r) = take 16 (drop 24 b) \<and> take 16 (drop 24 r) = take 16 (drop 8 b) \<and>
    IPv6_Payload r = Some i' \<and> length i' = length i \<and> take 2 i' = take 2 (i[0 := 129]) \<and> drop 4 i' = drop 4 i \<and>
    (PseudoHeaderChecksum ICMPv6ProtocolNumber (take 16 (drop 24 b)) (take 16 (drop 8 b)) (word_of_nat (length i)) \<bind> Checksum i') = Some 0xffff"
proof -
  note b = valid6D [OF v]
  let ?i1 = "i[0 := 129 :: u8]" and ?w = "\<lambda>b s. take 40 b @ s @ drop (end6 b) b"
  let ?d = "take 16 (drop 24 b)" and ?s = "take 16 (drop 8 b)"
  have li: "length i = plen6 b" "i \<noteq> []" using i b by auto
  define b1 where "b1 = ?w b ?i1"
  have l1: "length ?i1 = plen6 b" using li by simp
  have s1: "on_slice 40 (end6 b) (\<lambda>i. ICMPv6_SetType i ICMPv6EchoReply) b = Some b1"
    using b li i(1) by (simp add: on_slice_in icmp_fields go_simps b1_def)
  note p1 = payload6 [OF v l1, folded b1_def]
  define e where "e = take 8 b1 @ take 16 (drop 24 b1) @ take 16 (drop 8 b1) @ drop 40 b1"
  note e = swapped6 [OF p1(1), folded e_def]
  obtain i2 where i2: "(ICMPv6Checksum \<lparr>cp_Header = ?i1, cp_Src = ?d, cp_Dst = ?s, cp_PayloadCsum = 0, cp_PayloadLen = 0\<rparr> \<bind> ICMPv6_SetChecksum ?i1) = Some i2"
      "length i2 = length ?i1" "(PseudoHeaderChecksum ICMPv6ProtocolNumber ?d ?s (word_of_nat (length ?i1)) \<bind> Checksum i2) = Some 0xffff"
      "take 2 i2 = take 2 ?i1" "drop 4 i2 = drop 4 ?i1"
    using icmp6_seal [of ?i1 ?d ?s] i(2) by auto
  have s2: "on_slice 40 (end6 b) (\<lambda>i. ICMPv6Checksum \<lparr>cp_Header = i, cp_Src = ?d, cp_Dst = ?s, cp_PayloadCsum = 0, cp_PayloadLen = 0\<rparr> \<bind> ICMPv6_SetChecksum i) e = Some (?w e i2)"
    using b e(2,3,6) p1(2,3,6) i2(1) by (simp add: on_slice_in)
  have l2: "length i2 = plen6 e" using i2(2) li e(2) p1(2) by simp
  note p2 = payload6 [OF e(1) l2]
  have s: "echo_reply6 b 40 (end6 b) = Some (?w e i2)"
  proof -
    have "40 \<le> length b1" using p1(3) b by simp
    note sw = swap6 [OF this, folded e_def]
    have sl: "IPv6_SourceAddressSlice e = Some ?d" "IPv6_DestinationAddressSlice e = Some ?s"
      using e(3,4,5) p1(3,4,5) b by (simp_all add: IPv6_SourceAddressSlice_def IPv6_DestinationAddressSlice_def go_simps)
    have "echo_reply6 b 40 (end6 b) = (do { e \<leftarrow> (do { sa \<leftarrow> IPv6_SourceAddr b1; d \<leftarrow> IPv6_DestinationAddr b1;
        b \<leftarrow> IPv6_SetSourceAddr b1 d; IPv6_SetDestinationAddr b sa });
      ss \<leftarrow> IPv6_SourceAddressSlice e; ds \<leftarrow> IPv6_DestinationAddressSlice e;
      on_slice 40 (end6 b) (\<lambda>i. ICMPv6Checksum \<lparr>cp_Header = i, cp_Src = ss, cp_Dst = ds, cp_PayloadCsum = 0, cp_PayloadLen = 0\<rparr> \<bind> ICMPv6_SetChecksum i) e })"
      by (simp add: echo_reply6_def s1)
    then show ?thesis by (simp add: sw sl s2)
  qed
  have "IPv6_Payload (?w e i2) = Some i2" using IPv6_Payload_eq [OF p2(1) order_refl] p2(2,6) by simp
  moreover have "length (?w e i2) = length b" using p2(3) e(3) p1(3) by (rule trans [OF trans])
  moreover have "take 16 (drop 8 (?w e i2)) = ?d" "take 16 (drop 24 (?w e i2)) = ?s"
    unfolding p2(4,5) e(4,5) p1(4,5) by (rule refl)+
  moreover have "length i2 = length i" "drop 4 i2 = drop 4 i" using i2(2,5) by simp_all
  moreover have "(PseudoHeaderChecksum ICMPv6ProtocolNumber ?d ?s (word_of_nat (length i)) \<bind> Checksum i2) = Some 0xffff"
    using i2(3) by simp
  ultimately show ?thesis using s p2(1) i2(4) by blast
qed

section \<open>The message of a rejection\<close>

lemma eight_bytes:
  assumes "length i = 8 + n"
  shows "\<exists>a b c d e f g h t. i = a # b # c # d # e # f # g # h # t \<and> length t = n"
  using assms by (auto simp: length_Suc_conv numeral_eq_Suc)

lemma unreachable4:
  assumes "length i = 8 + length pay"
  shows "\<exists>g x. length g = 4 \<and> x = NOT (word_of_nat (fold16 (unat pc + unat (be16 3 code) + sum16 g))) \<and>
    (do { i \<leftarrow> ICMPv4_SetType i ICMPv4DstUnreachable; i \<leftarrow> ICMPv4_SetCode i code; m \<leftarrow> slice i 0 8;
       x \<leftarrow> ICMPv4Checksum m pc; i \<leftarrow> ICMPv4_SetChecksum i x; copy_into 8 (length i) pay i }) =
    Some ([3, code, hi8 x, lo8 x] @ g @ pay)"
proof -
  obtain a b c d e f g h t where i: "i = a # b # c # d # e # f # g # h # t" "length t = length pay"
    using eight_bytes [OF assms] by blast
  then show ?thesis
    by (intro exI [of _ "[e, f, g, h]"]) (simp add: icmp_fields go_simps ICMPv4Checksum_eq put_slice_def add.assoc)
qed

lemma unreachable6:
  assumes "length i = 8 + length pay"
  shows "\<exists>g x. length g = 4 \<and> x = NOT (word_of_nat (fold16 (pseudo6 ss ds (8 + length pay) + unat pc + unat (be16 1 code) + sum16 g))) \<and>
    (do { i \<leftarrow> ICMPv6_SetType i ICMPv6DstUnreachable; i \<leftarrow> ICMPv6_SetCode i code; m \<leftarrow> slice i 0 8;
       x \<leftarrow> ICMPv6Checksum \<lparr>cp_Header = m, cp_Src = ss, cp_Dst = ds, cp_PayloadCsum = pc, cp_PayloadLen = length pay\<rparr>;
       i \<leftarrow> ICMPv6_SetChecksum i x; copy_into 8 (length i) pay i }) =
    Some ([1, code, hi8 x, lo8 x] @ g @ pay)"
proof -
  obtain a b c d e f g h t where i: "i = a # b # c # d # e # f # g # h # t" "length t = length pay"
    using eight_bytes [OF assms] by blast
  have "pseudo6 ss ds (Suc (Suc (Suc (Suc (Suc (Suc (Suc (Suc (length pay))))))))) = pseudo6 ss ds (8 + length pay)"
    by (rule arg_cong) simp
  then show ?thesis
    using i by (intro exI [of _ "[e, f, g, h]"]) (simp add: icmp_fields go_simps ICMPv6Checksum_eq put_slice_def add.assoc)
qed

text \<open>
  The sum of the finished message: the stored checksum cancels everything it was computed from, so what
  is left is the difference between what was summed (\<open>n\<close>) and what was copied.
\<close>

lemma message_sum:
  fixes x :: u16
  assumes "x = NOT (word_of_nat (fold16 (n + unat (be16 t code) + sum16 g)))" and "length g = 4"
  shows "cong16 (n + sum16 ([t, code, hi8 x, lo8 x] @ g @ pay)) (sum16 pay)"
proof -
  let ?k = "n + unat (be16 t code) + sum16 g"
  have u: "unat (word_of_nat (fold16 ?k) :: u16) = fold16 ?k" by (rule unat_of_nat_u16) simp
  have e: "n + sum16 ([t, code, hi8 x, lo8 x] @ g @ pay) = ?k + unat x + sum16 pay"
    using sum16_append [of g pay] assms(2) by simp
  have "cong16 (?k + unat x) 0"
  proof -
    have "cong16 (?k + unat x) (fold16 ?k + unat x)" by (rule cong16_add [OF cong16_sym [OF cong16_fold16] cong16_refl])
    moreover have "fold16 ?k + unat x = 65535" using NOT16_plus [of "word_of_nat (fold16 ?k)"] u assms(1) by simp
    ultimately show ?thesis by (simp add: cong16_def)
  qed
  from cong16_add [OF this cong16_refl] show ?thesis unfolding e by (simp only: add_0_left)
qed

lemma reject4_checksum:
  assumes v: "valid4 b (length b)" "tlen4 b = length b" and g: "length g = 4"
    and x: "x = NOT (word_of_nat (fold16 (unat (rfc1071 (drop (hlen4 b) b) 0) + unat (be16 3 code) + sum16 g)))"
  shows "Checksum ([3, code, hi8 x, lo8 x] @ g @ b) 0 = Some 0xffff \<longleftrightarrow> IPv4_IsChecksumValid b = Some True"
proof -
  note b = valid4D [OF v(1)]
  let ?i = "[3, code, hi8 x, lo8 x] @ g @ b" and ?pl = "sum16 (drop (hlen4 b) b)" and ?h = "sum16 (take (hlen4 b) b)"
  have pc: "unat (rfc1071 (drop (hlen4 b) b) 0) = fold16 ?pl" by (simp add: rfc1071_def unat_of_nat_u16)
  have "cong16 (?pl + sum16 ?i) (fold16 ?pl + sum16 ?i)" by (rule cong16_add [OF cong16_sym [OF cong16_fold16] cong16_refl])
  then have "cong16 (?pl + sum16 ?i) (sum16 b)" using message_sum [OF x g, of b] unfolding pc by (rule cong16_trans)
  moreover have "sum16 b = ?h + ?pl" using sum16_take_drop [of "hlen4 b" b] hlen4_even [of b] b v(2) by simp
  ultimately have c: "cong16 (sum16 ?i) ?h" using cong16_cancel [of "sum16 ?i" ?pl ?h] by (simp add: add.commute)
  have "0 < ?h"
  proof -
    have "b ! 0 \<noteq> 0" using b(6) by auto
    then show ?thesis using sum16_pos [of "take (hlen4 b) b"] b by simp
  qed
  moreover have "0 < sum16 ?i" by simp
  ultimately show ?thesis
    using c b v IPv4_IsChecksumValid_eq [of b]
    by (simp add: rfc1071_valid_iff cong16_def flip: mod_eq_0_iff_dvd)
qed

lemma reject4_right:
  assumes w: "world_ok w" and v: "valid4 b (length b)"
    and m: "int (length b) + 16 \<le> min (sy_mtu s) 556"
  shows "returns (rejectIPv4WithICMP w s b code) (wrote w (sy_frontHeadroom s) (\<lambda>p. ok4 p \<and>
    src4 p = dst4 b \<and> dst4 p = src4 b \<and> p ! 9 = 1 \<and> returns (IPv4_Payload p) (\<lambda>i. ICMPv4_Type i = Some 3 \<and>
      ICMPv4_Code i = Some code \<and> ICMPv4_Payload i = Some b \<and>
      (tlen4 b = length b \<longrightarrow> (Checksum i 0 = Some 0xffff \<longleftrightarrow> IPv4_IsChecksumValid b = Some True)))))"
proof -
  note b = valid4D [OF v(1)]
  let ?fh = "sy_frontHeadroom s + w_PacketOffset w" and ?n = "length b" and ?y = "take 4 (drop 16 b)" and ?x = "take 4 (drop 12 b)"
  define nb where "nb = w_fresh w (?fh + 20 + 8 + ?n)"
  have nb: "length nb = ?fh + 20 + 8 + ?n" using w by (simp add: world_ok_def nb_def)
  let ?b0 = "drop ?fh nb"
  let ?i = "\<lparr>f4_TOS = 0, f4_TotalLength = word_of_nat (length ?b0), f4_ID = 0, f4_Flags = 0, f4_FragmentOffset = 0,
    f4_TTL = 0, f4_Protocol = 1, f4_Checksum = 0, f4_SrcAddr = Addr4 ?y, f4_DstAddr = Addr4 ?x, f4_Options = []\<rparr>"
  have l0: "20 \<le> length ?b0" "length ?b0 < 65536" "length ?b0 = 28 + ?n" using nb m by simp_all
  obtain e where e: "IPv4_Encode ?b0 ?i = Some e" "valid4 e (length e)" "hlen4 e = 20" "tlen4 e = length ?b0" "length e = length ?b0"
      "take 4 (drop 12 e) = ?y" "take 4 (drop 16 e) = ?x" "e ! 9 = 1"
    using encode_plain4 [OF l0(1,2), of ?i ?y ?x] b(1) by auto
  obtain c f where f: "IPv4_CalculateChecksum e = Some c" "IPv4_SetChecksum e (NOT c) = Some f" "ok4 f"
      "hlen4 f = hlen4 e" "tlen4 f = tlen4 e" "src4 f = src4 e" "dst4 f = dst4 e" "length f = length e" "f ! 9 = e ! 9"
    using finish4 [OF e(2)] by blast
  have fv: "valid4 f (length f)" and fk: "rfc1071 (take (hlen4 f) f) 0 = 0xffff" using f(3) by (simp_all add: ok4_def)
  let ?pl = "take (tlen4 b - hlen4 b) (drop (hlen4 b) b)"
  let ?pc = "rfc1071 ?pl 0"
  have win: "payload_window4 f = Some (20, 28 + ?n)" using payload_window4_eq [OF fv] f(4,5) e(3,4) l0(3) by simp
  have pl: "IPv4_Payload b = Some ?pl" "Checksum ?pl 0 = Some ?pc" using IPv4_Payload_eq [OF v order_refl] by simp_all
  have dl: "length (drop 20 f) = 8 + length b" "length (take 20 f) = 20" using f(8) e(5) l0(3) by simp_all
  obtain g x where g: "length g = 4" "x = NOT (word_of_nat (fold16 (unat ?pc + unat (be16 3 code) + sum16 g)))"
    "(do { i \<leftarrow> ICMPv4_SetType (drop 20 f) ICMPv4DstUnreachable; i \<leftarrow> ICMPv4_SetCode i code; m \<leftarrow> slice i 0 8;
       x \<leftarrow> ICMPv4Checksum m ?pc; i \<leftarrow> ICMPv4_SetChecksum i x; copy_into 8 (length i) b i }) = Some ([3, code, hi8 x, lo8 x] @ g @ b)"
    using unreachable4 [OF dl(1), of ?pc code] by blast
  define i where "i = [3, code, hi8 x, lo8 x] @ g @ b"
  define p where "p = take 20 f @ i"
  have il: "length i = 8 + ?n" using g(1) by (simp add: i_def)
  have il': "length i = tlen4 f - hlen4 f" "take 20 f @ i @ drop (tlen4 f) f = p" "hlen4 f = 20"
    using il f(4,5,8) e(3-5) l0(3) by (simp_all add: p_def)
  note pay = payload4 [OF fv il'(1), unfolded il'(3) il'(2)]
  have "take 20 p = take 20 f" using dl(2) by (simp add: p_def)
  then have ok: "ok4 p" using pay(1,2) fk il'(3) by (simp add: ok4_def)
  have pp: "IPv4_Payload p = Some i" using IPv4_Payload_eq [OF pay(1) order_refl] pay(2,3,8) by simp
  have ii: "ICMPv4_Type i = Some 3" "ICMPv4_Code i = Some code" "ICMPv4_Payload i = Some b"
    using g(1) by (simp_all add: i_def icmp_fields go_simps)
  have ck: "Checksum i 0 = Some 0xffff \<longleftrightarrow> IPv4_IsChecksumValid b = Some True" if "tlen4 b = length b"
    using reject4_checksum [OF v that g(1), of x code] g(2) that by (simp add: i_def)
  have sd: "src4 p = dst4 b" "dst4 p = src4 b" "p ! 9 = 1"
    using pay(4,5,9) f(6,7,9) e(6-8) by (simp_all add: src4_def dst4_def)
  have h: "w_PacketOffset w \<le> length (take ?fh nb)" "w_PacketOffset w = 0 \<Longrightarrow> length (take ?fh nb) = sy_frontHeadroom s"
    using nb by simp_all
  obtain pre where pre: "length pre = (if w_PacketOffset w = 0 then sy_frontHeadroom s else 4)"
      "send_packet w (sy_frontHeadroom s) (take ?fh nb) 4 p = Some (w_tunWrite w (pre @ p), [TunWrite (pre @ p)])"
    using send_packet_right [OF w h, of 4 p] by blast
  have sl: "slice nb ?fh (?fh + 20 + 8 + ?n) = Some ?b0" using nb by (simp add: slice_in)
  have ad: "IPv4_DestinationAddr b = Some (Addr4 ?y)" "IPv4_SourceAddr b = Some (Addr4 ?x)"
    using b(1) by (simp_all add: IPv4_SourceAddr_def IPv4_DestinationAddr_def go_simps)
  have os: "on_slice 20 (28 + ?n) (\<lambda>i. do { i \<leftarrow> ICMPv4_SetType i ICMPv4DstUnreachable; i \<leftarrow> ICMPv4_SetCode i code; m \<leftarrow> slice i 0 8;
       x \<leftarrow> ICMPv4Checksum m ?pc; i \<leftarrow> ICMPv4_SetChecksum i x; copy_into 8 (length i) b i }) f = Some p"
    using on_slice_tail [OF dl(2), of "28 + ?n" "drop 20 f"] dl(1) g(3) by (simp add: p_def i_def)
  let ?a = "(if sy_mtu s > 576 - 20 then 576 - 20 else sy_mtu s) - 8"
  have a: "\<not> ?a < int ?n + 8" "\<not> int ?n > ?a" using m by auto
  have "rejectIPv4WithICMP w s b code = Some (w_tunWrite w (pre @ p), [TunWrite (pre @ p)])"
    unfolding rejectIPv4WithICMP_def Let_def if_not_P [OF a(1)] if_not_P [OF a(2)] bind.bind_lunit nb_def [symmetric]
      sl ad e(1) f(1,2) win prod.case pl os pre(2) by (rule refl)
  then show ?thesis using wroteI [OF pre(1)] ok sd pp ii ck by simp
qed

lemma reject6_checksum:
  assumes g: "length g = 4"
    and x: "x = NOT (word_of_nat (fold16 (pseudo6 ss ds (8 + length pay) + unat (rfc1071 pay 0) + unat (be16 1 code) + sum16 g)))"
  shows "(PseudoHeaderChecksum ICMPv6ProtocolNumber ss ds (word_of_nat (8 + length pay)) \<bind> Checksum ([1, code, hi8 x, lo8 x] @ g @ pay)) = Some 0xffff"
proof (rule Checksum_pseudo6)
  let ?i = "[1, code, hi8 x, lo8 x] @ g @ pay" and ?n = "pseudo6 ss ds (8 + length pay)"
  have pc: "unat (rfc1071 pay 0) = fold16 (sum16 pay)" by (simp add: rfc1071_def unat_of_nat_u16)
  have "cong16 (sum16 pay + (?n + sum16 ?i)) (fold16 (sum16 pay) + (?n + sum16 ?i))"
    by (rule cong16_add [OF cong16_sym [OF cong16_fold16] cong16_refl])
  moreover have "cong16 (?n + fold16 (sum16 pay) + sum16 ?i) (sum16 pay)"
    using message_sum [OF x g, of pay] unfolding pc .
  ultimately have "cong16 (sum16 pay + (?n + sum16 ?i)) (sum16 pay)"
    using cong16_trans [of "sum16 pay + (?n + sum16 ?i)" "?n + fold16 (sum16 pay) + sum16 ?i" "sum16 pay"]
    by (simp only: ac_simps)
  then have "cong16 (?n + sum16 ?i) 0"
    using cong16_cancel [of "?n + sum16 ?i" "sum16 pay" 0] by (simp only: add.commute [of "sum16 pay"] add_0_left)
  then show "verifies ?n ?i" by (simp add: verifies_def cong16_def dvd_eq_mod_eq_0)
qed

lemma reject6_right:
  assumes w: "world_ok w" and v: "valid6 b (length b)" and m: "48 \<le> sy_mtu s"
  defines "pay \<equiv> take (nat (min (sy_mtu s) 1240 - 8)) b"
  shows "returns (rejectIPv6WithICMP w s b code) (wrote w (sy_frontHeadroom s) (\<lambda>p. valid6 p (length p) \<and>
    take 16 (drop 8 p) = take 16 (drop 24 b) \<and> take 16 (drop 24 p) = take 16 (drop 8 b) \<and> p ! 6 = 58 \<and>
    returns (IPv6_Payload p) (\<lambda>i. ICMPv6_Type i = Some 1 \<and> ICMPv6_Code i = Some code \<and> ICMPv6_Payload i = Some pay \<and>
      (PseudoHeaderChecksum ICMPv6ProtocolNumber (take 16 (drop 24 b)) (take 16 (drop 8 b)) (word_of_nat (length i)) \<bind> Checksum i) = Some 0xffff)))"
proof -
  note b = valid6D [OF v]
  let ?fh = "sy_frontHeadroom s + w_PacketOffset w" and ?n = "length pay" and ?y = "take 16 (drop 24 b)" and ?x = "take 16 (drop 8 b)"
  have pn: "?n \<le> 1232" unfolding pay_def by simp
  define nb where "nb = w_fresh w (?fh + 40 + 8 + ?n)"
  have nb: "length nb = ?fh + 40 + 8 + ?n" using w by (simp add: world_ok_def nb_def)
  let ?b0 = "drop ?fh nb"
  let ?i = "\<lparr>f6_TrafficClass = 0, f6_FlowLabel = 0, f6_PayloadLength = word_of_nat (8 + ?n),
    f6_TransportProtocol = ICMPv6ProtocolNumber, f6_HopLimit = 0, f6_SrcAddr = Addr16 ?y, f6_DstAddr = Addr16 ?x, f6_ExtensionHeaders = []\<rparr>"
  have l0: "40 \<le> length ?b0" "length ?b0 < 65536 + 40" "length ?b0 - 40 = 8 + ?n" using nb pn by simp_all
  obtain e where e: "IPv6_Encode ?b0 ?i = Some e" "valid6 e (length e)" "plen6 e = 8 + ?n" "length e = length ?b0"
      "take 16 (drop 8 e) = ?y" "take 16 (drop 24 e) = ?x" "e ! 6 = 58"
    using encode_plain6 [OF l0(1,2), of ?i ?y ?x] b(1) unfolding l0(3) by auto
  have le: "length e = 48 + ?n" using e(4) nb by simp
  have win: "payload_window6 e = Some (40, 48 + ?n)" using payload_window6_eq [OF e(2)] e(3) by simp
  have sd: "IPv6_SourceAddressSlice e = Some ?y" "IPv6_DestinationAddressSlice e = Some ?x"
    using e(5,6) le by (simp_all add: IPv6_SourceAddressSlice_def IPv6_DestinationAddressSlice_def go_simps)
  have dl: "length (drop 40 e) = 8 + ?n" "length (take 40 e) = 40" using le by simp_all
  let ?pc = "rfc1071 pay 0"
  obtain g x where g: "length g = 4" "x = NOT (word_of_nat (fold16 (pseudo6 ?y ?x (8 + ?n) + unat ?pc + unat (be16 1 code) + sum16 g)))"
    "(do { i \<leftarrow> ICMPv6_SetType (drop 40 e) ICMPv6DstUnreachable; i \<leftarrow> ICMPv6_SetCode i code; m \<leftarrow> slice i 0 8;
       x \<leftarrow> ICMPv6Checksum \<lparr>cp_Header = m, cp_Src = ?y, cp_Dst = ?x, cp_PayloadCsum = ?pc, cp_PayloadLen = ?n\<rparr>;
       i \<leftarrow> ICMPv6_SetChecksum i x; copy_into 8 (length i) pay i }) = Some ([1, code, hi8 x, lo8 x] @ g @ pay)"
    using unreachable6 [OF dl(1), of ?y ?x ?pc code] by blast
  define i where "i = [1, code, hi8 x, lo8 x] @ g @ pay"
  define p where "p = take 40 e @ i"
  have il: "length i = 8 + ?n" "length i = plen6 e" "take 40 e @ i @ drop (end6 e) e = p"
    using g(1) e(3) le by (simp_all add: i_def p_def)
  note pp = payload6 [OF e(2) il(2), unfolded il(3)]
  have ip: "IPv6_Payload p = Some i" using IPv6_Payload_eq [OF pp(1) order_refl] pp(2,6) by simp
  have ii: "ICMPv6_Type i = Some 1" "ICMPv6_Code i = Some code" "ICMPv6_Payload i = Some pay" "p ! 6 = 58"
    using g(1) e(7) dl(2) by (simp_all add: i_def p_def icmp_fields go_simps nth_append)
  note ck = reject6_checksum [OF g(1,2), folded i_def, folded il(1)]
  have h: "w_PacketOffset w \<le> length (take ?fh nb)" "w_PacketOffset w = 0 \<Longrightarrow> length (take ?fh nb) = sy_frontHeadroom s"
    using nb by simp_all
  obtain pre where pre: "length pre = (if w_PacketOffset w = 0 then sy_frontHeadroom s else 4)"
      "send_packet w (sy_frontHeadroom s) (take ?fh nb) 6 p = Some (w_tunWrite w (pre @ p), [TunWrite (pre @ p)])"
    using send_packet_right [OF w h, of 6 p] by blast
  have sl: "slice nb ?fh (?fh + 40 + 8 + ?n) = Some ?b0" using nb by (simp add: slice_in)
  have ad: "IPv6_DestinationAddr b = Some (Addr16 ?y)" "IPv6_SourceAddr b = Some (Addr16 ?x)"
    using b(1) by (simp_all add: IPv6_SourceAddr_def IPv6_DestinationAddr_def go_simps)
  have pc: "Checksum pay 0 = Some ?pc" by simp
  have os: "on_slice 40 (48 + ?n) (\<lambda>i. do { i \<leftarrow> ICMPv6_SetType i ICMPv6DstUnreachable; i \<leftarrow> ICMPv6_SetCode i code; m \<leftarrow> slice i 0 8;
       x \<leftarrow> ICMPv6Checksum \<lparr>cp_Header = m, cp_Src = ?y, cp_Dst = ?x, cp_PayloadCsum = ?pc, cp_PayloadLen = ?n\<rparr>;
       i \<leftarrow> ICMPv6_SetChecksum i x; copy_into 8 (length i) pay i }) e = Some p"
    using on_slice_tail [OF dl(2), of "48 + ?n" "drop 40 e"] dl(1) g(3) by (simp add: p_def i_def)
  let ?a = "(if sy_mtu s > 1280 - 40 then 1280 - 40 else sy_mtu s) - 8"
  have a: "\<not> ?a < 40" "(if int (length b) > ?a then slice b 0 (nat ?a) else Some b) = Some pay"
    using m by (auto simp: pay_def slice_in min_def)
  have "rejectIPv6WithICMP w s b code = Some (w_tunWrite w (pre @ p), [TunWrite (pre @ p)])"
    unfolding rejectIPv6WithICMP_def Let_def if_not_P [OF a(1)] a(2) bind.bind_lunit nb_def [symmetric]
      sl ad e(1) win prod.case sd pc os pre(2) by (rule refl)
  then show ?thesis using wroteI [OF pre(1)] pp(1) pp(4) [unfolded e(5)] pp(5) [unfolded e(6)] ip ii ck by simp
qed

section \<open>Properties\<close>

lemma request4:
  assumes "IPv4_IsValid b (length b) = Some True" and "IPv4_Payload b = Some i"
    and "ICMPv4_Type i = Some 8" and "ICMPv4_Code i = Some 0" and "IPv4_SourceAddr b = Some sa" and "IPv4_DestinationAddr b = Some da"
  shows "valid4 b (length b)" "i = take (tlen4 b - hlen4 b) (drop (hlen4 b) b)" "payload_window4 b = Some (hlen4 b, tlen4 b)"
    and "sa = Addr4 (take 4 (drop 12 b))" "da = Addr4 (take 4 (drop 16 b))"
    and "processIPv4ICMP w s b (hlen4 b) (tlen4 b) =
      (let (action, err) = (if da \<noteq> sy_inet4Address s then w_directNat w (sa, da) else (False, None)) in
       if err = Some ErrReset then do { (e, effs) \<leftarrow> rejectIPv4WithICMP w s b ICMPv4HostUnreachable; Some (b, False, e, effs) }
       else if err = Some ErrDrop then Some (b, False, None, [])
       else if action then Some (b, False, w_actionWrite w b, [ActionWrite b])
       else do { r \<leftarrow> echo_reply4 b (hlen4 b) (tlen4 b); Some (r, True, None, []) })"
proof -
  show v: "valid4 b (length b)" using assms(1) by (simp add: IPv4_IsValid_eq)
  note b = valid4D [OF v]
  show i: "i = take (tlen4 b - hlen4 b) (drop (hlen4 b) b)" using IPv4_Payload_eq [OF v order_refl] assms(2) by simp
  show "payload_window4 b = Some (hlen4 b, tlen4 b)" by (rule payload_window4_eq [OF v])
  show "sa = Addr4 (take 4 (drop 12 b))" "da = Addr4 (take 4 (drop 16 b))"
    using assms(5,6) b(1) by (simp_all add: IPv4_SourceAddr_def IPv4_DestinationAddr_def go_simps)
  have "slice b (hlen4 b) (tlen4 b) = Some i" using b i by (simp add: slice_in)
  then show "processIPv4ICMP w s b (hlen4 b) (tlen4 b) =
      (let (action, err) = (if da \<noteq> sy_inet4Address s then w_directNat w (sa, da) else (False, None)) in
       if err = Some ErrReset then do { (e, effs) \<leftarrow> rejectIPv4WithICMP w s b ICMPv4HostUnreachable; Some (b, False, e, effs) }
       else if err = Some ErrDrop then Some (b, False, None, [])
       else if action then Some (b, False, w_actionWrite w b, [ActionWrite b])
       else do { r \<leftarrow> echo_reply4 b (hlen4 b) (tlen4 b); Some (r, True, None, []) })"
    using assms(3-6) by (simp add: processIPv4ICMP_def)
qed

lemma request6:
  assumes "IPv6_IsValid b (length b) = Some True" and "IPv6_Payload b = Some i"
    and "ICMPv6_Type i = Some 128" and "ICMPv6_Code i = Some 0" and "IPv6_SourceAddr b = Some sa" and "IPv6_DestinationAddr b = Some da"
  shows "valid6 b (length b)" "i = take (plen6 b) (drop 40 b)" "payload_window6 b = Some (40, end6 b)"
    and "sa = Addr16 (take 16 (drop 8 b))" "da = Addr16 (take 16 (drop 24 b))"
    and "processIPv6ICMP w s b 40 (end6 b) =
      (let (action, err) = (if da \<noteq> sy_inet6Address s then w_directNat w (sa, da) else (False, None)) in
       if err = Some ErrReset then do { (e, effs) \<leftarrow> rejectIPv6WithICMP w s b ICMPv6AddressUnreachable; Some (b, False, e, effs) }
       else if err = Some ErrDrop then Some (b, False, None, [])
       else if action then Some (b, False, w_actionWrite w b, [ActionWrite b])
       else do { r \<leftarrow> echo_reply6 b 40 (end6 b); Some (r, True, None, []) })"
proof -
  show v: "valid6 b (length b)" using assms(1) by (simp add: IPv6_IsValid_eq)
  note b = valid6D [OF v]
  show i: "i = take (plen6 b) (drop 40 b)" using IPv6_Payload_eq [OF v order_refl] assms(2) by simp
  show "payload_window6 b = Some (40, end6 b)" by (rule payload_window6_eq [OF v])
  show "sa = Addr16 (take 16 (drop 8 b))" "da = Addr16 (take 16 (drop 24 b))"
    using assms(5,6) b by (simp_all add: IPv6_SourceAddr_def IPv6_DestinationAddr_def go_simps)
  have "slice b 40 (end6 b) = Some i" using b i by (simp add: slice_in)
  then show "processIPv6ICMP w s b 40 (end6 b) =
      (let (action, err) = (if da \<noteq> sy_inet6Address s then w_directNat w (sa, da) else (False, None)) in
       if err = Some ErrReset then do { (e, effs) \<leftarrow> rejectIPv6WithICMP w s b ICMPv6AddressUnreachable; Some (b, False, e, effs) }
       else if err = Some ErrDrop then Some (b, False, None, [])
       else if action then Some (b, False, w_actionWrite w b, [ActionWrite b])
       else do { r \<leftarrow> echo_reply6 b 40 (end6 b); Some (r, True, None, []) })"
    using assms(3-6) by (simp add: processIPv6ICMP_def)
qed

text \<open>The parts of a packet a receiver of an ICMP message looks at.\<close>

definition icmp_delivers4 :: "Addr \<Rightarrow> Addr \<Rightarrow> (bytes \<Rightarrow> bool) \<Rightarrow> IPv4 \<Rightarrow> bool" where
  "icmp_delivers4 sa da Q r \<longleftrightarrow> IPv4_IsValid r (length r) = Some True \<and> IPv4_IsChecksumValid r = Some True \<and>
     IPv4_SourceAddr r = Some sa \<and> IPv4_DestinationAddr r = Some da \<and> returns (IPv4_Payload r) Q"

definition icmp_delivers6 :: "Addr \<Rightarrow> Addr \<Rightarrow> (bytes \<Rightarrow> bool) \<Rightarrow> IPv6 \<Rightarrow> bool" where
  "icmp_delivers6 sa da Q r \<longleftrightarrow> IPv6_IsValid r (length r) = Some True \<and>
     IPv6_SourceAddr r = Some sa \<and> IPv6_DestinationAddr r = Some da \<and> returns (IPv6_Payload r) (\<lambda>i. Q i \<and>
       returns (do { s \<leftarrow> IPv6_SourceAddressSlice r; d \<leftarrow> IPv6_DestinationAddressSlice r;
         ph \<leftarrow> PseudoHeaderChecksum ICMPv6ProtocolNumber s d (word_of_nat (length i)); Checksum i ph }) (\<lambda>c. c = 0xffff))"

lemma delivers4I:
  assumes "ok4 r" "src4 r = AddrFrom4 x" "length x = 4" "dst4 r = AddrFrom4 y" "length y = 4" "IPv4_Payload r = Some i" "Q i"
  shows "icmp_delivers4 (Addr4 x) (Addr4 y) Q r"
proof -
  have v: "valid4 r (length r)" "rfc1071 (take (hlen4 r) r) 0 = 0xffff" using assms(1) by (simp_all add: ok4_def)
  note b = valid4D [OF v(1)]
  have "take 4 (drop 12 r) = x" "take 4 (drop 16 r) = y"
    using assms(2-5) AddrFrom4_wf [of x] AddrFrom4_wf [of y] AddrFrom4_wf [of "take 4 (drop 12 r)"] AddrFrom4_wf [of "take 4 (drop 16 r)"]
      b(1) by (auto simp: src4_def dst4_def)
  then show ?thesis
    using v b assms(6,7) by (simp add: icmp_delivers4_def IPv4_IsValid_eq IPv4_IsChecksumValid_eq IPv4_SourceAddr_def
        IPv4_DestinationAddr_def go_simps)
qed

lemma delivers6I:
  assumes "valid6 r (length r)" "take 16 (drop 8 r) = x" "take 16 (drop 24 r) = y" "IPv6_Payload r = Some i" "Q i"
    and "(PseudoHeaderChecksum ICMPv6ProtocolNumber x y (word_of_nat (length i)) \<bind> Checksum i) = Some 0xffff"
  shows "icmp_delivers6 (Addr16 x) (Addr16 y) Q r"
  using assms(1-5) valid6D [OF assms(1)] assms(6) [folded returns_eq]
  by (simp add: icmp_delivers6_def IPv6_IsValid_eq IPv6_SourceAddr_def IPv6_DestinationAddr_def IPv6_SourceAddressSlice_def
      IPv6_DestinationAddressSlice_def go_simps)

lemma first_two:
  assumes "take 2 i' = take 2 (i[0 := t])" and "4 \<le> length i"
  shows "i' ! 0 = t" and "i' ! 1 = i ! 1"
proof -
  have "i \<noteq> []" using assms(2) by auto
  then show "i' ! 0 = t" using arg_cong [OF assms(1), of "\<lambda>x. x ! 0"] by simp
  show "i' ! 1 = i ! 1" using arg_cong [OF assms(1), of "\<lambda>x. x ! 1"] by simp
qed

text \<open>
  C10. Echo requests are answered. A valid packet with an echo request for the address of the stack, or for an
  address the router has no action and no error for, becomes the packet that is written back: a valid
  packet from the address asked to the one that asked, with right checksums and an echo reply whose
  identifier, sequence number and data are those of the request. For ICMPv4 and ICMPv6.
\<close>

theorem ICMP_echo:
  assumes "IPv4_IsValid b (length b) = Some True" and "IPv4_Payload b = Some i" and "4 \<le> length i"
    and "ICMPv4_Type i = Some 8" and "ICMPv4_Code i = Some 0" and "IPv4_SourceAddr b = Some sa" and "IPv4_DestinationAddr b = Some da"
    and "da = sy_inet4Address s \<or> w_directNat w (sa, da) = (False, None)"
    and "IPv6_IsValid c (length c) = Some True" and "IPv6_Payload c = Some j" and "4 \<le> length j"
    and "ICMPv6_Type j = Some 128" and "ICMPv6_Code j = Some 0" and "IPv6_SourceAddr c = Some sa'" and "IPv6_DestinationAddr c = Some da'"
    and "da' = sy_inet6Address s \<or> w_directNat w (sa', da') = (False, None)"
  shows "returns (do { (lo, hi) \<leftarrow> payload_window4 b; processIPv4ICMP w s b lo hi }) (\<lambda>(r, writeBack, err, effs).
      writeBack \<and> err = None \<and> effs = [] \<and> icmp_delivers4 da sa (\<lambda>i'. ICMPv4_Type i' = Some 0 \<and> ICMPv4_Code i' = Some 0 \<and>
        drop 4 i' = drop 4 i \<and> Checksum i' 0 = Some 0xffff) r) \<and>
    returns (do { (lo, hi) \<leftarrow> payload_window6 c; processIPv6ICMP w s c lo hi }) (\<lambda>(r, writeBack, err, effs).
      writeBack \<and> err = None \<and> effs = [] \<and> icmp_delivers6 da' sa' (\<lambda>j'. ICMPv6_Type j' = Some 129 \<and> ICMPv6_Code j' = Some 0 \<and>
        drop 4 j' = drop 4 j) r)"
proof (rule conjI)
  note q = request4 [OF assms(1,2,4-7)]
  obtain r i' where r: "echo_reply4 b (hlen4 b) (tlen4 b) = Some r" "ok4 r" "src4 r = dst4 b" "dst4 r = src4 b"
      "IPv4_Payload r = Some i'" "length i' = length i" "take 2 i' = take 2 (i[0 := 0])" "drop 4 i' = drop 4 i" "Checksum i' 0 = Some 0xffff"
    using echo4_right [OF q(1,2) assms(3)] by blast
  note first_two [OF r(7) assms(3)]
  then have "ICMPv4_Type i' = Some 0" "ICMPv4_Code i' = Some 0"
    using r(6) assms(3,5) by (auto simp: icmp_fields byte_at_def)
  then have "icmp_delivers4 da sa (\<lambda>i'. ICMPv4_Type i' = Some 0 \<and> ICMPv4_Code i' = Some 0 \<and> drop 4 i' = drop 4 i \<and> Checksum i' 0 = Some 0xffff) r"
    unfolding q(4,5) using r(2-5,8,9) valid4D(1) [OF q(1)] by (intro delivers4I) (simp_all add: src4_def dst4_def)
  then show "returns (do { (lo, hi) \<leftarrow> payload_window4 b; processIPv4ICMP w s b lo hi }) (\<lambda>(r, writeBack, err, effs).
      writeBack \<and> err = None \<and> effs = [] \<and> icmp_delivers4 da sa (\<lambda>i'. ICMPv4_Type i' = Some 0 \<and> ICMPv4_Code i' = Some 0 \<and>
        drop 4 i' = drop 4 i \<and> Checksum i' 0 = Some 0xffff) r)"
    using q(3) q(6) [of w s] r(1) assms(8) by (auto simp: Let_def)
next
  note q = request6 [OF assms(9,10,12-15)]
  obtain r j' where r: "echo_reply6 c 40 (end6 c) = Some r" "valid6 r (length r)"
      "take 16 (drop 8 r) = take 16 (drop 24 c)" "take 16 (drop 24 r) = take 16 (drop 8 c)"
      "IPv6_Payload r = Some j'" "length j' = length j" "take 2 j' = take 2 (j[0 := 129])" "drop 4 j' = drop 4 j"
      "(PseudoHeaderChecksum ICMPv6ProtocolNumber (take 16 (drop 24 c)) (take 16 (drop 8 c)) (word_of_nat (length j)) \<bind> Checksum j') = Some 0xffff"
    using echo6_right [OF q(1,2) assms(11)] by blast
  note first_two [OF r(7) assms(11)]
  then have "ICMPv6_Type j' = Some 129" "ICMPv6_Code j' = Some 0"
    using r(6) assms(11,13) by (auto simp: icmp_fields byte_at_def)
  then have "icmp_delivers6 da' sa' (\<lambda>j'. ICMPv6_Type j' = Some 129 \<and> ICMPv6_Code j' = Some 0 \<and> drop 4 j' = drop 4 j) r"
    unfolding q(4,5) using r(6,8,9) by (intro delivers6I [OF r(2-5)]) simp_all
  then show "returns (do { (lo, hi) \<leftarrow> payload_window6 c; processIPv6ICMP w s c lo hi }) (\<lambda>(r, writeBack, err, effs).
      writeBack \<and> err = None \<and> effs = [] \<and> icmp_delivers6 da' sa' (\<lambda>j'. ICMPv6_Type j' = Some 129 \<and> ICMPv6_Code j' = Some 0 \<and>
        drop 4 j' = drop 4 j) r)"
    using q(3) q(6) [of w s] r(1) assms(16) by (auto simp: Let_def)
qed

text \<open>
  C9. Rejection of an echo request the router answers with \<^verbatim>\<open>ErrReset\<close>. Over IPv6 one valid destination
  unreachable message with the beginning of the request and a right checksum goes back. Over IPv4 it does so
  only while the \<^emph>\<open>whole\<close> request, with 16 bytes to spare, fits into 556 bytes and the MTU, and the
  checksum of the message is right exactly when the header checksum of the request was: the code sums the
  payload of the request and copies the request with its header. A longer request gets no answer.
\<close>

theorem ICMP_reject:
  assumes "world_ok w" and "IPv4_IsValid b (length b) = Some True" and "IPv4_TotalLength b = Some (word_of_nat (length b))"
    and "length b < 65536" and "IPv4_Payload b = Some i"
    and "ICMPv4_Type i = Some 8" and "ICMPv4_Code i = Some 0" and "IPv4_SourceAddr b = Some sa" and "IPv4_DestinationAddr b = Some da"
    and "da \<noteq> sy_inet4Address s" and "w_directNat w (sa, da) = (a, Some ErrReset)"
    and "IPv6_IsValid c (length c) = Some True" and "IPv6_Payload c = Some j"
    and "ICMPv6_Type j = Some 128" and "ICMPv6_Code j = Some 0" and "IPv6_SourceAddr c = Some sa'" and "IPv6_DestinationAddr c = Some da'"
    and "da' \<noteq> sy_inet6Address s" and "w_directNat w (sa', da') = (a', Some ErrReset)" and "48 \<le> sy_mtu s"
  shows "returns (do { (lo, hi) \<leftarrow> payload_window4 b; processIPv4ICMP w s b lo hi }) (\<lambda>(r, writeBack, out).
      \<not> writeBack \<and> (if int (length b) + 16 \<le> min (sy_mtu s) 556
        then wrote w (sy_frontHeadroom s) (icmp_delivers4 da sa (\<lambda>m. ICMPv4_Type m = Some 3 \<and> ICMPv4_Code m = Some 1 \<and>
          ICMPv4_Payload m = Some b \<and> (Checksum m 0 = Some 0xffff \<longleftrightarrow> IPv4_IsChecksumValid b = Some True))) out
        else out = (None, []))) \<and>
    returns (do { (lo, hi) \<leftarrow> payload_window6 c; processIPv6ICMP w s c lo hi }) (\<lambda>(r, writeBack, out).
      \<not> writeBack \<and> wrote w (sy_frontHeadroom s) (icmp_delivers6 da' sa' (\<lambda>m. ICMPv6_Type m = Some 1 \<and> ICMPv6_Code m = Some 3 \<and>
        ICMPv6_Payload m = Some (take (nat (min (sy_mtu s) 1240 - 8)) c))) out)"
proof (rule conjI)
  note q = request4 [OF assms(2,5-9)]
  have l: "tlen4 b = length b"
    using assms(3,4) IPv4_TotalLength_eq [of b] valid4D [OF q(1)] by (simp add: tlen4_def unat_of_nat_u16)
  show "returns (do { (lo, hi) \<leftarrow> payload_window4 b; processIPv4ICMP w s b lo hi }) (\<lambda>(r, writeBack, out).
      \<not> writeBack \<and> (if int (length b) + 16 \<le> min (sy_mtu s) 556
        then wrote w (sy_frontHeadroom s) (icmp_delivers4 da sa (\<lambda>m. ICMPv4_Type m = Some 3 \<and> ICMPv4_Code m = Some 1 \<and>
          ICMPv4_Payload m = Some b \<and> (Checksum m 0 = Some 0xffff \<longleftrightarrow> IPv4_IsChecksumValid b = Some True))) out
        else out = (None, [])))"
  proof (cases "int (length b) + 16 \<le> min (sy_mtu s) 556")
    case True
    have "returns (rejectIPv4WithICMP w s b 1) (wrote w (sy_frontHeadroom s) (icmp_delivers4 da sa (\<lambda>m. ICMPv4_Type m = Some 3 \<and>
        ICMPv4_Code m = Some 1 \<and> ICMPv4_Payload m = Some b \<and> (Checksum m 0 = Some 0xffff \<longleftrightarrow> IPv4_IsChecksumValid b = Some True))))"
      unfolding q(4,5) using valid4D(1) [OF q(1)]
      by (intro returns_mono [OF reject4_right [OF assms(1) q(1) True]], elim wrote_mono)
        (auto simp: l returns_iff src4_def [of b] dst4_def [of b] intro!: delivers4I)
    then show ?thesis using q(3) q(6) [of w s] assms(10,11) True by (auto simp: Let_def returns_iff)
  next
    case False
    then have "rejectIPv4WithICMP w s b 1 = Some (None, [])" by (auto simp: rejectIPv4WithICMP_def Let_def min_def)
    then show ?thesis using q(3) q(6) [of w s] assms(10,11) False by (auto simp: Let_def)
  qed
next
  note q = request6 [OF assms(12-17)]
  have "returns (rejectIPv6WithICMP w s c 3) (wrote w (sy_frontHeadroom s) (icmp_delivers6 da' sa' (\<lambda>m. ICMPv6_Type m = Some 1 \<and>
      ICMPv6_Code m = Some 3 \<and> ICMPv6_Payload m = Some (take (nat (min (sy_mtu s) 1240 - 8)) c))))"
    unfolding q(4,5)
    by (intro returns_mono [OF reject6_right [OF assms(1) q(1) assms(20)]], elim wrote_mono)
      (auto simp: returns_iff intro!: delivers6I)
  then show "returns (do { (lo, hi) \<leftarrow> payload_window6 c; processIPv6ICMP w s c lo hi }) (\<lambda>(r, writeBack, out).
      \<not> writeBack \<and> wrote w (sy_frontHeadroom s) (icmp_delivers6 da' sa' (\<lambda>m. ICMPv6_Type m = Some 1 \<and> ICMPv6_Code m = Some 3 \<and>
        ICMPv6_Payload m = Some (take (nat (min (sy_mtu s) 1240 - 8)) c))) out)"
    using q(3) q(6) [of w s] assms(18,19) by (auto simp: Let_def returns_iff)
qed

text \<open>Echo requests from 10.0.0.1 and from fd00::1, and a world that rejects.\<close>

definition ping4 :: IPv4 where
  "ping4 = [0x45, 0, 0, 28, 0, 0, 0, 0, 64, 1, 0x66, 0xdf, 10, 0, 0, 1, 10, 0, 0, 2] @ [8, 0, 0xf7, 0xfc, 0, 1, 0, 2]"

definition ping6 :: IPv6 where
  "ping6 = [0x60, 0, 0, 0, 0, 8, 58, 64] @ fd00 1 @ fd00 2 @ [128, 0, 0, 0, 0, 1, 0, 2]"

definition rejecting_world :: World where
  "rejecting_world = sample_world\<lparr>w_directNat := \<lambda>_. (False, Some ErrReset)\<rparr>"

lemma ping4: "IPv4_IsValid ping4 (length ping4) = Some True" "IPv4_Payload ping4 = Some [8, 0, 0xf7, 0xfc, 0, 1, 0, 2]"
    "IPv4_TotalLength ping4 = Some (word_of_nat (length ping4))" "length ping4 = 28"
    "IPv4_SourceAddr ping4 = Some (Addr4 [10, 0, 0, 1])" "IPv4_DestinationAddr ping4 = Some (Addr4 [10, 0, 0, 2])"
    "IPv4_IsChecksumValid ping4 = Some True"
proof -
  have v: "valid4 ping4 (length ping4)" "hlen4 ping4 = 20" "tlen4 ping4 = 28"
    by (simp_all add: ping4_def valid4_def hlen4_def tlen4_def)
  show "IPv4_IsValid ping4 (length ping4) = Some True" using v(1) by (simp add: IPv4_IsValid_eq)
  show "IPv4_Payload ping4 = Some [8, 0, 0xf7, 0xfc, 0, 1, 0, 2]"
    using IPv4_Payload_eq [OF v(1) order_refl] v by (simp add: ping4_def)
  show "IPv4_TotalLength ping4 = Some (word_of_nat (length ping4))" "length ping4 = 28"
    by (simp_all add: ping4_def IPv4_TotalLength_def go_simps be16_def)
  show "IPv4_SourceAddr ping4 = Some (Addr4 [10, 0, 0, 1])" "IPv4_DestinationAddr ping4 = Some (Addr4 [10, 0, 0, 2])"
    by (simp_all add: ping4_def IPv4_SourceAddr_def IPv4_DestinationAddr_def go_simps)
  show "IPv4_IsChecksumValid ping4 = Some True"
    using v(2) by (simp add: IPv4_IsChecksumValid_eq rfc1071_valid_iff ping4_def)
qed

lemma ping6: "IPv6_IsValid ping6 (length ping6) = Some True" "IPv6_Payload ping6 = Some [128, 0, 0, 0, 0, 1, 0, 2]"
    "IPv6_SourceAddr ping6 = Some (Addr16 (fd00 1))" "IPv6_DestinationAddr ping6 = Some (Addr16 (fd00 2))"
proof -
  have v: "valid6 ping6 (length ping6)" "plen6 ping6 = 8"
    by (simp_all add: ping6_def valid6_def plen6_def)
  show "IPv6_IsValid ping6 (length ping6) = Some True" using v(1) by (simp add: IPv6_IsValid_eq)
  show "IPv6_Payload ping6 = Some [128, 0, 0, 0, 0, 1, 0, 2]"
    using IPv6_Payload_eq [OF v(1) order_refl] v by (simp add: ping6_def)
  show "IPv6_SourceAddr ping6 = Some (Addr16 (fd00 1))" "IPv6_DestinationAddr ping6 = Some (Addr16 (fd00 2))"
    by (simp_all add: ping6_def IPv6_SourceAddr_def IPv6_DestinationAddr_def go_simps)
qed

lemma ping_fields: "ICMPv4_Type [8, 0, 0xf7, 0xfc, 0, 1, 0, 2] = Some 8" "ICMPv4_Code [8, 0, 0xf7, 0xfc, 0, 1, 0, 2] = Some 0"
    "ICMPv6_Type [128, 0, 0, 0, 0, 1, 0, 2] = Some 128" "ICMPv6_Code [128, 0, 0, 0, 0, 1, 0, 2] = Some 0"
  by (simp_all add: icmp_fields go_simps)

theorem ICMP_echo_witness:
  "returns (do { (lo, hi) \<leftarrow> payload_window4 ping4; processIPv4ICMP sample_world sample_system ping4 lo hi }) (\<lambda>(r, writeBack, _).
     writeBack \<and> icmp_delivers4 (Addr4 [10, 0, 0, 2]) (Addr4 [10, 0, 0, 1]) (\<lambda>i. ICMPv4_Type i = Some 0 \<and> drop 4 i = [0, 1, 0, 2]) r)"
proof -
  have l: "4 \<le> length [8, 0, 0xf7, 0xfc, 0, 1, 0, 2 :: u8]" "4 \<le> length [128, 0, 0, 0, 0, 1, 0, 2 :: u8]"
    "Addr4 [10, 0, 0, 2] = sy_inet4Address sample_system \<or> w_directNat sample_world (Addr4 [10, 0, 0, 1], Addr4 [10, 0, 0, 2]) = (False, None)"
    "Addr16 (fd00 2) = sy_inet6Address sample_system \<or> w_directNat sample_world (Addr16 (fd00 1), Addr16 (fd00 2)) = (False, None)"
    by (simp_all add: sample_world_def)
  note t = ICMP_echo [OF ping4(1,2) l(1) ping_fields(1,2) ping4(5,6) l(3) ping6(1,2) l(2) ping_fields(3,4) ping6(3,4) l(4)]
  show ?thesis
    by (rule returns_mono [OF conjunct1 [OF t]]) (auto simp: icmp_delivers4_def returns_iff)
qed

theorem ICMP_reject_witness:
  "returns (do { (lo, hi) \<leftarrow> payload_window4 ping4; processIPv4ICMP rejecting_world sample_system ping4 lo hi }) (\<lambda>(r, writeBack, out).
     wrote rejecting_world 10 (icmp_delivers4 (Addr4 [10, 0, 0, 2]) (Addr4 [10, 0, 0, 1]) (\<lambda>m. ICMPv4_Payload m = Some ping4 \<and> Checksum m 0 = Some 0xffff)) out)"
proof -
  have l: "world_ok rejecting_world" "length ping4 < 65536" "Addr4 [10, 0, 0, 2] \<noteq> sy_inet4Address sample_system"
    "w_directNat rejecting_world (Addr4 [10, 0, 0, 1], Addr4 [10, 0, 0, 2]) = (False, Some ErrReset)"
    "Addr16 (fd00 2) \<noteq> sy_inet6Address sample_system"
    "w_directNat rejecting_world (Addr16 (fd00 1), Addr16 (fd00 2)) = (False, Some ErrReset)" "48 \<le> sy_mtu sample_system"
    "int (length ping4) + 16 \<le> min (sy_mtu sample_system) 556" "sy_frontHeadroom sample_system = 10"
    by (simp_all add: rejecting_world_def sample_world_def sample_system_def world_ok_def ping4(4))
  note t = ICMP_reject [OF l(1) ping4(1,3) l(2) ping4(2) ping_fields(1,2) ping4(5,6) l(3,4) ping6(1,2) ping_fields(3,4) ping6(3,4) l(5-7)]
  show ?thesis
    by (rule returns_mono [OF conjunct1 [OF t]])
      (use l(8,9) ping4(7) in \<open>auto simp: icmp_delivers4_def returns_iff elim!: wrote_mono\<close>)
qed

end
