(* ===== verification/System_Packet.thy ===== *)
theory System_Packet
  imports System_Translate System_UDP System_ICMP
begin

text \<open>
  The packet loop of the system stack (\<^verbatim>\<open>stack_system.go\<close>): \<^verbatim>\<open>processPacket\<close> and the two functions it calls
  put TCP, UDP and ICMP together; the loops read packets from the device, one by one or in batches, and
  write back what was rewritten in place; \<^verbatim>\<open>acceptLoop\<close> turns a connection to the listener of the stack
  into one with the endpoints the table has for its port.

  A loop that runs until the device is closed is a function of the reads it makes. Whatever a read
  left in the packet buffer is an argument, and every packet has its own world.
\<close>

section \<open>One packet\<close>

definition PacketIPVersion :: "bytes \<Rightarrow> int" where
  "PacketIPVersion packet = IPVersion packet"

definition PacketDestination :: "bytes \<Rightarrow> Addr option" where
  "PacketDestination packet =
     (if IPVersion packet = 4 then IPv4_DestinationAddr packet
      else if IPVersion packet = 6 then IPv6_DestinationAddr packet
      else Some ZeroAddr)"

definition processIPv4 :: "World \<Rightarrow> System \<Rightarrow> IPv4 \<Rightarrow> outcome option" where
  "processIPv4 w s ipHdr = do {
     destination \<leftarrow> IPv4_DestinationAddr ipHdr;
     if destination = sy_broadcastAddr s \<or> \<not> IsGlobalUnicast destination then Some (s, ipHdr, False, None, [])
     else do {
       proto \<leftarrow> IPv4_TransportProtocol ipHdr;
       (s, ipHdr, writeBack, err, effs) \<leftarrow>
         (if proto = TCPProtocolNumber then do {
            (lo, hi) \<leftarrow> payload_window4 ipHdr;
            processIPv4TCP w s ipHdr lo hi }
          else if proto = UDPProtocolNumber then do {
            (lo, hi) \<leftarrow> payload_window4 ipHdr;
            (err, effs) \<leftarrow> processIPv4UDP w s ipHdr lo hi;
            Some (s, ipHdr, False, err, effs) }
          else if proto = ICMPv4ProtocolNumber then do {
            (lo, hi) \<leftarrow> payload_window4 ipHdr;
            (ipHdr, writeBack, err, effs) \<leftarrow> processIPv4ICMP w s ipHdr lo hi;
            Some (s, ipHdr, writeBack, err, effs) }
          else Some (s, ipHdr, True, None, []));
       Some (s, ipHdr, if err \<noteq> None then False else writeBack, err, effs) } }"

definition processIPv6 :: "World \<Rightarrow> System \<Rightarrow> IPv6 \<Rightarrow> outcome option" where
  "processIPv6 w s ipHdr = do {
     destination \<leftarrow> IPv6_DestinationAddr ipHdr;
     if \<not> IsGlobalUnicast destination then Some (s, ipHdr, False, None, [])
     else do {
       proto \<leftarrow> IPv6_TransportProtocol ipHdr;
       (s, ipHdr, writeBack, err, effs) \<leftarrow>
         (if proto = TCPProtocolNumber then do {
            (lo, hi) \<leftarrow> payload_window6 ipHdr;
            processIPv6TCP w s ipHdr lo hi }
          else if proto = UDPProtocolNumber then do {
            (lo, hi) \<leftarrow> payload_window6 ipHdr;
            (err, effs) \<leftarrow> processIPv6UDP w s ipHdr lo hi;
            Some (s, ipHdr, False, err, effs) }
          else if proto = ICMPv6ProtocolNumber then do {
            (lo, hi) \<leftarrow> payload_window6 ipHdr;
            (ipHdr, writeBack, err, effs) \<leftarrow> processIPv6ICMP w s ipHdr lo hi;
            Some (s, ipHdr, writeBack, err, effs) }
          else Some (s, ipHdr, True, None, []));
       Some (s, ipHdr, if err \<noteq> None then False else writeBack, err, effs) } }"

text \<open>The error is only logged; the packet is returned since it is changed in place.\<close>

definition processPacket :: "World \<Rightarrow> System \<Rightarrow> bytes \<Rightarrow> (System \<times> bytes \<times> bool \<times> effect list) option" where
  "processPacket w s packet = do {
     (s, packet, writeBack, err, effs) \<leftarrow>
       (if IPVersion packet = 4 then do {
          valid \<leftarrow> IPv4_IsValid packet (length packet);
          if \<not> valid then Some (s, packet, False, Some InvalidIPv4Packet, [])
          else processIPv4 w s packet }
        else if IPVersion packet = 6 then do {
          valid \<leftarrow> IPv6_IsValid packet (length packet);
          if \<not> valid then Some (s, packet, False, Some InvalidIPv6Packet, [])
          else processIPv6 w s packet }
        else Some (s, packet, False, Some (UnknownVersion (IPVersion packet)), []));
     if err \<noteq> None then Some (s, packet, False, effs) else Some (s, packet, writeBack, effs) }"

section \<open>Connections\<close>

text \<open>One turn of \<^verbatim>\<open>acceptLoop\<close>: a connection from \<open>port\<close> to the listener of a family.\<close>

definition acceptLoop4 :: "World \<Rightarrow> u16 \<Rightarrow> System \<Rightarrow> System \<times> effect list" where
  "acceptLoop4 w port s = (case sy_tcpNat4 s of
     None \<Rightarrow> (s, [])
   | Some tcpNat \<Rightarrow> (case LookupBack (w_now w) (w_now' w) port tcpNat of
       (tcpNat, None) \<Rightarrow> (s\<lparr>sy_tcpNat4 := Some tcpNat\<rparr>, [])
     | (tcpNat, Some session) \<Rightarrow>
         (s\<lparr>sy_tcpNat4 := Some tcpNat\<rparr>, [NewConnection (s_Source session) (s_Destination session)])))"

definition acceptLoop6 :: "World \<Rightarrow> u16 \<Rightarrow> System \<Rightarrow> System \<times> effect list" where
  "acceptLoop6 w port s = (case sy_tcpNat6 s of
     None \<Rightarrow> (s, [])
   | Some tcpNat \<Rightarrow> (case LookupBack (w_now w) (w_now' w) port tcpNat of
       (tcpNat, None) \<Rightarrow> (s\<lparr>sy_tcpNat6 := Some tcpNat\<rparr>, [])
     | (tcpNat, Some session) \<Rightarrow>
         (s\<lparr>sy_tcpNat6 := Some tcpNat\<rparr>, [NewConnection (s_Source session) (s_Destination session)])))"

section \<open>The loops\<close>

datatype read_error = Closed | OtherReadError

text \<open>Lines 201 to 219, reading \<^verbatim>\<open>n\<close> bytes into the buffer.\<close>

fun tun_reads :: "(World \<times> nat \<times> read_error option \<times> bytes) list \<Rightarrow> System \<Rightarrow> (System \<times> effect list) option" where
  "tun_reads [] s = Some (s, [])"
| "tun_reads ((w, n, err, packetBuffer) # reads) s =
     (if err = Some Closed then Some (s, [])
      else if n < 20 then tun_reads reads s
      else do {
        rawHead \<leftarrow> slice packetBuffer 0 (w_PacketOffset w);
        packet \<leftarrow> slice packetBuffer (w_PacketOffset w) n;
        (s, packet, writeBack, effs) \<leftarrow> processPacket w s packet;
        (s, more) \<leftarrow> tun_reads reads s;
        Some (s, effs @ (if writeBack then [TunWrite (rawHead @ packet)] else []) @ more) })"

fun wintunLoop :: "(World \<times> bytes option) list \<Rightarrow> System \<Rightarrow> (System \<times> effect list) option" where
  "wintunLoop [] s = Some (s, [])"
| "wintunLoop ((w, None) # reads) s = Some (s, [])"
| "wintunLoop ((w, Some packet) # reads) s =
     (if length packet < 20 then wintunLoop reads s
      else do {
        (s, packet, writeBack, effs) \<leftarrow> processPacket w s packet;
        (s, more) \<leftarrow> wintunLoop reads s;
        Some (s, effs @ (if writeBack then [TunWrite packet] else []) @ more) })"

text \<open>The inner loops of \<^verbatim>\<open>batchLoopLinux\<close> (lines 261 to 271) and \<^verbatim>\<open>batchLoopDarwin\<close> (lines 296 to 307).\<close>

fun batch_linux :: "nat \<Rightarrow> (World \<times> nat \<times> bytes) list \<Rightarrow> bytes list \<Rightarrow> System \<Rightarrow> (System \<times> bytes list \<times> effect list) option" where
  "batch_linux frontHeadroom [] writeBuffers s = Some (s, writeBuffers, [])"
| "batch_linux frontHeadroom ((w, packetSize, packetBuffer) # rest) writeBuffers s =
     (if packetSize < 20 then batch_linux frontHeadroom rest writeBuffers s
      else do {
        room \<leftarrow> slice packetBuffer 0 frontHeadroom;
        packet \<leftarrow> slice packetBuffer frontHeadroom (frontHeadroom + packetSize);
        (s, packet, writeBack, effs) \<leftarrow> processPacket w s packet;
        (s, writeBuffers, more) \<leftarrow> batch_linux frontHeadroom rest (writeBuffers @ (if writeBack then [room @ packet] else [])) s;
        Some (s, writeBuffers, effs @ more) })"

fun batch_darwin :: "(World \<times> bytes) list \<Rightarrow> bytes list \<Rightarrow> System \<Rightarrow> (System \<times> bytes list \<times> effect list) option" where
  "batch_darwin [] writeBuffers s = Some (s, writeBuffers, [])"
| "batch_darwin ((w, buffer) # rest) writeBuffers s =
     (if length buffer < 20 then batch_darwin rest writeBuffers s
      else do {
        (s, buffer, writeBack, effs) \<leftarrow> processPacket w s buffer;
        (s, writeBuffers, more) \<leftarrow> batch_darwin rest (writeBuffers @ (if writeBack then [buffer] else [])) s;
        Some (s, writeBuffers, effs @ more) })"

fun batchLoopLinux :: "(read_error option \<times> (World \<times> nat \<times> bytes) list) list \<Rightarrow> System \<Rightarrow> (System \<times> effect list) option" where
  "batchLoopLinux [] s = Some (s, [])"
| "batchLoopLinux ((err, batch) # reads) s =
     (if err = Some Closed then Some (s, [])
      else do {
        (s, writeBuffers, effs) \<leftarrow> batch_linux (sy_frontHeadroom s) batch [] s;
        (s, more) \<leftarrow> batchLoopLinux reads s;
        Some (s, effs @ (if writeBuffers \<noteq> [] then [TunBatchWrite writeBuffers] else []) @ more) })"

fun batchLoopDarwin :: "(read_error option \<times> (World \<times> bytes) list) list \<Rightarrow> System \<Rightarrow> (System \<times> effect list) option" where
  "batchLoopDarwin [] s = Some (s, [])"
| "batchLoopDarwin ((err, buffers) # reads) s =
     (if err = Some Closed then Some (s, [])
      else do {
        (s, writeBuffers, effs) \<leftarrow> batch_darwin buffers [] s;
        (s, more) \<leftarrow> batchLoopDarwin reads s;
        Some (s, effs @ (if writeBuffers \<noteq> [] then [TunBatchWrite writeBuffers] else []) @ more) })"

text \<open>The kinds of devices, each with what its reads return, and the choice of the loop (\<^verbatim>\<open>tunLoop\<close>).\<close>

datatype device =
  WinTun "(World \<times> bytes option) list"
| LinuxTUN nat bool int "(read_error option \<times> (World \<times> nat \<times> bytes) list) list" "(World \<times> nat \<times> read_error option \<times> bytes) list"
| DarwinTUN "(read_error option \<times> (World \<times> bytes) list) list" "(World \<times> nat \<times> read_error option \<times> bytes) list"
| OtherTun "(World \<times> nat \<times> read_error option \<times> bytes) list"

definition tunLoop :: "device \<Rightarrow> System \<Rightarrow> (System \<times> effect list) option" where
  "tunLoop tun s = (case tun of
     WinTun reads \<Rightarrow> wintunLoop reads s
   | LinuxTUN frontHeadroom txChecksumOffload batchSize batches reads \<Rightarrow>
       let s = s\<lparr>sy_frontHeadroom := frontHeadroom, sy_txChecksumOffload := txChecksumOffload\<rparr>
       in if batchSize > 1 then batchLoopLinux batches s else tun_reads reads s
   | DarwinTUN batches reads \<Rightarrow> if sy_recvMsgX s then batchLoopDarwin batches s else tun_reads reads s
   | OtherTun reads \<Rightarrow> tun_reads reads s)"

section \<open>The invariant of the stack\<close>

text \<open>
  Both tables are well-formed and hold only addresses of their family, and a family with a table has
  its addresses configured.
\<close>

definition family_ok :: "(Addr \<Rightarrow> bool) \<Rightarrow> TCPNat option \<Rightarrow> Addr \<Rightarrow> Addr \<Rightarrow> bool" where
  "family_ok fam t address next \<longleftrightarrow> (\<forall>n. t = Some n \<longrightarrow> nat_inv n \<and>
     (\<forall>p src dst. owner n p = Some (src, dst) \<longrightarrow> fam (fst src) \<and> fam (fst dst)) \<and> fam address \<and> fam next)"

definition stack_ok :: "System \<Rightarrow> bool" where
  "stack_ok s \<longleftrightarrow> family_ok is4 (sy_tcpNat4 s) (sy_inet4Address s) (sy_inet4NextAddress s) \<and>
     family_ok is6 (sy_tcpNat6 s) (sy_inet6Address s) (sy_inet6NextAddress s)"

lemma stack_ok_iff: "stack_ok s \<longleftrightarrow> st4.stack_inv s \<and> st6.stack_inv s"
  unfolding stack_ok_def family_ok_def st4.stack_inv_def st6.stack_inv_def st4.table_ok_def st6.table_ok_def by auto

text \<open>Everything but the tables is configuration.\<close>

definition config :: "System \<Rightarrow> System" where
  "config s = s\<lparr>sy_tcpNat4 := None, sy_tcpNat6 := None\<rparr>"

lemma config_eqD:
  assumes "config s = config s'"
  shows "listener4 s' = listener4 s" "listener6 s' = listener6 s" "sy_inet4NextAddress s' = sy_inet4NextAddress s"
    "sy_inet6NextAddress s' = sy_inet6NextAddress s" "sy_broadcastAddr s' = sy_broadcastAddr s"
    "sy_txChecksumOffload s' = sy_txChecksumOffload s" "sy_inet4LoopbackAddress s' = sy_inet4LoopbackAddress s"
    "sy_inet6LoopbackAddress s' = sy_inet6LoopbackAddress s" "sy_frontHeadroom s' = sy_frontHeadroom s"
  using assms by (cases s; cases s'; simp add: config_def)+

lemma config_update [simp]: "config (s\<lparr>sy_tcpNat4 := x\<rparr>) = config s" "config (s\<lparr>sy_tcpNat6 := x\<rparr>) = config s"
  by (simp_all add: config_def)

text \<open>What a step may do to the state: the invariant, the configuration and the entries of the tables stay.\<close>

definition keeps :: "System \<Rightarrow> System \<Rightarrow> bool" where
  "keeps s s' \<longleftrightarrow> config s' = config s \<and> (stack_ok s \<longrightarrow> stack_ok s' \<and>
     (\<forall>p k. st4.owns s p k \<longrightarrow> st4.owns s' p k) \<and> (\<forall>p k. st6.owns s p k \<longrightarrow> st6.owns s' p k))"

lemma keeps_refl [simp]: "keeps s s"
  by (simp add: keeps_def)

lemma keeps_trans: "keeps s s' \<Longrightarrow> keeps s' s'' \<Longrightarrow> keeps s s''"
  by (simp add: keeps_def)

lemma keeps_tables:
  assumes "s' = s\<lparr>sy_tcpNat4 := x\<rparr>" and "stack_ok s \<Longrightarrow> st4.stack_inv s' \<and> (\<forall>p k. st4.owns s p k \<longrightarrow> st4.owns s' p k)"
  shows "keeps s s'"
  using assms by (auto simp: keeps_def stack_ok_iff st6.stack_inv_def st6.owns_def)

lemma keeps_tables6:
  assumes "s' = s\<lparr>sy_tcpNat6 := x\<rparr>" and "stack_ok s \<Longrightarrow> st6.stack_inv s' \<and> (\<forall>p k. st6.owns s p k \<longrightarrow> st6.owns s' p k)"
  shows "keeps s s'"
  using assms by (auto simp: keeps_def stack_ok_iff st4.stack_inv_def st4.owns_def)

lemma tcp_keeps:
  shows "processIPv4TCP w s b l h = Some (s', out) \<Longrightarrow> keeps s s'"
    and "processIPv6TCP w s b l h = Some (s', out) \<Longrightarrow> keeps s s'"
proof -
  assume a: "processIPv4TCP w s b l h = Some (s', out)"
  then have "\<exists>x. s' = s\<lparr>sy_tcpNat4 := x\<rparr>"
    unfolding processIPv4TCP_def by (cases s) (auto split: option.splits Option.bind_splits if_splits prod.splits)
  then show "keeps s s'"
    using st4.process_keeps [of w s b l h s' "fst out" "fst (snd out)" "fst (snd (snd out))" "snd (snd (snd out))"] a
    by (elim exE keeps_tables) (auto simp: stack_ok_iff)
next
  assume a: "processIPv6TCP w s b l h = Some (s', out)"
  then have "\<exists>x. s' = s\<lparr>sy_tcpNat6 := x\<rparr>"
    unfolding processIPv6TCP_def by (cases s) (auto split: option.splits Option.bind_splits if_splits prod.splits)
  then show "keeps s s'"
    using st6.process_keeps [of w s b l h s' "fst out" "fst (snd out)" "fst (snd (snd out))" "snd (snd (snd out))"] a
    by (elim exE keeps_tables6) (auto simp: stack_ok_iff)
qed

lemma ip_keeps:
  shows "processIPv4 w s b = Some (s', out) \<Longrightarrow> keeps s s'" and "processIPv6 w s b = Some (s', out) \<Longrightarrow> keeps s s'"
proof -
  assume "processIPv4 w s b = Some (s', out)"
  then show "keeps s s'"
    unfolding processIPv4_def by (clarsimp simp: bind_eq_Some_conv split: if_splits) (auto dest: tcp_keeps(1))
next
  assume "processIPv6 w s b = Some (s', out)"
  then show "keeps s s'"
    unfolding processIPv6_def by (clarsimp simp: bind_eq_Some_conv split: if_splits) (auto dest: tcp_keeps(2))
qed

lemma packet_keeps:
  assumes "processPacket w s b = Some (s', out)"
  shows "keeps s s'"
  using assms unfolding processPacket_def
  by (clarsimp simp: bind_eq_Some_conv split: if_splits) (auto dest: ip_keeps)

section \<open>Packets in sequence\<close>

text \<open>
  What happens to a running stack: packets arrive from the device and connections at its listeners. (The settings of the
  device and the expiry of sessions are further steps of \<open>stack_state\<close> in \<open>System_Start\<close>.)
\<close>

datatype stack_event =
  Arrive World bytes
| Accept4 World u16
| Accept6 World u16

fun stack_step :: "stack_event \<Rightarrow> System \<Rightarrow> (System \<times> effect list) option" where
  "stack_step (Arrive w b) s = do { (s, b, writeBack, effs) \<leftarrow> processPacket w s b;
     Some (s, effs @ (if writeBack then [TunWrite b] else [])) }"
| "stack_step (Accept4 w p) s = Some (acceptLoop4 w p s)"
| "stack_step (Accept6 w p) s = Some (acceptLoop6 w p s)"

fun stack_run :: "stack_event list \<Rightarrow> System \<Rightarrow> System option" where
  "stack_run [] s = Some s"
| "stack_run (e # es) s = do { (s, effs) \<leftarrow> stack_step e s; stack_run es s }"

lemma lookup_keeps:
  shows "sy_tcpNat4 s = Some n \<Longrightarrow> keeps s (s\<lparr>sy_tcpNat4 := Some (fst (LookupBack t t' p n))\<rparr>)"
    and "sy_tcpNat6 s = Some n \<Longrightarrow> keeps s (s\<lparr>sy_tcpNat6 := Some (fst (LookupBack t t' p n))\<rparr>)"
  by (auto simp: keeps_def stack_ok_def family_ok_def st4.owns_def st6.owns_def LookupBack_inv owner_LookupBack)

lemma accept_keeps: "keeps s (fst (acceptLoop4 w p s))" "keeps s (fst (acceptLoop6 w p s))"
proof -
  show "keeps s (fst (acceptLoop4 w p s))"
    using lookup_keeps(1) [of s _ "w_now w" "w_now' w" p]
    by (auto simp: acceptLoop4_def split: option.split prod.split)
  show "keeps s (fst (acceptLoop6 w p s))"
    using lookup_keeps(2) [of s _ "w_now w" "w_now' w" p]
    by (auto simp: acceptLoop6_def split: option.split prod.split)
qed

lemma step_keeps: "stack_step e s = Some (s', effs) \<Longrightarrow> keeps s s'"
  using accept_keeps by (cases e) (auto simp: bind_eq_Some_conv dest: packet_keeps, (metis fst_conv)+)

lemma run_keeps: "stack_run es s = Some s' \<Longrightarrow> keeps s s'"
proof (induction es arbitrary: s)
  case (Cons e es)
  then obtain s1 effs where "stack_step e s = Some (s1, effs)" "stack_run es s1 = Some s'"
    by (auto simp: bind_eq_Some_conv)
  then show ?case using Cons.IH step_keeps keeps_trans by blast
qed simp

lemma packet_tcp4:
  assumes "st4.well off src dst d b" and "IPv4_TransportProtocol b = Some TCPProtocolNumber" and "IsGlobalUnicast (fst dst)" "fst dst \<noteq> sy_broadcastAddr s"
  shows "processPacket w s b = do {
    (s', b', writeBack, err, effs) \<leftarrow> processIPv4TCP w s b (hlen4 b) (tlen4 b); Some (s', b', err = None \<and> writeBack, effs) }"
proof -
  have v: "IPv4_IsValid b (length b) = Some True" "valid4 b (length b)" and e: "endpoints4 b = Some (src, dst)"
    using assms(1) by (simp_all add: st4.well_def good4_def IPv4_IsValid_eq)
  have d: "IPv4_DestinationAddr b = Some (fst dst)" using e by (auto simp: endpoints4_def split: Option.bind_splits)
  have b: "IPVersion b = 4" using valid4D [OF v(2)] IPVersion_eq [of b] by auto
  show ?thesis
    using assms(2-) v(1) d b payload_window4_eq [OF v(2)]
    by (simp add: processPacket_def processIPv4_def split_beta, intro Option.bind_cong) auto
qed

lemma packet_tcp6:
  assumes "st6.well off src dst d b" and "IPv6_TransportProtocol b = Some TCPProtocolNumber" and "IsGlobalUnicast (fst dst)"
  shows "processPacket w s b = do {
    (s', b', writeBack, err, effs) \<leftarrow> processIPv6TCP w s b (40) (end6 b); Some (s', b', err = None \<and> writeBack, effs) }"
proof -
  have v: "IPv6_IsValid b (length b) = Some True" "valid6 b (length b)" and e: "endpoints6 b = Some (src, dst)"
    using assms(1) by (simp_all add: st6.well_def good6_def IPv6_IsValid_eq)
  have d: "IPv6_DestinationAddr b = Some (fst dst)" using e by (auto simp: endpoints6_def split: Option.bind_splits)
  have b: "IPVersion b = 6" using valid6D [OF v(2)] IPVersion_eq [of b] by auto
  show ?thesis
    using assms(2-) v(1) d b payload_window6_eq [OF v(2)]
    by (simp add: processPacket_def processIPv6_def split_beta, intro Option.bind_cong) auto
qed

section \<open>Connections through the stack\<close>

text \<open>
  A TCP packet its receiver accepts (\<open>tcp4\<close>, \<open>tcp6\<close>), with its endpoints and data, and one that opens or continues a connection through the
  stack: it goes to a unicast address outside and the table knows the connection or has a port left.
\<close>

definition tcp4 :: "bool \<Rightarrow> AddrPort \<Rightarrow> AddrPort \<Rightarrow> bytes option \<Rightarrow> IPv4 \<Rightarrow> bool" where
  "tcp4 off src dst d b \<longleftrightarrow> good4 off b \<and> endpoints4 b = Some (src, dst) \<and> (IPv4_Payload b \<bind> TCP_Payload) = d"

definition opens4 :: "System \<Rightarrow> AddrPort \<Rightarrow> AddrPort \<Rightarrow> bytes option \<Rightarrow> IPv4 \<Rightarrow> bool" where
  "opens4 s src dst d b \<longleftrightarrow> tcp4 (sy_txChecksumOffload s) src dst d b \<and> IPv4_TransportProtocol b = Some TCPProtocolNumber \<and>
     IsGlobalUnicast (fst dst) \<and> fst dst \<noteq> sy_broadcastAddr s \<and> src \<noteq> listener4 s \<and> fst dst \<notin> set (sy_inet4LoopbackAddress s) \<and>
     returns (sy_tcpNat4 s) (\<lambda>n. n_addrMap n (src, dst) \<noteq> None \<or> (\<exists>p \<ge> 10000. n_portMap n p = None))"

definition tcp6 :: "bool \<Rightarrow> AddrPort \<Rightarrow> AddrPort \<Rightarrow> bytes option \<Rightarrow> IPv6 \<Rightarrow> bool" where
  "tcp6 off src dst d b \<longleftrightarrow> good6 off b \<and> endpoints6 b = Some (src, dst) \<and> (IPv6_Payload b \<bind> TCP_Payload) = d"

definition opens6 :: "System \<Rightarrow> AddrPort \<Rightarrow> AddrPort \<Rightarrow> bytes option \<Rightarrow> IPv6 \<Rightarrow> bool" where
  "opens6 s src dst d b \<longleftrightarrow> tcp6 (sy_txChecksumOffload s) src dst d b \<and> IPv6_TransportProtocol b = Some TCPProtocolNumber \<and>
     IsGlobalUnicast (fst dst) \<and> src \<noteq> listener6 s \<and> fst dst \<notin> set (sy_inet6LoopbackAddress s) \<and>
     returns (sy_tcpNat6 s) (\<lambda>n. n_addrMap n (src, dst) \<noteq> None \<or> (\<exists>p \<ge> 10000. n_portMap n p = None))"

lemma tcp4_well: "tcp4 = st4.well"
  by (simp add: fun_eq_iff tcp4_def st4.well_def)

lemma connection4:
  assumes w: "world_ok w" and s: "stack_ok s" and o: "opens4 s src dst d b"
  shows "\<exists>p. returns (processPacket w s b) (\<lambda>(s', b', writeBack, effs). writeBack \<and> effs = [] \<and> keeps s s' \<and>
    st4.owns s' p (src, dst) \<and> tcp4 (sy_txChecksumOffload s) (sy_inet4NextAddress s, p) (listener4 s) d b')"
proof -
  obtain n where n: "sy_tcpNat4 s = Some n" "n_addrMap n (src, dst) \<noteq> None \<or> (\<exists>p \<ge> 10000. n_portMap n p = None)"
    using o by (auto simp: opens4_def returns_iff)
  have b: "st4.well (sy_txChecksumOffload s) src dst d b" "IPv4_TransportProtocol b = Some TCPProtocolNumber" "IsGlobalUnicast (fst dst)"
    and d: "src \<noteq> listener4 s" "fst dst \<notin> set (sy_inet4LoopbackAddress s)" "fst dst \<noteq> sy_broadcastAddr s"
    using o by (simp_all add: opens4_def tcp4_well)
  have i: "st4.stack_inv s" "nat_inv n" using s n(1) by (auto simp: stack_ok_iff st4.stack_inv_def st4.table_ok_def)
  obtain n' r where L: "Lookup (w_now w) (w_now' w) src dst n = (n', r)" by fastforce
  obtain p where p: "r = Some p" using i(2) L n(2) by (cases rule: Lookup_cases) auto
  have "returns (processIPv4TCP w s b (hlen4 b) (tlen4 b)) (\<lambda>(s', b', wb, err, effs). wb \<and> err = None \<and> effs = [] \<and>
      st4.owns s' p (src, dst) \<and> st4.well (sy_txChecksumOffload s) (sy_inet4NextAddress s, p) (listener4 s) d b')"
    by (rule returns_mono [OF st4.outbound [OF w i(1) n(1) b(1,3) d(1,2)]]) (use L p in auto)
  then have r: "returns (processPacket w s b) (\<lambda>(s', b', writeBack, effs). writeBack \<and> effs = [] \<and>
      st4.owns s' p (src, dst) \<and> st4.well (sy_txChecksumOffload s) (sy_inet4NextAddress s, p) (listener4 s) d b')"
    unfolding packet_tcp4 [OF b d(3)] by (auto simp: returns_iff)
  then show ?thesis
    using packet_keeps [of w s b] unfolding tcp4_well by (intro exI [of _ p]) (auto simp: returns_iff)
qed

lemma reply_back4:
  assumes s: "stack_ok s" "st4.owns s p (src, dst)" and b: "tcp4 (sy_txChecksumOffload s) (listener4 s) (sy_inet4NextAddress s, p) d b"
    and t: "IPv4_TransportProtocol b = Some TCPProtocolNumber" "IsGlobalUnicast (sy_inet4NextAddress s)" "sy_inet4NextAddress s \<noteq> sy_broadcastAddr s"
  shows "returns (processPacket w s b) (\<lambda>(s', b', writeBack, effs). writeBack \<and> effs = [] \<and> tcp4 (sy_txChecksumOffload s) dst src d b')"
proof -
  note b' = b [unfolded tcp4_well]
  have "st4.stack_inv s" using s(1) by (simp add: stack_ok_iff)
  note r = st4.inbound [OF this s(2) b' t(2), of w]
  have "processPacket w s b = do {
      (s', b', writeBack, err, effs) \<leftarrow> processIPv4TCP w s b (hlen4 b) (tlen4 b); Some (s', b', err = None \<and> writeBack, effs) }"
    by (rule packet_tcp4 [OF b' t(1)]) (use t in simp_all)
  then show ?thesis using r unfolding tcp4_well by (auto simp: returns_iff)
qed

lemma accept_conn4:
  assumes "st4.owns s p (src, dst)"
  shows "snd (acceptLoop4 w p s) = [NewConnection src dst]"
proof -
  obtain n where n: "sy_tcpNat4 s = Some n" "owner n p = Some (src, dst)" using assms by (auto simp: st4.owns_def)
  obtain n' r where L: "LookupBack (w_now w) (w_now' w) p n = (n', r)" by fastforce
  then have "map_option session_key r = Some (src, dst)" using LookupBack_owner [of "w_now w" "w_now' w" p n] n(2) by simp
  then show ?thesis using n(1) L by (auto simp: acceptLoop4_def session_key_def)
qed

lemma tcp6_well: "tcp6 = st6.well"
  by (simp add: fun_eq_iff tcp6_def st6.well_def)

lemma connection6:
  assumes w: "world_ok w" and s: "stack_ok s" and o: "opens6 s src dst d b"
  shows "\<exists>p. returns (processPacket w s b) (\<lambda>(s', b', writeBack, effs). writeBack \<and> effs = [] \<and> keeps s s' \<and>
    st6.owns s' p (src, dst) \<and> tcp6 (sy_txChecksumOffload s) (sy_inet6NextAddress s, p) (listener6 s) d b')"
proof -
  obtain n where n: "sy_tcpNat6 s = Some n" "n_addrMap n (src, dst) \<noteq> None \<or> (\<exists>p \<ge> 10000. n_portMap n p = None)"
    using o by (auto simp: opens6_def returns_iff)
  have b: "st6.well (sy_txChecksumOffload s) src dst d b" "IPv6_TransportProtocol b = Some TCPProtocolNumber" "IsGlobalUnicast (fst dst)"
    and d: "src \<noteq> listener6 s" "fst dst \<notin> set (sy_inet6LoopbackAddress s)"
    using o by (simp_all add: opens6_def tcp6_well)
  have i: "st6.stack_inv s" "nat_inv n" using s n(1) by (auto simp: stack_ok_iff st6.stack_inv_def st6.table_ok_def)
  obtain n' r where L: "Lookup (w_now w) (w_now' w) src dst n = (n', r)" by fastforce
  obtain p where p: "r = Some p" using i(2) L n(2) by (cases rule: Lookup_cases) auto
  have "returns (processIPv6TCP w s b (40) (end6 b)) (\<lambda>(s', b', wb, err, effs). wb \<and> err = None \<and> effs = [] \<and>
      st6.owns s' p (src, dst) \<and> st6.well (sy_txChecksumOffload s) (sy_inet6NextAddress s, p) (listener6 s) d b')"
    by (rule returns_mono [OF st6.outbound [OF w i(1) n(1) b(1,3) d]]) (use L p in auto)
  then have r: "returns (processPacket w s b) (\<lambda>(s', b', writeBack, effs). writeBack \<and> effs = [] \<and>
      st6.owns s' p (src, dst) \<and> st6.well (sy_txChecksumOffload s) (sy_inet6NextAddress s, p) (listener6 s) d b')"
    unfolding packet_tcp6 [OF b] by (auto simp: returns_iff)
  then show ?thesis
    using packet_keeps [of w s b] unfolding tcp6_well by (intro exI [of _ p]) (auto simp: returns_iff)
qed

lemma reply_back6:
  assumes s: "stack_ok s" "st6.owns s p (src, dst)" and b: "tcp6 (sy_txChecksumOffload s) (listener6 s) (sy_inet6NextAddress s, p) d b"
    and t: "IPv6_TransportProtocol b = Some TCPProtocolNumber" "IsGlobalUnicast (sy_inet6NextAddress s)"
  shows "returns (processPacket w s b) (\<lambda>(s', b', writeBack, effs). writeBack \<and> effs = [] \<and> tcp6 (sy_txChecksumOffload s) dst src d b')"
proof -
  note b' = b [unfolded tcp6_well]
  have "st6.stack_inv s" using s(1) by (simp add: stack_ok_iff)
  note r = st6.inbound [OF this s(2) b' t(2), of w]
  have "processPacket w s b = do {
      (s', b', writeBack, err, effs) \<leftarrow> processIPv6TCP w s b (40) (end6 b); Some (s', b', err = None \<and> writeBack, effs) }"
    by (rule packet_tcp6 [OF b' t(1)]) (use t in simp_all)
  then show ?thesis using r unfolding tcp6_well by (auto simp: returns_iff)
qed

lemma accept_conn6:
  assumes "st6.owns s p (src, dst)"
  shows "snd (acceptLoop6 w p s) = [NewConnection src dst]"
proof -
  obtain n where n: "sy_tcpNat6 s = Some n" "owner n p = Some (src, dst)" using assms by (auto simp: st6.owns_def)
  obtain n' r where L: "LookupBack (w_now w) (w_now' w) p n = (n', r)" by fastforce
  then have "map_option session_key r = Some (src, dst)" using LookupBack_owner [of "w_now w" "w_now' w" p n] n(2) by simp
  then show ?thesis using n(1) L by (auto simp: acceptLoop6_def session_key_def)
qed

lemma round_trip4:
  assumes w: "world_ok w" and s: "stack_ok s" and o: "opens4 s src dst d b" and n: "IsGlobalUnicast (sy_inet4NextAddress s)" "sy_inet4NextAddress s \<noteq> sy_broadcastAddr s"
  shows "(\<exists>p. returns (processPacket w s b) (\<lambda>(s1, b1, writeBack, effs). writeBack \<and> effs = [] \<and> stack_ok s1 \<and>
      tcp4 (sy_txChecksumOffload s) (sy_inet4NextAddress s, p) (listener4 s) d b1 \<and>
      (\<forall>es s2 w2. stack_run es s1 = Some s2 \<longrightarrow> snd (acceptLoop4 w2 p s2) = [NewConnection src dst] \<and>
        (\<forall>r e. tcp4 (sy_txChecksumOffload s) (listener4 s) (sy_inet4NextAddress s, p) e r \<and>
            IPv4_TransportProtocol r = Some TCPProtocolNumber \<longrightarrow>
          returns (processPacket w2 s2 r) (\<lambda>(s3, r3, writeBack, effs). writeBack \<and> effs = [] \<and>
            tcp4 (sy_txChecksumOffload s) dst src e r3)))))"
proof -
  let ?off = "sy_txChecksumOffload s" and ?next = "sy_inet4NextAddress s"
  obtain p where p: "returns (processPacket w s b) (\<lambda>(s1, b1, writeBack, effs). writeBack \<and> effs = [] \<and> keeps s s1 \<and>
      st4.owns s1 p (src, dst) \<and> tcp4 ?off (?next, p) (listener4 s) d b1)"
    using connection4 [OF w s o] by blast
  have later: "snd (acceptLoop4 w2 p s2) = [NewConnection src dst] \<and>
      (\<forall>r e. tcp4 ?off (listener4 s) (?next, p) e r \<and> IPv4_TransportProtocol r = Some TCPProtocolNumber \<longrightarrow>
        returns (processPacket w2 s2 r) (\<lambda>(s3, r3, writeBack, effs). writeBack \<and> effs = [] \<and> tcp4 ?off dst src e r3))"
    if "keeps s s1" "st4.owns s1 p (src, dst)" "stack_run es s1 = Some s2" for s1 es s2 w2
  proof -
    have k: "keeps s1 s2" by (rule run_keeps [OF that(3)])
    have "stack_ok s1" using that(1) s unfolding keeps_def by blast
    then have o2: "st4.owns s2 p (src, dst)" "stack_ok s2" using k that(2) unfolding keeps_def by blast+
    have "config s = config s2" using k that(1) unfolding keeps_def by simp
    note c = config_eqD [OF this]
    show ?thesis
      using accept_conn4 [OF o2(1)] reply_back4 [OF o2(2,1)] n c by auto
  qed
  show ?thesis
    by (rule exI [of _ p], rule returns_mono [OF p]) (use later s in \<open>auto simp: keeps_def\<close>)
qed

lemma round_trip6:
  assumes w: "world_ok w" and s: "stack_ok s" and o: "opens6 s src dst d b" and n: "IsGlobalUnicast (sy_inet6NextAddress s)"
  shows "(\<exists>p. returns (processPacket w s b) (\<lambda>(s1, b1, writeBack, effs). writeBack \<and> effs = [] \<and> stack_ok s1 \<and>
      tcp6 (sy_txChecksumOffload s) (sy_inet6NextAddress s, p) (listener6 s) d b1 \<and>
      (\<forall>es s2 w2. stack_run es s1 = Some s2 \<longrightarrow> snd (acceptLoop6 w2 p s2) = [NewConnection src dst] \<and>
        (\<forall>r e. tcp6 (sy_txChecksumOffload s) (listener6 s) (sy_inet6NextAddress s, p) e r \<and>
            IPv6_TransportProtocol r = Some TCPProtocolNumber \<longrightarrow>
          returns (processPacket w2 s2 r) (\<lambda>(s3, r3, writeBack, effs). writeBack \<and> effs = [] \<and>
            tcp6 (sy_txChecksumOffload s) dst src e r3)))))"
proof -
  let ?off = "sy_txChecksumOffload s" and ?next = "sy_inet6NextAddress s"
  obtain p where p: "returns (processPacket w s b) (\<lambda>(s1, b1, writeBack, effs). writeBack \<and> effs = [] \<and> keeps s s1 \<and>
      st6.owns s1 p (src, dst) \<and> tcp6 ?off (?next, p) (listener6 s) d b1)"
    using connection6 [OF w s o] by blast
  have later: "snd (acceptLoop6 w2 p s2) = [NewConnection src dst] \<and>
      (\<forall>r e. tcp6 ?off (listener6 s) (?next, p) e r \<and> IPv6_TransportProtocol r = Some TCPProtocolNumber \<longrightarrow>
        returns (processPacket w2 s2 r) (\<lambda>(s3, r3, writeBack, effs). writeBack \<and> effs = [] \<and> tcp6 ?off dst src e r3))"
    if "keeps s s1" "st6.owns s1 p (src, dst)" "stack_run es s1 = Some s2" for s1 es s2 w2
  proof -
    have k: "keeps s1 s2" by (rule run_keeps [OF that(3)])
    have "stack_ok s1" using that(1) s unfolding keeps_def by blast
    then have o2: "st6.owns s2 p (src, dst)" "stack_ok s2" using k that(2) unfolding keeps_def by blast+
    have "config s = config s2" using k that(1) unfolding keeps_def by simp
    note c = config_eqD [OF this]
    show ?thesis
      using accept_conn6 [OF o2(1)] reply_back6 [OF o2(2,1)] n c by auto
  qed
  show ?thesis
    by (rule exI [of _ p], rule returns_mono [OF p]) (use later s in \<open>auto simp: keeps_def\<close>)
qed

text \<open>
  C1. Connections through the stack, for IPv4 and IPv6. A TCP packet from a client to an outside address, for which the
  table has an entry or a free port, is rewritten to a packet from a port \<open>p\<close> of the stack's second
  address to its listener, with right checksums and the same data. From then on, whatever packets and
  connections the stack handles in between, a connection the listener accepts from \<open>p\<close> is given to the
  handler with the endpoints the client chose, and every packet the listener sends to \<open>p\<close> is
  rewritten to one from the outside address to the client, with right checksums and the same data. (Entries leave the
  table only by their timeout.)
\<close>

theorem TCP_connection:
  assumes "world_ok w" and "stack_ok s"
    and "opens4 s src dst d b" and "IsGlobalUnicast (sy_inet4NextAddress s)" and "sy_inet4NextAddress s \<noteq> sy_broadcastAddr s"
    and "opens6 s src' dst' d' c" and "IsGlobalUnicast (sy_inet6NextAddress s)"
  shows "(\<exists>p. returns (processPacket w s b) (\<lambda>(s1, b1, writeBack, effs). writeBack \<and> effs = [] \<and> stack_ok s1 \<and>
      tcp4 (sy_txChecksumOffload s) (sy_inet4NextAddress s, p) (listener4 s) d b1 \<and>
      (\<forall>es s2 w2. stack_run es s1 = Some s2 \<longrightarrow> snd (acceptLoop4 w2 p s2) = [NewConnection src dst] \<and>
        (\<forall>r e. tcp4 (sy_txChecksumOffload s) (listener4 s) (sy_inet4NextAddress s, p) e r \<and>
            IPv4_TransportProtocol r = Some TCPProtocolNumber \<longrightarrow>
          returns (processPacket w2 s2 r) (\<lambda>(s3, r3, writeBack, effs). writeBack \<and> effs = [] \<and>
            tcp4 (sy_txChecksumOffload s) dst src e r3))))) \<and>
    (\<exists>p. returns (processPacket w s c) (\<lambda>(s1, b1, writeBack, effs). writeBack \<and> effs = [] \<and> stack_ok s1 \<and>
      tcp6 (sy_txChecksumOffload s) (sy_inet6NextAddress s, p) (listener6 s) d' b1 \<and>
      (\<forall>es s2 w2. stack_run es s1 = Some s2 \<longrightarrow> snd (acceptLoop6 w2 p s2) = [NewConnection src' dst'] \<and>
        (\<forall>r e. tcp6 (sy_txChecksumOffload s) (listener6 s) (sy_inet6NextAddress s, p) e r \<and>
            IPv6_TransportProtocol r = Some TCPProtocolNumber \<longrightarrow>
          returns (processPacket w2 s2 r) (\<lambda>(s3, r3, writeBack, effs). writeBack \<and> effs = [] \<and>
            tcp6 (sy_txChecksumOffload s) dst' src' e r3)))))"
  using round_trip4 [OF assms(1-5)] round_trip6 [OF assms(1,2,6,7)] by (rule conjI)

lemma sample_ok: "stack_ok sample_system"
  using nat_inv_New [of 60] by (simp add: stack_ok_def family_ok_def sample_system_def owner_def NewNat_def)

lemma sample_opens:
  "opens4 sample_system (Addr4 [10, 0, 0, 1], 1024) (Addr4 [10, 0, 0, 2], 80) (Some []) syn4"
  "opens6 sample_system (Addr16 (fd00 1), 1024) (Addr16 (fd00 2), 80) (Some []) syn6"
proof -
  have v: "valid4 syn4 (length syn4)" "hlen4 syn4 = 20" "tlen4 syn4 = 40" "valid6 syn6 (length syn6)" "plen6 syn6 = 20"
    by (simp_all add: syn4_def valid4_def hlen4_def tlen4_def syn6_def valid6_def plen6_def)
  have p: "(IPv4_Payload syn4 \<bind> TCP_Payload) = Some []" "(IPv6_Payload syn6 \<bind> TCP_Payload) = Some []"
    using IPv4_Payload_eq [OF v(1) order_refl] IPv6_Payload_eq [OF v(4) order_refl] v
    by (simp_all add: syn4_def syn6_def TCP_Payload_eq tcp_off_def)
  have t: "IPv4_TransportProtocol syn4 = Some 6" "IPv6_TransportProtocol syn6 = Some 6"
    by (simp_all add: syn4_def syn6_def IPv4_TransportProtocol_def IPv4_Protocol_def IPv6_TransportProtocol_def IPv6_NextHeader_def go_simps)
  have f: "\<exists>p \<ge> 10000. n_portMap (NewNat 60) p = None" by (intro exI [of _ 10000]) (simp add: NewNat_def)
  show "opens4 sample_system (Addr4 [10, 0, 0, 1], 1024) (Addr4 [10, 0, 0, 2], 80) (Some []) syn4"
    using syn4_good syn4_endpoints p(1) t(1) f by (simp add: opens4_def tcp4_def sample_system_def sample_unicast)
  show "opens6 sample_system (Addr16 (fd00 1), 1024) (Addr16 (fd00 2), 80) (Some []) syn6"
    using syn6_good syn6_endpoints p(2) t(2) f by (simp add: opens6_def tcp6_def sample_system_def sample_unicast)
qed

lemma sample_next: "IsGlobalUnicast (sy_inet4NextAddress sample_system)" "sy_inet4NextAddress sample_system \<noteq> sy_broadcastAddr sample_system"
    "IsGlobalUnicast (sy_inet6NextAddress sample_system)"
  by (simp_all add: sample_system_def sample_unicast)

theorem TCP_connection_witness:
  "\<exists>p. returns (processPacket sample_world sample_system syn4) (\<lambda>(s1, b1, writeBack, effs). writeBack \<and> effs = [] \<and>
     tcp4 False (Addr4 [172, 18, 0, 2], p) (Addr4 [172, 18, 0, 1], 443) (Some []) b1 \<and>
     snd (acceptLoop4 sample_world p s1) = [NewConnection (Addr4 [10, 0, 0, 1], 1024) (Addr4 [10, 0, 0, 2], 80)])"
proof -
  have c: "sy_txChecksumOffload sample_system = False" "sy_inet4NextAddress sample_system = Addr4 [172, 18, 0, 2]"
    "listener4 sample_system = (Addr4 [172, 18, 0, 1], 443)"
    by (simp_all add: sample_system_def)
  note t = TCP_connection [OF sample_world_ok sample_ok sample_opens(1) sample_next(1,2) sample_opens(2) sample_next(3)]
  obtain p where p: "returns (processPacket sample_world sample_system syn4) (\<lambda>(s1, b1, writeBack, effs). writeBack \<and> effs = [] \<and>
      stack_ok s1 \<and> tcp4 False (Addr4 [172, 18, 0, 2], p) (Addr4 [172, 18, 0, 1], 443) (Some []) b1 \<and>
      (\<forall>es s2 w2. stack_run es s1 = Some s2 \<longrightarrow>
        snd (acceptLoop4 w2 p s2) = [NewConnection (Addr4 [10, 0, 0, 1], 1024) (Addr4 [10, 0, 0, 2], 80)] \<and>
        (\<forall>r e. tcp4 False (Addr4 [172, 18, 0, 1], 443) (Addr4 [172, 18, 0, 2], p) e r \<and> IPv4_TransportProtocol r = Some TCPProtocolNumber \<longrightarrow>
          returns (processPacket w2 s2 r) (\<lambda>(s3, r1, writeBack, effs). writeBack \<and> effs = [] \<and>
            tcp4 False (Addr4 [10, 0, 0, 2], 80) (Addr4 [10, 0, 0, 1], 1024) e r1))))"
    using conjunct1 [OF t [unfolded c]] by blast
  then obtain s1 b1 where s: "processPacket sample_world sample_system syn4 = Some (s1, b1, True, [])"
    "tcp4 False (Addr4 [172, 18, 0, 2], p) (Addr4 [172, 18, 0, 1], 443) (Some []) b1"
    and "\<forall>es s2 w2. stack_run es s1 = Some s2 \<longrightarrow>
        snd (acceptLoop4 w2 p s2) = [NewConnection (Addr4 [10, 0, 0, 1], 1024) (Addr4 [10, 0, 0, 2], 80)]"
    by (auto simp: returns_iff)
  then have "snd (acceptLoop4 sample_world p s1) = [NewConnection (Addr4 [10, 0, 0, 1], 1024) (Addr4 [10, 0, 0, 2], 80)]"
    using stack_run.simps(1) [of s1] by blast
  with s show ?thesis
    by (intro exI [of _ p]) (simp add: returns_iff)
qed

end
