(* ===== verification/Netip_Prefix.thy ===== *)
theory Netip_Prefix
  imports Netip
begin

text \<open>
  The rest of what the sources use of \<^verbatim>\<open>net/netip\<close> and \<^verbatim>\<open>net\<close>: the successor of an address, prefixes
  and masks. An address is read as a number, most significant byte first. A prefix that is not valid
  has \<open>-1\<close> bits, as \<^verbatim>\<open>Prefix.Bits\<close> says. (\<^verbatim>\<open>Next\<close> of the zero address is again an address that is not valid.)
\<close>

primrec nat_be :: "nat \<Rightarrow> nat \<Rightarrow> bytes" where
  "nat_be 0 v = []"
| "nat_be (Suc k) v = word_of_nat (v div 256 ^ k) # nat_be k v"

definition Addr_IsValid :: "Addr \<Rightarrow> bool" where
  "Addr_IsValid a \<longleftrightarrow> a \<noteq> ZeroAddr"

definition Addr_BitLen :: "Addr \<Rightarrow> nat" where
  "Addr_BitLen a = (case a of ZeroAddr \<Rightarrow> 0 | Addr4 _ \<Rightarrow> 32 | Addr16 _ \<Rightarrow> 128)"

definition Addr_Next :: "Addr \<Rightarrow> Addr" where
  "Addr_Next a = (case a of
     ZeroAddr \<Rightarrow> ZeroAddr
   | Addr4 b \<Rightarrow> if be_nat b + 1 = 2 ^ 32 then ZeroAddr else Addr4 (nat_be 4 (be_nat b + 1))
   | Addr16 b \<Rightarrow> if be_nat b + 1 = 2 ^ 128 then ZeroAddr else Addr16 (nat_be 16 (be_nat b + 1)))"

record Prefix =
  pf_Addr :: Addr
  pf_Bits :: int

definition PrefixFrom :: "Addr \<Rightarrow> int \<Rightarrow> Prefix" where
  "PrefixFrom ip bits =
     \<lparr>pf_Addr = ip, pf_Bits = (if ip \<noteq> ZeroAddr \<and> 0 \<le> bits \<and> bits \<le> int (Addr_BitLen ip) then bits else -1)\<rparr>"

definition Prefix_Contains :: "Prefix \<Rightarrow> Addr \<Rightarrow> bool" where
  "Prefix_Contains p ip \<longleftrightarrow> 0 \<le> pf_Bits p \<and> Addr_BitLen (pf_Addr p) = Addr_BitLen ip \<and> Addr_BitLen ip \<noteq> 0 \<and>
     (let k = Addr_BitLen ip - nat (pf_Bits p)
      in be_nat (Addr_AsSlice ip) div 2 ^ k = be_nat (Addr_AsSlice (pf_Addr p)) div 2 ^ k)"

definition Prefix_Masked :: "Prefix \<Rightarrow> Prefix" where
  "Prefix_Masked p =
     (if pf_Bits p < 0 then \<lparr>pf_Addr = ZeroAddr, pf_Bits = -1\<rparr>
      else let k = Addr_BitLen (pf_Addr p) - nat (pf_Bits p);
               v = be_nat (Addr_AsSlice (pf_Addr p)) div 2 ^ k * 2 ^ k
           in \<lparr>pf_Addr = (case pf_Addr p of ZeroAddr \<Rightarrow> ZeroAddr | Addr4 _ \<Rightarrow> Addr4 (nat_be 4 v) | Addr16 _ \<Rightarrow> Addr16 (nat_be 16 v)),
               pf_Bits = pf_Bits p\<rparr>)"

text \<open>\<^verbatim>\<open>net.CIDRMask\<close>, where the nil slice is the empty list.\<close>

definition CIDRMask :: "int \<Rightarrow> nat \<Rightarrow> bytes" where
  "CIDRMask ones bits =
     (if bits \<noteq> 32 \<and> bits \<noteq> 128 \<or> ones < 0 \<or> int bits < ones then []
      else nat_be (bits div 8) (2 ^ bits - 2 ^ (bits - nat ones)))"

section \<open>Lemmas\<close>

lemma length_nat_be [simp]: "length (nat_be k v) = k"
  by (induction k) simp_all

lemma nat_be_mod: "nat_be k (v mod 256 ^ k) = nat_be k v"
proof -
  have "nat_be j (v mod 256 ^ k) = nat_be j v" if "j \<le> k" for j
    using that
  proof (induction j)
    case (Suc j)
    have "(256 :: nat) ^ k = 256 ^ j * 256 ^ (k - j)" using Suc.prems by (simp flip: power_add)
    then have "v mod 256 ^ k div 256 ^ j = v div 256 ^ j mod 256 ^ (k - j)"
      by (simp add: mod_mult2_eq)
    moreover have "256 ^ (k - j) = (256 :: nat) * 256 ^ (k - Suc j)"
      using Suc.prems by (simp flip: power_Suc add: Suc_diff_Suc)
    ultimately show ?case using Suc by (simp add: word_unat_eq_iff unat_of_nat mod_mod_cancel)
  qed simp
  then show ?thesis by simp
qed

lemma be_nat_be: "be_nat (nat_be k v) = v mod 256 ^ k"
proof (induction k)
  case (Suc k)
  have "v mod 256 ^ Suc k = v div 256 ^ k mod 256 * 256 ^ k + v mod 256 ^ k"
    by (metis add.commute mod_mult2_eq mult.commute power_Suc)
  then show ?case using Suc by (simp add: be_nat_Cons unat_of_nat mult.commute)
qed simp

lemma nat_be_nat: "nat_be (length b) (be_nat b) = b"
proof (induction b)
  case (Cons x xs)
  have "(unat x * 256 ^ length xs + be_nat xs) div 256 ^ length xs = unat x"
    using be_nat_bound [of xs] by simp
  moreover have "nat_be (length xs) (unat x * 256 ^ length xs + be_nat xs) = nat_be (length xs) (be_nat xs)"
    using nat_be_mod [of "length xs" "unat x * 256 ^ length xs + be_nat xs"] be_nat_bound [of xs] by simp
  ultimately show ?case using Cons by (simp add: be_nat_Cons mult.commute)
qed simp

end
