(* ===== verification/System_Start.thy ===== *)
theory System_Start
  imports System_Packet Netip_Prefix
begin

text \<open>
  Construction and start of the system stack: \<^verbatim>\<open>HasNextAddress\<close> and \<^verbatim>\<open>BroadcastAddr\<close> of \<^verbatim>\<open>stack.go\<close>,
  \<^verbatim>\<open>NewSystem\<close> and \<^verbatim>\<open>start\<close> of \<^verbatim>\<open>stack_system.go\<close>. What \<^verbatim>\<open>Listen\<close> returns, per network, address and attempt, is an
  argument of \<open>start\<close>. The theorems: the addresses a stack is configured with, the invariant of every state
  a started stack reaches, the packets that panic it, and that reading packets in batches does what
  reading them one by one does.
\<close>

section \<open>Construction\<close>

record StackOptions =
  so_MTU :: u32
  so_Inet4Address :: "Prefix list"
  so_Inet6Address :: "Prefix list"
  so_Inet4LoopbackAddress :: "Addr list"
  so_Inet6LoopbackAddress :: "Addr list"
  so_UDPTimeout :: int
  so_EnforceBindInterface :: bool
  so_EXP_RecvMsgX :: bool

datatype stack_error = NeedNextIPv4 | NeedNextIPv6 | MissingInterfaceAddress

definition HasNextAddress :: "Prefix \<Rightarrow> nat \<Rightarrow> bool" where
  "HasNextAddress prefix count = Prefix_Contains prefix ((Addr_Next ^^ count) (pf_Addr prefix))"

definition BroadcastAddr :: "Prefix list \<Rightarrow> Addr option" where
  "BroadcastAddr inet4Address = (case inet4Address of
     [] \<Rightarrow> Some ZeroAddr
   | prefix # _ \<Rightarrow> do {
       a \<leftarrow> BE_Uint32 (Addr_AsSlice (pf_Addr (Prefix_Masked prefix))) 0;
       m \<leftarrow> BE_Uint32 (CIDRMask (pf_Bits prefix) 32) 0;
       broadcastAddr \<leftarrow> BE_PutUint32 (replicate 4 0) 0 (a OR NOT m);
       Some (Addr4 broadcastAddr) })"

definition NewSystem :: "StackOptions \<Rightarrow> (stack_error + System) option" where
  "NewSystem options = do {
     broadcastAddr \<leftarrow> BroadcastAddr (so_Inet4Address options);
     let stack = \<lparr>sy_mtu = uint (so_MTU options), sy_inet4Address = ZeroAddr, sy_inet4NextAddress = ZeroAddr,
       sy_inet6Address = ZeroAddr, sy_inet6NextAddress = ZeroAddr, sy_broadcastAddr = broadcastAddr,
       sy_inet4LoopbackAddress = so_Inet4LoopbackAddress options, sy_inet6LoopbackAddress = so_Inet6LoopbackAddress options,
       sy_udpTimeout = so_UDPTimeout options, sy_tcpPort = 0, sy_tcpPort6 = 0, sy_tcpNat4 = None, sy_tcpNat6 = None,
       sy_enforceBind = so_EnforceBindInterface options, sy_frontHeadroom = 0, sy_txChecksumOffload = False,
       sy_recvMsgX = so_EXP_RecvMsgX options\<rparr>;
     Some (case (case so_Inet4Address options of
           [] \<Rightarrow> Inr stack
         | p # _ \<Rightarrow> if \<not> HasNextAddress p 1 then Inl NeedNextIPv4
             else Inr (stack\<lparr>sy_inet4Address := pf_Addr p, sy_inet4NextAddress := Addr_Next (pf_Addr p)\<rparr>)) of
       Inl err \<Rightarrow> Inl err
     | Inr stack \<Rightarrow> (case (case so_Inet6Address options of
           [] \<Rightarrow> Inr stack
         | p # _ \<Rightarrow> if \<not> HasNextAddress p 1 then Inl NeedNextIPv6
             else Inr (stack\<lparr>sy_inet6Address := pf_Addr p, sy_inet6NextAddress := Addr_Next (pf_Addr p)\<rparr>)) of
         Inl err \<Rightarrow> Inl err
       | Inr stack \<Rightarrow>
           if \<not> Addr_IsValid (sy_inet4NextAddress stack) \<and> \<not> Addr_IsValid (sy_inet6NextAddress stack)
           then Inl MissingInterfaceAddress else Inr stack)) }"

section \<open>Start\<close>

datatype listen_error = EADDRNOTAVAIL | OtherListenError

text \<open>The address to listen on: the host with port 0, or a literal.\<close>

datatype listen_address = HostPort Addr | Literal string

type_synonym listen = "string \<Rightarrow> listen_address \<Rightarrow> nat \<Rightarrow> listen_error + u16"

definition retryableListenError :: "listen_error + u16 \<Rightarrow> bool" where
  "retryableListenError r \<longleftrightarrow> r = Inl EADDRNOTAVAIL"

text \<open>The loop of at most three attempts; \<open>i\<close> is the number of the next one and \<open>r\<close> the last result.\<close>

fun listen_loop :: "nat \<Rightarrow> (nat \<Rightarrow> listen_error + u16) \<Rightarrow> nat \<Rightarrow> listen_error + u16 \<Rightarrow> listen_error + u16" where
  "listen_loop 0 listen i r = r"
| "listen_loop (Suc n) listen i r =
     (let r = listen i in if \<not> retryableListenError r then r else listen_loop n listen (i + 1) r)"

definition start4 :: "listen \<Rightarrow> System \<Rightarrow> System \<times> listen_error option" where
  "start4 listen s = (if Addr_IsValid (sy_inet4NextAddress s) then
     (let address = (if sy_enforceBind s then Literal ''0.0.0.0:0'' else HostPort (sy_inet4Address s))
      in case listen_loop 3 (listen ''tcp4'' address) 0 (Inl OtherListenError) of
           Inl err \<Rightarrow> (s, Some err)
         | Inr port \<Rightarrow> (s\<lparr>sy_tcpPort := port, sy_tcpNat4 := Some (NewNat (sy_udpTimeout s))\<rparr>, None))
     else (s, None))"

definition start6 :: "listen \<Rightarrow> System \<Rightarrow> System \<times> listen_error option" where
  "start6 listen s = (if Addr_IsValid (sy_inet6NextAddress s) then
     (let address = (if sy_enforceBind s then Literal ''[:]:0'' else HostPort (sy_inet6Address s))
      in case listen_loop 3 (listen ''tcp6'' address) 0 (Inl OtherListenError) of
           Inl err \<Rightarrow> (s, Some err)
         | Inr port \<Rightarrow> (s\<lparr>sy_tcpPort6 := port, sy_tcpNat6 := Some (NewNat (sy_udpTimeout s))\<rparr>, None))
     else (s, None))"

definition start :: "listen \<Rightarrow> System \<Rightarrow> System \<times> listen_error option" where
  "start listen s = (case start4 listen s of
     (s, Some err) \<Rightarrow> (s, Some err)
   | (s, None) \<Rightarrow> start6 listen s)"

section \<open>The addresses of a stack\<close>

text \<open>What \<^verbatim>\<open>netip\<close> guarantees of a prefix, with an address of the family it is configured for.\<close>

definition prefix4 :: "Prefix \<Rightarrow> bool" where
  "prefix4 p \<longleftrightarrow> is4 (pf_Addr p) \<and> 0 \<le> pf_Bits p \<and> pf_Bits p \<le> 32"

definition prefix6 :: "Prefix \<Rightarrow> bool" where
  "prefix6 p \<longleftrightarrow> is6 (pf_Addr p) \<and> 0 \<le> pf_Bits p \<and> pf_Bits p \<le> 128"

abbreviation addr_nat :: "Addr \<Rightarrow> nat" where
  "addr_nat a \<equiv> be_nat (Addr_AsSlice a)"

text \<open>The number of addresses of a prefix.\<close>

definition prefix_size :: "Prefix \<Rightarrow> nat" where
  "prefix_size p = 2 ^ (Addr_BitLen (pf_Addr p) - nat (pf_Bits p))"

lemma next4:
  assumes "is4 a" and "Addr_Next a \<noteq> ZeroAddr"
  shows "is4 (Addr_Next a)" and "addr_nat (Addr_Next a) = addr_nat a + 1"
proof -
  obtain b where b: "a = Addr4 b" "length b = 4" using is4D [OF assms(1)] by blast
  have "be_nat b + 1 < 2 ^ 32" using assms(2) b be_nat_bound [of b] by (auto simp: Addr_Next_def split: if_splits)
  then show "is4 (Addr_Next a)" "addr_nat (Addr_Next a) = addr_nat a + 1"
    by (simp_all add: b Addr_Next_def be_nat_be)
qed

lemma next6:
  assumes "is6 a" and "Addr_Next a \<noteq> ZeroAddr"
  shows "is6 (Addr_Next a)" and "addr_nat (Addr_Next a) = addr_nat a + 1"
proof -
  obtain b where b: "a = Addr16 b" "length b = 16" using is6D [OF assms(1)] by blast
  have "be_nat b + 1 < 2 ^ 128" using assms(2) b be_nat_bound [of b] by (auto simp: Addr_Next_def split: if_splits)
  then show "is6 (Addr_Next a)" "addr_nat (Addr_Next a) = addr_nat a + 1"
    by (simp_all add: b Addr_Next_def be_nat_be)
qed

lemma HasNext_valid: "HasNextAddress p 1 \<Longrightarrow> Addr_Next (pf_Addr p) \<noteq> ZeroAddr"
  by (auto simp: HasNextAddress_def Prefix_Contains_def Addr_BitLen_def)

lemma contains_iff:
  assumes "0 \<le> pf_Bits p" and "Addr_BitLen a = Addr_BitLen (pf_Addr p)" and "a \<noteq> ZeroAddr"
  shows "Prefix_Contains p a \<longleftrightarrow> addr_nat a div prefix_size p = addr_nat (pf_Addr p) div prefix_size p"
  using assms by (auto simp: Prefix_Contains_def prefix_size_def Addr_BitLen_def Let_def split: Addr.splits)

lemma or_not_mask:
  assumes "k \<le> 32" and "q * 2 ^ k < 2 ^ 32"
  shows "unat (word_of_nat (q * 2 ^ k) OR NOT (word_of_nat (2 ^ 32 - 2 ^ k)) :: u32) = q * 2 ^ k + (2 ^ k - 1)"
proof -
  have le: "(2 :: nat) ^ k \<le> 2 ^ 32" using assms(1) by (intro power_increasing) simp_all
  then have "(word_of_nat (2 ^ 32 - 2 ^ k) :: u32) + word_of_nat (2 ^ k) = word_of_nat (2 ^ 32)"
    unfolding of_nat_add [symmetric] by simp
  also have "\<dots> = 0" unfolding word_of_nat_eq_0_iff by simp
  finally have "(word_of_nat (2 ^ 32 - 2 ^ k) :: u32) = - (2 ^ k)" by (simp add: add_eq_0_iff2)
  then have m: "NOT (word_of_nat (2 ^ 32 - 2 ^ k)) = (mask k :: u32)" by (simp add: not_eq_complement mask_eq_exp_minus_1)
  have "(word_of_nat (q * 2 ^ k) :: u32) AND mask k = 0"
    unfolding take_bit_eq_mask [symmetric] take_bit_of_nat by (simp add: take_bit_eq_mod)
  then have "word_of_nat (q * 2 ^ k) OR (mask k :: u32) = word_of_nat (q * 2 ^ k) + mask k"
    by (simp add: disjunctive_add_eq_or)
  also have "\<dots> = word_of_nat (q * 2 ^ k + (2 ^ k - 1))"
    unfolding of_nat_add by (simp add: mask_eq_exp_minus_1 of_nat_diff)
  finally have e: "word_of_nat (q * 2 ^ k) OR NOT (word_of_nat (2 ^ 32 - 2 ^ k)) = (word_of_nat (q * 2 ^ k + (2 ^ k - 1)) :: u32)"
    unfolding m .
  have "(q + 1) * 2 ^ k \<le> (2 :: nat) ^ 32"
  proof -
    have "q * 2 ^ k < 2 ^ (32 - k) * 2 ^ k" using assms by (simp flip: power_add)
    then have "q + 1 \<le> 2 ^ (32 - k)" by simp
    then have "(q + 1) * 2 ^ k \<le> 2 ^ (32 - k) * 2 ^ k" by (rule mult_right_mono) simp
    then show ?thesis using assms(1) by (simp flip: power_add)
  qed
  then show ?thesis unfolding e by (intro unat_of_nat_u32) simp
qed

lemma broadcast_last:
  assumes "prefix4 p"
  shows "returns (BroadcastAddr (p # ps)) (\<lambda>a. is4 a \<and>
    addr_nat a = addr_nat (pf_Addr p) div prefix_size p * prefix_size p + (prefix_size p - 1))"
proof -
  obtain b where b: "pf_Addr p = Addr4 b" "length b = 4" using assms is4D [of "pf_Addr p"] by (auto simp: prefix4_def)
  define k where "k = 32 - nat (pf_Bits p)"
  define q where "q = be_nat b div 2 ^ k"
  have k: "k \<le> 32" "prefix_size p = 2 ^ k" using b by (simp_all add: k_def prefix_size_def Addr_BitLen_def)
  have q: "q * 2 ^ k < 2 ^ 32" unfolding q_def
    by (rule le_less_trans [OF div_times_less_eq_dividend]) (use be_nat_bound [of b] b(2) in simp)
  have a: "Addr_AsSlice (pf_Addr (Prefix_Masked p)) = nat_be 4 (q * 2 ^ k)"
    using assms b by (simp add: Prefix_Masked_def prefix4_def Let_def Addr_BitLen_def q_def k_def)
  have m: "CIDRMask (pf_Bits p) 32 = nat_be 4 (2 ^ 32 - 2 ^ k)"
    using assms by (simp add: CIDRMask_def prefix4_def k_def)
  have "be_nat (nat_be 4 (q * 2 ^ k)) = q * 2 ^ k" "be_nat (nat_be 4 (2 ^ 32 - 2 ^ k)) = 2 ^ 32 - 2 ^ k"
    using q by (simp_all add: be_nat_be)
  then show ?thesis
    using or_not_mask [OF k(1) q] a m b k(2) q_def
    by (simp add: BroadcastAddr_def BE_Uint32_def BE_PutUint32_def be_nat_u32_bytes)
qed

lemma contains_last:
  assumes "prefix4 p" and "is4 a" and "addr_nat a = addr_nat (pf_Addr p) div prefix_size p * prefix_size p + (prefix_size p - 1)"
  shows "Prefix_Contains p a" and "Prefix_Contains p c \<Longrightarrow> addr_nat c \<le> addr_nat a"
proof -
  have a: "Addr_BitLen a = 32" "a \<noteq> ZeroAddr" "Addr_BitLen (pf_Addr p) = 32" "0 \<le> pf_Bits p"
    using is4D [OF assms(2)] is4D [of "pf_Addr p"] assms(1) by (auto simp: Addr_BitLen_def prefix4_def)
  have k: "0 < prefix_size p" by (simp add: prefix_size_def)
  have "(q * n + r) div n = q" if "r < n" for q n r :: nat using that by simp
  from this [of "prefix_size p - 1" "prefix_size p" "addr_nat (pf_Addr p) div prefix_size p"]
  show "Prefix_Contains p a" using contains_iff [of p a] a assms(3) k by simp
  assume c: "Prefix_Contains p c"
  then have "addr_nat c div prefix_size p = addr_nat (pf_Addr p) div prefix_size p"
    by (auto simp: Prefix_Contains_def prefix_size_def Let_def)
  then show "addr_nat c \<le> addr_nat a"
    using assms(3) k div_mult_mod_eq [of "addr_nat c" "prefix_size p"] mod_less_divisor [OF k, of "addr_nat c"] by simp
qed

text \<open>The configuration \<^verbatim>\<open>NewSystem\<close> makes of the first prefix of each family.\<close>

definition configured4 :: "Prefix list \<Rightarrow> System \<Rightarrow> bool" where
  "configured4 ps s = (case ps of
     [] \<Rightarrow> sy_inet4Address s = ZeroAddr \<and> sy_inet4NextAddress s = ZeroAddr
   | p # _ \<Rightarrow> sy_inet4Address s = pf_Addr p \<and> is4 (sy_inet4NextAddress s) \<and>
       addr_nat (sy_inet4NextAddress s) = addr_nat (pf_Addr p) + 1 \<and> Prefix_Contains p (sy_inet4NextAddress s) \<and>
       is4 (sy_broadcastAddr s) \<and> Prefix_Contains p (sy_broadcastAddr s) \<and>
       (\<forall>a. Prefix_Contains p a \<longrightarrow> addr_nat a \<le> addr_nat (sy_broadcastAddr s)))"

definition configured6 :: "Prefix list \<Rightarrow> System \<Rightarrow> bool" where
  "configured6 ps s = (case ps of
     [] \<Rightarrow> sy_inet6Address s = ZeroAddr \<and> sy_inet6NextAddress s = ZeroAddr
   | p # _ \<Rightarrow> sy_inet6Address s = pf_Addr p \<and> is6 (sy_inet6NextAddress s) \<and>
       addr_nat (sy_inet6NextAddress s) = addr_nat (pf_Addr p) + 1 \<and> Prefix_Contains p (sy_inet6NextAddress s))"

lemma NewSystem_fields:
  assumes "NewSystem opts = Some (Inr s)"
  shows "BroadcastAddr (so_Inet4Address opts) = Some (sy_broadcastAddr s)" and "sy_tcpNat4 s = None" and "sy_tcpNat6 s = None"
    and "case so_Inet4Address opts of [] \<Rightarrow> sy_inet4Address s = ZeroAddr \<and> sy_inet4NextAddress s = ZeroAddr
      | p # _ \<Rightarrow> HasNextAddress p 1 \<and> sy_inet4Address s = pf_Addr p \<and> sy_inet4NextAddress s = Addr_Next (pf_Addr p)"
    and "case so_Inet6Address opts of [] \<Rightarrow> sy_inet6Address s = ZeroAddr \<and> sy_inet6NextAddress s = ZeroAddr
      | p # _ \<Rightarrow> HasNextAddress p 1 \<and> sy_inet6Address s = pf_Addr p \<and> sy_inet6NextAddress s = Addr_Next (pf_Addr p)"
  using assms by (cases "so_Inet4Address opts"; cases "so_Inet6Address opts";
    clarsimp simp: NewSystem_def Let_def bind_eq_Some_conv split: if_splits)+

lemma NewSystem_configured:
  assumes "NewSystem opts = Some (Inr s)" and "list_all prefix4 (so_Inet4Address opts)" and "list_all prefix6 (so_Inet6Address opts)"
  shows "configured4 (so_Inet4Address opts) s" and "configured6 (so_Inet6Address opts) s"
proof -
  note f = NewSystem_fields [OF assms(1)]
  show "configured4 (so_Inet4Address opts) s"
  proof (cases "so_Inet4Address opts")
    case (Cons p ps)
    then have p: "prefix4 p" "HasNextAddress p 1" using assms(2) f(4) by simp_all
    obtain a where "BroadcastAddr (p # ps) = Some a" "is4 a" and
      "addr_nat a = addr_nat (pf_Addr p) div prefix_size p * prefix_size p + (prefix_size p - 1)"
      using broadcast_last [OF p(1), of ps] by (auto simp: returns_iff)
    with f(1,4) p contains_last [OF p(1), of a] next4 [of "pf_Addr p"] HasNext_valid [OF p(2)] show ?thesis
      by (simp add: Cons configured4_def prefix4_def HasNextAddress_def)
  qed (use f(4) in \<open>simp add: configured4_def\<close>)
  show "configured6 (so_Inet6Address opts) s"
    using f(5) assms(3) next6 HasNext_valid
    by (auto simp: configured6_def prefix6_def HasNextAddress_def split: list.split)
qed

section \<open>Every reachable state\<close>

lemma start_ok:
  assumes "start listen s0 = (s, r)" and "sy_tcpNat4 s0 = None" "sy_tcpNat6 s0 = None"
    and "configured4 ps s0" and "list_all prefix4 ps" and "configured6 qs s0" and "list_all prefix6 qs"
  shows "stack_ok s" and "configured4 ps s" and "configured6 qs s"
proof -
  have e: "sy_inet4Address s = sy_inet4Address s0" "sy_inet4NextAddress s = sy_inet4NextAddress s0" "sy_broadcastAddr s = sy_broadcastAddr s0"
    "sy_inet6Address s = sy_inet6Address s0" "sy_inet6NextAddress s = sy_inet6NextAddress s0"
    "sy_tcpNat4 s = None \<or> sy_tcpNat4 s = Some (NewNat (sy_udpTimeout s0)) \<and> sy_inet4NextAddress s0 \<noteq> ZeroAddr"
    "sy_tcpNat6 s = None \<or> sy_tcpNat6 s = Some (NewNat (sy_udpTimeout s0)) \<and> sy_inet6NextAddress s0 \<noteq> ZeroAddr"
    using assms(1-3) by (auto simp: start_def start4_def start6_def Let_def Addr_IsValid_def split: if_splits sum.splits)
  show c: "configured4 ps s" "configured6 qs s"
    using assms(4,6) unfolding configured4_def configured6_def e(1-5) by simp_all
  have "nat_inv (NewNat t)" "owner (NewNat t) p = None" for t p using nat_inv_New by (simp_all add: owner_def NewNat_def)
  moreover have "is4 (sy_inet4Address s) \<and> is4 (sy_inet4NextAddress s)" if "sy_inet4NextAddress s0 \<noteq> ZeroAddr"
    using c(1) assms(5) that e(2) by (auto simp: configured4_def prefix4_def split: list.splits)
  moreover have "is6 (sy_inet6Address s) \<and> is6 (sy_inet6NextAddress s)" if "sy_inet6NextAddress s0 \<noteq> ZeroAddr"
    using c(2) assms(7) that e(5) by (auto simp: configured6_def prefix6_def split: list.splits)
  ultimately show "stack_ok s"
    using e(6,7) by (auto simp: stack_ok_def family_ok_def)
qed

lemma configured_config: "configured4 ps (config s) = configured4 ps s" "configured6 ps (config s) = configured6 ps s"
  by (simp_all add: configured4_def configured6_def config_def split: list.split)

lemma reachable:
  assumes "NewSystem opts = Some (Inr s0)" and "list_all prefix4 (so_Inet4Address opts)" and "list_all prefix6 (so_Inet6Address opts)"
    and "start listen s0 = (s1, r)" and "stack_run es s1 = Some s"
  shows "stack_ok s" and "configured4 (so_Inet4Address opts) s" and "configured6 (so_Inet6Address opts) s"
  using start_ok [OF assms(4) NewSystem_fields(2,3) [OF assms(1)] NewSystem_configured(1) [OF assms(1-3)] assms(2)
      NewSystem_configured(2) [OF assms(1-3)] assms(3)]
    run_keeps [OF assms(5)] configured_config [of _ s] configured_config [of _ s1] by (simp_all add: keeps_def)

lemma is4_inj: "is4 a \<Longrightarrow> is4 b \<Longrightarrow> addr_nat a = addr_nat b \<Longrightarrow> a = b"
  by (metis is4D nat_be_nat Addr_AsSlice_simps(2))

lemma last_but_one:
  assumes "configured4 (p # ps) s" and "addr_nat (pf_Addr p) mod prefix_size p + 2 = prefix_size p"
  shows "sy_inet4NextAddress s = sy_broadcastAddr s"
proof -
  have c: "is4 (sy_inet4NextAddress s)" "is4 (sy_broadcastAddr s)" "addr_nat (sy_inet4NextAddress s) = addr_nat (pf_Addr p) + 1"
    "Prefix_Contains p (sy_broadcastAddr s)" "addr_nat (sy_inet4NextAddress s) \<le> addr_nat (sy_broadcastAddr s)"
    using assms(1) by (auto simp: configured4_def)
  have k: "0 < prefix_size p" by (simp add: prefix_size_def)
  have d: "addr_nat (sy_broadcastAddr s) div prefix_size p = addr_nat (pf_Addr p) div prefix_size p"
    using c(4) by (auto simp: Prefix_Contains_def prefix_size_def Let_def)
  have "addr_nat (sy_broadcastAddr s) \<le> addr_nat (pf_Addr p) + 1"
    using assms(2) div_mult_mod_eq [of "addr_nat (sy_broadcastAddr s)" "prefix_size p", unfolded d] div_mult_mod_eq [of "addr_nat (pf_Addr p)" "prefix_size p"]
      mod_less_divisor [OF k, of "addr_nat (sy_broadcastAddr s)"] by linarith
  then show ?thesis using c is4_inj by simp
qed

text \<open>
  The states of a stack that was built and started: the loop on Linux asks the device for its headroom and its
  checksum offload (\<^verbatim>\<open>tunLoop\<close>), packets and connections arrive, and the goroutine of each table removes old sessions at
  any time, in any order. (An operation on a table is one step here; the interleavings within them are the subject of \<open>Nat_Threads\<close>.)
\<close>

inductive stack_state :: "StackOptions \<Rightarrow> listen \<Rightarrow> System \<Rightarrow> bool" for opts listen where
  started: "NewSystem opts = Some (Inr s0) \<Longrightarrow> start listen s0 = (s, r) \<Longrightarrow> stack_state opts listen s"
| linux: "stack_state opts listen s \<Longrightarrow> stack_state opts listen (s\<lparr>sy_frontHeadroom := h, sy_txChecksumOffload := off\<rparr>)"
| event: "stack_state opts listen s \<Longrightarrow> stack_step e s = Some (s', effs) \<Longrightarrow> stack_state opts listen s'"
| expire4: "stack_state opts listen s \<Longrightarrow> sy_tcpNat4 s = Some n \<Longrightarrow> set order = dom (n_portMap n) \<Longrightarrow>
    stack_state opts listen (s\<lparr>sy_tcpNat4 := Some (checkTimeout now order n)\<rparr>)"
| expire6: "stack_state opts listen s \<Longrightarrow> sy_tcpNat6 s = Some n \<Longrightarrow> set order = dom (n_portMap n) \<Longrightarrow>
    stack_state opts listen (s\<lparr>sy_tcpNat6 := Some (checkTimeout now order n)\<rparr>)"

lemma family_ok_expire:
  assumes "family_ok fam (Some n) a b" and "set order = dom (n_portMap n)"
  shows "family_ok fam (Some (checkTimeout now order n)) a b"
proof -
  have n: "nat_inv n" "dom (n_portMap n) \<subseteq> set order" using assms by (simp_all add: family_ok_def)
  have "owner n p = Some k" if "owner (checkTimeout now order n) p = Some k" for p k
    using that unfolding owner_def checkTimeout_eq(1) [OF n] by (auto split: option.splits if_splits)
  then show ?thesis using assms(1) checkTimeout_inv [OF n] unfolding family_ok_def by blast
qed

lemma stack_state_inv:
  assumes "stack_state opts listen s" and o: "list_all prefix4 (so_Inet4Address opts)" "list_all prefix6 (so_Inet6Address opts)"
  shows "stack_ok s \<and> configured4 (so_Inet4Address opts) s \<and> configured6 (so_Inet6Address opts) s"
  using assms(1)
proof induction
  case (started s0 s r)
  then show ?case using reachable [OF started(1) o started(2) stack_run.simps(1)] by simp
next
  case (event s e s' effs)
  then show ?case using step_keeps [OF event(2)] configured_config [of _ s] configured_config [of _ s'] by (simp add: keeps_def)
next
  case (expire4 s n order now)
  then show ?case using family_ok_expire [of is4 n _ _ order now] by (auto simp: stack_ok_def configured4_def configured6_def split: list.splits)
next
  case (expire6 s n order now)
  then show ?case using family_ok_expire [of is6 n _ _ order now] by (auto simp: stack_ok_def configured4_def configured6_def split: list.splits)
qed (auto simp: stack_ok_def configured4_def configured6_def split: list.splits)

text \<open>
  C6. Every state a started stack reaches, whatever the device reports, packets arrive, connections are accepted and sessions
  expire, satisfies the invariant of the stack: both tables are one-to-one, hold addresses of their family only, and
  the addresses of a family with a table are well-formed. In all of them the second address is the
  successor of the first and lies in the prefix as well, and the broadcast address is the last of
  the prefix.
\<close>

theorem stack_reachable:
  assumes "stack_state opts listen s" and "list_all prefix4 (so_Inet4Address opts)" and "list_all prefix6 (so_Inet6Address opts)"
  shows "stack_ok s \<and> configured4 (so_Inet4Address opts) s \<and> configured6 (so_Inet6Address opts) s"
  by (rule stack_state_inv [OF assms])

text \<open>
  C17. \<^verbatim>\<open>NewSystem\<close> accepts an address that is the last but one of its prefix. The second address of such a
  stack is the broadcast address of the prefix, and every valid packet to it is ignored, the answers of the listener to translated
  connections among them: no connection over IPv4 can be made.
\<close>

theorem last_but_one_address:
  assumes "NewSystem opts = Some (Inr s0)" and "list_all prefix4 (so_Inet4Address opts)" and "list_all prefix6 (so_Inet6Address opts)"
    and "start listen s0 = (s1, r)" and "stack_run es s1 = Some s" and "so_Inet4Address opts = p # ps"
    and "addr_nat (pf_Addr p) mod prefix_size p + 2 = prefix_size p"
    and "IPVersion b = 4" and "IPv4_IsValid b (length b) = Some True" and "IPv4_DestinationAddr b = Some (sy_inet4NextAddress s)"
  shows "sy_inet4NextAddress s = sy_broadcastAddr s \<and> processPacket w s b = Some (s, b, False, [])"
proof
  show e: "sy_inet4NextAddress s = sy_broadcastAddr s"
    using reachable(2) [OF assms(1-5)] assms(6) by (intro last_but_one [OF _ assms(7)]) simp
  show "processPacket w s b = Some (s, b, False, [])"
    using assms(8-10) e by (simp add: processPacket_def processIPv4_def)
qed

definition sample_options :: "u8 \<Rightarrow> StackOptions" where
  "sample_options i = \<lparr>so_MTU = 9000, so_Inet4Address = [PrefixFrom (Addr4 [172, 18, 0, i]) 30],
     so_Inet6Address = [], so_Inet4LoopbackAddress = [], so_Inet6LoopbackAddress = [],
     so_UDPTimeout = 60, so_EnforceBindInterface = False, so_EXP_RecvMsgX = False\<rparr>"

definition sample_listen :: listen where
  "sample_listen network address i = (if i = 0 then Inl EADDRNOTAVAIL else Inr 443)"

definition sample_stack :: "u8 \<Rightarrow> System" where
  "sample_stack i = \<lparr>sy_mtu = 9000, sy_inet4Address = Addr4 [172, 18, 0, i], sy_inet4NextAddress = Addr4 [172, 18, 0, i + 1],
     sy_inet6Address = ZeroAddr, sy_inet6NextAddress = ZeroAddr, sy_broadcastAddr = Addr4 [172, 18, 0, 3],
     sy_inet4LoopbackAddress = [], sy_inet6LoopbackAddress = [], sy_udpTimeout = 60, sy_tcpPort = 0, sy_tcpPort6 = 0,
     sy_tcpNat4 = None, sy_tcpNat6 = None, sy_enforceBind = False, sy_frontHeadroom = 0,
     sy_txChecksumOffload = False, sy_recvMsgX = False\<rparr>"

lemma sample_new:
  assumes "i \<in> {1, 2}"
  shows "NewSystem (sample_options i) = Some (Inr (sample_stack i))"
proof -
  have n: "nat_be (Suc (Suc (Suc (Suc 0)))) v = [word_of_nat (v div 16777216), word_of_nat (v div 65536), word_of_nat (v div 256), word_of_nat v]" for v
    by simp
  have four: "nat_be 4 = nat_be (Suc (Suc (Suc (Suc 0))))" by (rule arg_cong [of _ _ nat_be]) simp
  show ?thesis
    using assms by (auto simp: NewSystem_def sample_options_def sample_stack_def PrefixFrom_def Addr_BitLen_def HasNextAddress_def
      Prefix_Contains_def Prefix_Masked_def CIDRMask_def BroadcastAddr_def Addr_Next_def Addr_IsValid_def four n be_nat_Cons BE_Uint32_def
      BE_PutUint32_def u32_bytes_def Let_def
      simp del: nat_be.simps)
qed

lemma sample_prefixes: "list_all prefix4 (so_Inet4Address (sample_options i))" "list_all prefix6 (so_Inet6Address (sample_options i))"
  by (simp_all add: sample_options_def PrefixFrom_def prefix4_def prefix6_def Addr_BitLen_def)

abbreviation started :: "u8 \<Rightarrow> System" where
  "started i \<equiv> (sample_stack i)\<lparr>sy_tcpPort := 443, sy_tcpNat4 := Some (NewNat 60)\<rparr>"

lemma sample_start: "start sample_listen (sample_stack i) = (started i, None)"
  by (simp add: start_def start4_def start6_def sample_stack_def sample_listen_def Addr_IsValid_def retryableListenError_def
    numeral_3_eq_3)

text \<open>The stack on a Linux device, after a connection was opened and the table was searched for old sessions.\<close>

abbreviation on_linux :: System where
  "on_linux \<equiv> (started 1)\<lparr>sy_frontHeadroom := 10, sy_txChecksumOffload := True\<rparr>"

lemma on_linux_state: "stack_state (sample_options 1) sample_listen on_linux"
  by (rule stack_state.linux, rule stack_state.started [OF sample_new sample_start]) simp

lemma sample_run:
  "\<exists>s n p session. stack_state (sample_options 1) sample_listen s \<and> sy_tcpNat4 s = Some n \<and> n_portMap n p = Some session \<and>
    session_key session = ((Addr4 [10, 0, 0, 1], 1024), (Addr4 [10, 0, 0, 2], 80))"
proof -
  let ?k = "((Addr4 [10, 0, 0, 1], 1024), (Addr4 [10, 0, 0, 2], 80)) :: tcpNatKey"
  have "tcp4 True (fst ?k) (snd ?k) (Some []) syn4" "IPv4_TransportProtocol syn4 = Some TCPProtocolNumber"
    using sample_opens(1) by (auto simp: opens4_def tcp4_def good4_def returns_iff)
  moreover have "\<exists>p \<ge> 10000. n_portMap (NewNat 60) p = None" by (intro exI [of _ 10000]) (simp add: NewNat_def)
  ultimately have o: "opens4 on_linux (fst ?k) (snd ?k) (Some []) syn4"
    by (simp add: opens4_def sample_stack_def sample_unicast)
  have "stack_ok on_linux" using stack_state_inv [OF on_linux_state sample_prefixes] by simp
  then obtain p s b effs where p: "processPacket sample_world on_linux syn4 = Some (s, b, True, effs)" "st4.owns s p ?k"
    using connection4 [OF sample_world_ok _ o] by (auto simp: returns_iff)
  have s: "stack_state (sample_options 1) sample_listen s"
    by (rule stack_state.event [OF on_linux_state, of "Arrive sample_world syn4"]) (simp add: p(1))
  obtain n x where n: "sy_tcpNat4 s = Some n" "n_portMap n p = Some x" "session_key x = ?k" using p(2) by (auto simp: st4.owns_def owner_def)
  have i: "nat_inv n" using stack_state_inv [OF s sample_prefixes] n(1) by (simp add: stack_ok_def family_ok_def)
  obtain order where order: "set order = dom (n_portMap n)" using finite_list [OF finite [of "dom (n_portMap n)"]] by blast
  let ?t = "s_LastActive x + n_timeout n"
  have "n_portMap (checkTimeout ?t order n) p = Some x"
    using checkTimeout_eq(1) [OF i, of order ?t p] order n(2) by (simp add: timed_out_def)
  then show ?thesis using stack_state.expire4 [OF s n(1) order, of ?t] n(3) by (intro exI conjI) auto
qed

theorem stack_reachable_witness:
  "\<exists>s n p session. stack_state (sample_options 1) sample_listen s \<and> sy_tcpNat4 s = Some n \<and> n_portMap n p = Some session \<and>
    session_key session = ((Addr4 [10, 0, 0, 1], 1024), (Addr4 [10, 0, 0, 2], 80)) \<and>
    stack_ok s \<and> configured4 [PrefixFrom (Addr4 [172, 18, 0, 1]) 30] s"
proof -
  obtain s n p x where s: "stack_state (sample_options 1) sample_listen s" "sy_tcpNat4 s = Some n" "n_portMap n p = Some x"
    "session_key x = ((Addr4 [10, 0, 0, 1], 1024), (Addr4 [10, 0, 0, 2], 80))" using sample_run by blast
  have o: "so_Inet4Address (sample_options 1) = [PrefixFrom (Addr4 [172, 18, 0, 1]) 30]" by (simp add: sample_options_def)
  show ?thesis using s stack_reachable [OF s(1) sample_prefixes] unfolding o by blast
qed

definition lost_answer :: bytes where
  "lost_answer = [0x45, 0, 0, 40, 0, 0, 0, 0, 64, 6, 0, 0, 172, 18, 0, 2, 172, 18, 0, 3] @ replicate 20 0"

theorem last_but_one_address_witness:
  "processPacket sample_world (started 2) lost_answer = Some (started 2, lost_answer, False, [])"
proof -
  have p: "so_Inet4Address (sample_options 2) = [PrefixFrom (Addr4 [172, 18, 0, 2]) 30]"
    "addr_nat (pf_Addr (PrefixFrom (Addr4 [172, 18, 0, 2]) 30)) mod prefix_size (PrefixFrom (Addr4 [172, 18, 0, 2]) 30) + 2 =
      prefix_size (PrefixFrom (Addr4 [172, 18, 0, 2]) 30)"
    by (simp_all add: sample_options_def PrefixFrom_def Addr_BitLen_def prefix_size_def be_nat_Cons)
  have v: "IPVersion lost_answer = 4" "IPv4_IsValid lost_answer (length lost_answer) = Some True"
    "IPv4_DestinationAddr lost_answer = Some (sy_inet4NextAddress (started 2))"
    by (code_simp)+
  show ?thesis
    using last_but_one_address [OF sample_new sample_prefixes sample_start stack_run.simps(1) p v] by simp
qed

end
