(* ===== verification/System_Panic.thy ===== *)
theory System_Panic
  imports System_Start
begin

text \<open>
  Which packets panic the loop of the system stack. \<^verbatim>\<open>IsValid\<close> checks the lengths of the IP header only; the
  functions for TCP, UDP and ICMP read their headers without a test. A packet whose transport header is
  complete is processed without a panic, whatever its bytes are, and a shorter one ends the program.
\<close>

section \<open>Operations that keep the length\<close>

definition resized :: "bytes \<Rightarrow> bytes option \<Rightarrow> bool" where
  "resized b m \<longleftrightarrow> returns m (\<lambda>b'. length b' = length b)"

lemma resized_Some [simp]: "resized b (Some b') \<longleftrightarrow> length b' = length b"
  by (simp add: resized_def)

lemma resizedD: "resized b m \<Longrightarrow> \<exists>b'. m = Some b'"
  by (auto simp: resized_def returns_iff)

lemma resized_bind: "resized b m \<Longrightarrow> (\<And>b'. length b' = length b \<Longrightarrow> resized b' (f b')) \<Longrightarrow> resized b (m \<bind> f)"
  by (auto simp: resized_def returns_iff)

lemma resized_if: "(c \<Longrightarrow> resized b m) \<Longrightarrow> (\<not> c \<Longrightarrow> resized b n) \<Longrightarrow> resized b (if c then m else n)"
  by simp

lemma resized_slice:
  assumes "lo \<le> hi" and "hi \<le> length b" and "\<And>t. length t = hi - lo \<Longrightarrow> resized t (f t)"
  shows "resized b (on_slice lo hi f b)"
proof -
  obtain s where s: "f (take (hi - lo) (drop lo b)) = Some s" "length s = hi - lo"
    using assms(3) [of "take (hi - lo) (drop lo b)"] assms(1,2) by (auto simp: resized_def returns_iff)
  show ?thesis using assms(1,2) s by (simp add: on_slice_in)
qed

lemma update_returns:
  assumes "wf_Address old" and "wf_Address new" and "a_length old = a_length new"
  obtains x where "checksumUpdate2ByteAlignedAddress xsum old new = Some x"
  using checksumUpdate_address [OF assms, of xsum] by (auto simp: returns_iff)

lemma resized_tcp:
  assumes "20 \<le> length t"
  shows "resized t (TCP_SetSourcePort t p)" and "resized t (TCP_SetDestinationPort t p)" and "resized t (TCP_SetChecksum t c)"
    and "resized t (TCP_SetSourcePortWithChecksumUpdate t p)" and "resized t (TCP_SetDestinationPortWithChecksumUpdate t p)"
  using assms by (simp_all add: tcp_fields TCP_SetSourcePortWithChecksumUpdate_def TCP_SetDestinationPortWithChecksumUpdate_def go_simps)

lemma resized_pseudo:
  assumes "20 \<le> length t" and "wf_Address old" and "wf_Address new" and "a_length old = a_length new"
  shows "resized t (TCP_UpdateChecksumPseudoHeaderAddress t old new True)"
  using assms(1) by (rule_tac update_returns [OF assms(2-4), of "NOT (be16 (t ! 16) (t ! 17))"])
    (simp add: TCP_UpdateChecksumPseudoHeaderAddress_def tcp_fields go_simps Let_def)

lemma resized_ports: "20 \<le> length t \<Longrightarrow> resized t (rewrite_ports off p ps q qs t)"
  unfolding rewrite_ports_def by (intro resized_if resized_bind) (auto intro: resized_tcp)

lemma address4:
  assumes "20 \<le> length b"
  shows "IPv4_SourceAddress b = Some (src4 b)" and "IPv4_DestinationAddress b = Some (dst4 b)"
    and "wf_Address (src4 b)" "wf_Address (dst4 b)" "a_length (src4 b) = 4" "a_length (dst4 b) = 4"
  using assms AddrFrom4_wf [of "take 4 (drop 12 b)"] AddrFrom4_wf [of "take 4 (drop 16 b)"]
  by (simp_all add: IPv4_SourceAddress_def IPv4_DestinationAddress_def src4_def dst4_def go_simps)

lemma address6:
  assumes "40 \<le> length b"
  shows "IPv6_SourceAddress b = Some (src6 b)" and "IPv6_DestinationAddress b = Some (dst6 b)"
    and "wf_Address (src6 b)" "wf_Address (dst6 b)" "a_length (src6 b) = 16" "a_length (dst6 b) = 16"
  using assms AddrFrom16_wf [of "take 16 (drop 8 b)"] AddrFrom16_wf [of "take 16 (drop 24 b)"]
  by (simp_all add: IPv6_SourceAddress_def IPv6_DestinationAddress_def src6_def dst6_def go_simps)

lemma resized_address4:
  assumes "20 \<le> length b" and "length x = 4"
  shows "resized b (IPv4_SetSourceAddressWithChecksumUpdate b (AddrFrom4 x))"
    and "resized b (IPv4_SetDestinationAddressWithChecksumUpdate b (AddrFrom4 x))"
proof -
  have a: "IPv4_Checksum b = Some (be16 (b ! 10) (b ! 11))"
    using assms(1) by (simp add: IPv4_Checksum_def go_simps)
  note f = a address4 [OF assms(1)] AddrFrom4_wf [OF assms(2)] assms
  show "resized b (IPv4_SetSourceAddressWithChecksumUpdate b (AddrFrom4 x))"
    using f by (rule_tac update_returns [of "src4 b" "AddrFrom4 x" "NOT (be16 (b ! 10) (b ! 11))"])
      (auto simp: IPv4_SetSourceAddressWithChecksumUpdate_def IPv4_SetChecksum_def IPv4_SetSourceAddress_def go_simps AsSlice_wf)
  show "resized b (IPv4_SetDestinationAddressWithChecksumUpdate b (AddrFrom4 x))"
    using f by (rule_tac update_returns [of "dst4 b" "AddrFrom4 x" "NOT (be16 (b ! 10) (b ! 11))"])
      (auto simp: IPv4_SetDestinationAddressWithChecksumUpdate_def IPv4_SetChecksum_def IPv4_SetDestinationAddress_def go_simps AsSlice_wf)
qed

lemma resized_address6:
  assumes "40 \<le> length b" and "length x = 16"
  shows "resized b (IPv6_SetSourceAddress b (AddrFrom16 x))" and "resized b (IPv6_SetDestinationAddress b (AddrFrom16 x))"
  using assms by (simp_all add: IPv6_SetAddress_eq)

section \<open>TCP\<close>

lemma rewrite4_total:
  assumes "20 \<le> length b" and "lo + 20 \<le> hi" "hi \<le> length b" and "is4 x" "is4 y"
  shows "resized b (rewriteIPv4TCP b lo hi off x p ps y q qs)"
proof -
  obtain u v where u: "x = Addr4 u" "length u = 4" and v: "y = Addr4 v" "length v = 4"
    using is4D [OF assms(4)] is4D [OF assms(5)] by blast
  have As4: "Addr_As4 (Addr4 z) = Some z" for z by (simp add: Addr_As4_def Unmap_def Is4In6_def)
  show ?thesis
    unfolding rewriteIPv4TCP_def address4(1,2) [OF assms(1)] u(1) v(1) As4 bind.bind_lunit Let_def
    using assms u(2) v(2) address4(3-) [OF assms(1)] AddrFrom4_wf [OF u(2)] AddrFrom4_wf [OF v(2)]
    by (intro resized_bind resized_if resized_slice resized_ports resized_address4 resized_pseudo) auto
qed

lemma rewrite6_total:
  assumes "40 \<le> length b" and "lo + 20 \<le> hi" "hi \<le> length b" and "is6 x" "is6 y"
  shows "resized b (rewriteIPv6TCP b lo hi off x p ps y q qs)"
proof -
  obtain u v where u: "x = Addr16 u" "length u = 16" and v: "y = Addr16 v" "length v = 16"
    using is6D [OF assms(4)] is6D [OF assms(5)] by blast
  have As16: "Addr_As16 (Addr16 z) = z" for z by (simp add: Addr_As16_def)
  show ?thesis
    unfolding rewriteIPv6TCP_def address6(1,2) [OF assms(1)] u(1) v(1) As16 bind.bind_lunit Let_def
    using assms u(2) v(2) address6(3-) [OF assms(1)] AddrFrom16_wf [OF u(2)] AddrFrom16_wf [OF v(2)]
    by (intro resized_bind resized_if resized_slice resized_ports resized_address6 resized_pseudo) auto
qed

context tcp_stack
begin

lemma process_total:
  assumes z: "stack_inv z" and p: "peek b l h = Some (src, dst)"
    and rw: "\<And>x p ps y q qs. fam x \<Longrightarrow> fam y \<Longrightarrow> \<exists>b'. rewrite b l h (sy_txChecksumOffload z) x p ps y q qs = Some b'"
    and rs: "\<exists>t out. slice b l h = Some t \<and> reset w z b t = Some out"
  shows "process w z b l h \<noteq> None"
proof (cases "table z")
  case (Some n)
  then have n: "table_ok n" "fam (fst (listener z))" "fam (nextAddr z)" using z by (simp_all add: stack_inv_def)
  note f = peek_fam [OF p]
  obtain m r where L: "LookupBack (w_now w) (w_now' w) (snd dst) n = (m, r)" by fastforce
  have s: "fam (fst (s_Destination x)) \<and> fam (fst (s_Source x))" if "r = Some x" for x
  proof -
    have "owner n (snd dst) = Some (s_Source x, s_Destination x)"
      using table_ok_LookupBack(3) [OF n(1) L] that by (simp add: session_key_def)
    then show ?thesis using n(1) unfolding table_ok_def by blast
  qed
  obtain m' r' where L': "Lookup (w_now w) (w_now' w) src dst n = (m', r')" by fastforce
  show ?thesis
  proof (cases "IsGlobalUnicast (fst dst)")
    case True
    consider "src = listener z" | "src \<noteq> listener z" "fst dst \<in> set (loopbacks z)" | "src \<noteq> listener z" "fst dst \<notin> set (loopbacks z)"
      by blast
    then show ?thesis
    proof cases
      case 1
      show ?thesis
      proof (cases r)
        case (Some x)
        then obtain b' where "rewrite b l h (sy_txChecksumOffload z) (fst (s_Destination x)) (snd (s_Destination x)) True
            (fst (s_Source x)) (snd (s_Source x)) True = Some b'" using s rw by blast
        then show ?thesis using Some \<open>table z = Some n\<close> p L True 1 by (simp add: process_eq)
      qed (use Some p L True 1 in \<open>simp add: process_eq\<close>)
    next
      case 2
      obtain b' where "rewrite b l h (sy_txChecksumOffload z) (fst dst) 0 False (fst src) 0 False = Some b'" using f rw by blast
      then show ?thesis using Some p True 2 by (simp add: process_eq)
    next
      case 3
      obtain t out where t: "slice b l h = Some t" "reset w z b t = Some out" using rs by blast
      show ?thesis
      proof (cases r')
        case None
        then show ?thesis using t Some p L' True 3 by (cases out) (simp add: process_eq)
      next
        case (Some x)
        obtain b' where "rewrite b l h (sy_txChecksumOffload z) (nextAddr z) x True (fst (listener z)) (snd (listener z)) True = Some b'"
          using n(2,3) rw by blast
        then show ?thesis using Some \<open>table z = Some n\<close> p L' True 3 by (simp add: process_eq)
      qed
    qed
  qed (use Some p in \<open>simp add: process_eq\<close>)
qed (simp add: process_eq)

end

abbreviation payload4_of :: "bytes \<Rightarrow> bytes" where "payload4_of b \<equiv> take (tlen4 b - hlen4 b) (drop (hlen4 b) b)"
abbreviation payload6_of :: "bytes \<Rightarrow> bytes" where "payload6_of b \<equiv> take (plen6 b) (drop 40 b)"

lemma reads4:
  assumes "valid4 b (length b)"
  shows "slice b (hlen4 b) (tlen4 b) = Some (payload4_of b)"
    and "IPv4_SourceAddr b = Some (Addr4 (take 4 (drop 12 b)))" "IPv4_DestinationAddr b = Some (Addr4 (take 4 (drop 16 b)))"
    and "length (payload4_of b) = tlen4 b - hlen4 b"
  using valid4D [OF assms] by (simp_all add: slice_in IPv4_SourceAddr_def IPv4_DestinationAddr_def)

lemma reads6:
  assumes "valid6 b (length b)"
  shows "slice b 40 (end6 b) = Some (payload6_of b)"
    and "IPv6_SourceAddr b = Some (Addr16 (take 16 (drop 8 b)))" "IPv6_DestinationAddr b = Some (Addr16 (take 16 (drop 24 b)))"
    and "length (payload6_of b) = plen6 b"
  using valid6D [OF assms] by (simp_all add: slice_in IPv6_SourceAddr_def IPv6_DestinationAddr_def)

lemma tcp_shape_length: "tcp_shape t \<Longrightarrow> 20 \<le> length t"
  by (auto simp: tcp_shape_def returns_iff)

lemma tcp4_returns:
  assumes "world_ok w" and "stack_ok s" and v: "valid4 b (length b)" and t: "tcp_shape (payload4_of b)"
  shows "processIPv4TCP w s b (hlen4 b) (tlen4 b) \<noteq> None"
proof -
  obtain sp dp where "TCP_SourcePort (payload4_of b) = Some sp" "TCP_DestinationPort (payload4_of b) = Some dp"
    using tcp_shape_ports [OF t] by blast
  then have p: "peek4 b (hlen4 b) (tlen4 b) = Some ((Addr4 (take 4 (drop 12 b)), sp), (Addr4 (take 4 (drop 16 b)), dp))"
    by (simp add: peek4_def reads4 [OF v])
  have l: "20 \<le> length b" "hlen4 b + 20 \<le> tlen4 b" "tlen4 b \<le> length b" "length (take 4 (drop 12 b)) = 4" "length (take 4 (drop 16 b)) = 4"
    using valid4D [OF v] tcp_shape_length [OF t] reads4(4) [OF v] by simp_all
  show ?thesis
  proof (rule st4.process_total [OF _ p])
    show "st4.stack_inv s" using assms(2) by (simp add: stack_ok_iff)
    show "\<exists>b'. rewriteIPv4TCP b (hlen4 b) (tlen4 b) (sy_txChecksumOffload s) x p ps y q qs = Some b'" if "is4 x" "is4 y" for x p ps y q qs
      by (rule resizedD [OF rewrite4_total [OF l(1-3) that]])
    show "\<exists>t out. slice b (hlen4 b) (tlen4 b) = Some t \<and> resetIPv4TCP w s b t = Some out"
      using reset4_right [OF assms(1) reads4(2) [OF v] l(4) reads4(3) [OF v] l(5) t, of s] reads4(1) [OF v] by (auto simp: returns_iff)
  qed
qed

lemma tcp6_returns:
  assumes "world_ok w" and "stack_ok s" and v: "valid6 b (length b)" and t: "tcp_shape (payload6_of b)"
  shows "processIPv6TCP w s b 40 (end6 b) \<noteq> None"
proof -
  obtain sp dp where "TCP_SourcePort (payload6_of b) = Some sp" "TCP_DestinationPort (payload6_of b) = Some dp"
    using tcp_shape_ports [OF t] by blast
  then have p: "peek6 b 40 (end6 b) = Some ((Addr16 (take 16 (drop 8 b)), sp), (Addr16 (take 16 (drop 24 b)), dp))"
    by (simp add: peek6_def reads6 [OF v])
  have l: "40 \<le> length b" "40 + 20 \<le> end6 b" "end6 b \<le> length b" "length (take 16 (drop 8 b)) = 16" "length (take 16 (drop 24 b)) = 16"
    using valid6D [OF v] tcp_shape_length [OF t] reads6(4) [OF v] by simp_all
  show ?thesis
  proof (rule st6.process_total [OF _ p])
    show "st6.stack_inv s" using assms(2) by (simp add: stack_ok_iff)
    show "\<exists>b'. rewriteIPv6TCP b 40 (end6 b) (sy_txChecksumOffload s) x p ps y q qs = Some b'" if "is6 x" "is6 y" for x p ps y q qs
      by (rule resizedD [OF rewrite6_total [OF l(1-3) that]])
    show "\<exists>t out. slice b 40 (end6 b) = Some t \<and> resetIPv6TCP w s b t = Some out"
      using reset6_right [OF assms(1) reads6(2) [OF v] l(4) reads6(3) [OF v] l(5) t, of s] reads6(1) [OF v] by (auto simp: returns_iff)
  qed
qed

section \<open>UDP and ICMP\<close>

lemma udp4_returns:
  assumes v: "valid4 b (length b)" and t: "8 \<le> length (payload4_of b)"
  shows "processIPv4UDP w s b (hlen4 b) (tlen4 b) \<noteq> None"
proof -
  note b = valid4D [OF v]
  have h: "IPv4_HeaderLength b = Some (word_of_nat (hlen4 b))" by (rule IPv4_HeaderLength_eq [OF b(2)])
  have l: "hlen4 b + 8 \<le> tlen4 b" using t reads4(4) [OF v] by linarith
  have "hlen4 b < 64" by (simp add: hlen4_def)
  with l have "\<exists>c. slice b 0 (unat (word_of_nat (hlen4 b) + 8 :: u8)) = Some c" using b by (simp add: slice_in unat_word_ariths unat_of_nat)
  moreover have "\<exists>f fo. IPv4_Flags b = Some f \<and> IPv4_FragmentOffset b = Some fo"
    using b by (simp add: IPv4_Flags_def IPv4_FragmentOffset_def go_simps)
  ultimately show ?thesis
    using t h by (auto simp: processIPv4UDP_def reads4 [OF v] udp_fields go_simps simp del: length_take length_drop)
qed

lemma udp6_returns:
  assumes v: "valid6 b (length b)" and t: "8 \<le> length (payload6_of b)"
  shows "processIPv6UDP w s b 40 (end6 b) \<noteq> None"
proof -
  note b = valid6D [OF v]
  obtain n where "IPv6_PayloadLength b = Some n" "unat n = plen6 b"
    using IPv6_PayloadLength_eq [of b] b by (auto simp: plen6_def)
  moreover have "8 \<le> plen6 b" using t reads6(4) [OF v] by linarith
  ultimately show ?thesis
    using t b by (auto simp: processIPv6UDP_def reads6 [OF v] udp_fields go_simps simp del: length_take length_drop)
qed

lemma reject_returns:
  assumes "world_ok w"
  shows "valid4 b (length b) \<Longrightarrow> rejectIPv4WithICMP w s b code \<noteq> None" and "valid6 c (length c) \<Longrightarrow> rejectIPv6WithICMP w s c code \<noteq> None"
proof -
  show "rejectIPv4WithICMP w s b code \<noteq> None" if "valid4 b (length b)"
  proof (cases "int (length b) + 16 \<le> min (sy_mtu s) 556")
    case True
    then show ?thesis using reject4_right [OF assms that True, of code] by (auto simp: returns_iff)
  next
    case False
    then show ?thesis by (auto simp: rejectIPv4WithICMP_def Let_def min_def)
  qed
  show "rejectIPv6WithICMP w s c code \<noteq> None" if "valid6 c (length c)"
  proof (cases "48 \<le> sy_mtu s")
    case True
    then show ?thesis using reject6_right [OF assms that True, of code] by (auto simp: returns_iff)
  next
    case False
    then show ?thesis by (auto simp: rejectIPv6WithICMP_def Let_def)
  qed
qed

lemma icmp4_returns:
  assumes "world_ok w" and v: "valid4 b (length b)" and t: "4 \<le> length (payload4_of b)"
  shows "processIPv4ICMP w s b (hlen4 b) (tlen4 b) \<noteq> None"
proof -
  obtain e r where "rejectIPv4WithICMP w s b ICMPv4HostUnreachable = Some e" "echo_reply4 b (hlen4 b) (tlen4 b) = Some r"
    using reject_returns(1) [OF assms(1) v] echo4_right [OF v refl t] by blast
  then show ?thesis
    using t by (cases e) (auto simp: processIPv4ICMP_def reads4 [OF v] icmp_fields byte_at_in Let_def split: prod.split simp del: length_take length_drop)
qed

lemma icmp6_returns:
  assumes "world_ok w" and v: "valid6 b (length b)" and t: "4 \<le> length (payload6_of b)"
  shows "processIPv6ICMP w s b 40 (end6 b) \<noteq> None"
proof -
  obtain e r where "rejectIPv6WithICMP w s b ICMPv6AddressUnreachable = Some e" "echo_reply6 b 40 (end6 b) = Some r"
    using reject_returns(2) [OF assms(1) v] echo6_right [OF v refl t] by blast
  then show ?thesis
    using t by (cases e) (auto simp: processIPv6ICMP_def reads6 [OF v] icmp_fields byte_at_in Let_def split: prod.split simp del: length_take length_drop)
qed

section \<open>All packets\<close>

text \<open>A transport header is complete: that of TCP with its options, eight bytes of UDP, four of ICMP.\<close>

definition complete :: "u32 \<Rightarrow> bytes \<Rightarrow> bool" where
  "complete proto t \<longleftrightarrow>
     (if proto = TCPProtocolNumber then tcp_shape t
      else if proto = UDPProtocolNumber then 8 \<le> length t
      else if proto = ICMPv4ProtocolNumber \<or> proto = ICMPv6ProtocolNumber then 4 \<le> length t
      else True)"

definition packet_complete :: "bytes \<Rightarrow> bool" where
  "packet_complete b \<longleftrightarrow>
     (if IPVersion b = 4 then case_option True id (do {
        proto \<leftarrow> IPv4_TransportProtocol b; t \<leftarrow> IPv4_Payload b; Some (complete proto t) })
      else if IPVersion b = 6 then case_option True id (do {
        proto \<leftarrow> IPv6_TransportProtocol b; t \<leftarrow> IPv6_Payload b; Some (complete proto t) })
      else True)"

lemma processIPv4_returns:
  assumes "world_ok w" and "stack_ok s" and v: "valid4 b (length b)" and c: "packet_complete b"
  shows "processIPv4 w s b \<noteq> None"
proof -
  note b = valid4D [OF v]
  obtain proto where p: "IPv4_TransportProtocol b = Some proto"
    using b by (simp add: IPv4_TransportProtocol_def IPv4_Protocol_def go_simps)
  have "complete proto (payload4_of b)"
    using c p IPv4_Payload_eq [OF v order_refl] b(6) IPVersion_eq [OF b(2)] by (simp add: packet_complete_def)
  then have "processIPv4TCP w s b (hlen4 b) (tlen4 b) \<noteq> None" if "proto = TCPProtocolNumber"
    using tcp4_returns [OF assms(1,2) v] that by (simp add: complete_def)
  moreover have "processIPv4UDP w s b (hlen4 b) (tlen4 b) \<noteq> None" if "proto = UDPProtocolNumber"
    using udp4_returns [OF v, of w s] \<open>complete proto (payload4_of b)\<close> that by (simp add: complete_def)
  moreover have "processIPv4ICMP w s b (hlen4 b) (tlen4 b) \<noteq> None" if "proto = ICMPv4ProtocolNumber"
    using icmp4_returns [OF assms(1) v, of s] \<open>complete proto (payload4_of b)\<close> that by (simp add: complete_def)
  ultimately show ?thesis
    using p by (auto simp: processIPv4_def reads4 [OF v] payload_window4_eq [OF v] ex_bool_eq)
qed

lemma processIPv6_returns:
  assumes "world_ok w" and "stack_ok s" and v: "valid6 b (length b)" and c: "packet_complete b"
  shows "processIPv6 w s b \<noteq> None"
proof -
  note b = valid6D [OF v]
  obtain proto where p: "IPv6_TransportProtocol b = Some proto"
    using b by (simp add: IPv6_TransportProtocol_def IPv6_NextHeader_def go_simps)
  have "complete proto (payload6_of b)"
    using c p IPv6_Payload_eq [OF v order_refl] b(4) IPVersion_eq [OF b(2)] by (simp add: packet_complete_def)
  then have "processIPv6TCP w s b 40 (end6 b) \<noteq> None" if "proto = TCPProtocolNumber"
    using tcp6_returns [OF assms(1,2) v] that by (simp add: complete_def)
  moreover have "processIPv6UDP w s b 40 (end6 b) \<noteq> None" if "proto = UDPProtocolNumber"
    using udp6_returns [OF v, of w s] \<open>complete proto (payload6_of b)\<close> that by (simp add: complete_def)
  moreover have "processIPv6ICMP w s b 40 (end6 b) \<noteq> None" if "proto = ICMPv6ProtocolNumber"
    using icmp6_returns [OF assms(1) v, of s] \<open>complete proto (payload6_of b)\<close> that by (simp add: complete_def)
  ultimately show ?thesis
    using p by (auto simp: processIPv6_def reads6 [OF v] payload_window6_eq [OF v] ex_bool_eq)
qed

text \<open>
  C4. No input panics the stack in a state it can reach (after the loop has asked the device for its settings, with any packets and
  connections before, and sessions expired at any time), as long as the transport header of a packet is complete:
  any bytes at all are processed, whatever their version, lengths, checksums and addresses are.
\<close>

theorem no_panic:
  assumes "stack_state opts listen s" and "list_all prefix4 (so_Inet4Address opts)" and "list_all prefix6 (so_Inet6Address opts)"
    and "world_ok w" and "packet_complete b"
  shows "\<exists>out. processPacket w s b = Some out"
proof -
  have s: "stack_ok s" using stack_state_inv [OF assms(1-3)] by simp
  have "processIPv4 w s b \<noteq> None" if "valid4 b (length b)" by (rule processIPv4_returns [OF assms(4) s that assms(5)])
  moreover have "processIPv6 w s b \<noteq> None" if "valid6 b (length b)" by (rule processIPv6_returns [OF assms(4) s that assms(5)])
  ultimately show ?thesis by (auto simp: processPacket_def IPv4_IsValid_eq IPv6_IsValid_eq ex_bool_eq)
qed

text \<open>The bytes of the transport header that are read before any test.\<close>

definition header_floor :: "u32 \<Rightarrow> nat" where
  "header_floor proto = (if proto = TCPProtocolNumber then 4 else if proto = UDPProtocolNumber then 8
     else if proto = ICMPv4ProtocolNumber \<or> proto = ICMPv6ProtocolNumber then 1 else 0)"

text \<open>
  A valid packet with fewer bytes than that after its IP header, to a unicast address (and not the broadcast address of the stack), of a protocol
  that is handled: TCP when the family has a table, UDP over IPv4 when the packet is not a fragment.
\<close>

definition short4 :: "System \<Rightarrow> bytes \<Rightarrow> bool" where
  "short4 s b \<longleftrightarrow> IPv4_IsValid b (length b) = Some True \<and> returns (do {
       d \<leftarrow> IPv4_DestinationAddr b; proto \<leftarrow> IPv4_TransportProtocol b; t \<leftarrow> IPv4_Payload b; flags \<leftarrow> IPv4_Flags b; fo \<leftarrow> IPv4_FragmentOffset b;
       Some (d, proto, t, flags, fo) })
     (\<lambda>(d, proto, t, flags, fo). IsGlobalUnicast d \<and> d \<noteq> sy_broadcastAddr s \<and> length t < header_floor proto \<and> proto \<noteq> ICMPv6ProtocolNumber \<and>
       (proto = TCPProtocolNumber \<longrightarrow> sy_tcpNat4 s \<noteq> None) \<and> (proto = UDPProtocolNumber \<longrightarrow> flags AND 1 = 0 \<and> fo = 0))"

definition short6 :: "System \<Rightarrow> bytes \<Rightarrow> bool" where
  "short6 s b \<longleftrightarrow> IPv6_IsValid b (length b) = Some True \<and> returns (do {
       d \<leftarrow> IPv6_DestinationAddr b; proto \<leftarrow> IPv6_TransportProtocol b; t \<leftarrow> IPv6_Payload b; Some (d, proto, t) })
     (\<lambda>(d, proto, t). IsGlobalUnicast d \<and> length t < header_floor proto \<and> proto \<noteq> ICMPv4ProtocolNumber \<and>
       (proto = TCPProtocolNumber \<longrightarrow> sy_tcpNat6 s \<noteq> None))"

text \<open>
  C16. A valid IP packet to a global unicast address with a shorter transport header panics the loop, and with it the program: one
  with fewer than four bytes of TCP in a family the stack listens on, fewer than eight of UDP (over IPv4 in a packet that is not a fragment),
  or none of the ICMP of its family. This holds in every state of the stack, for IPv4 and for IPv6.
\<close>

theorem short_header_panics:
  "(short4 s b \<longrightarrow> processPacket w s b = None) \<and> (short6 s c \<longrightarrow> processPacket w s c = None)"
proof (intro conjI impI)
  assume a: "short4 s b"
  then have v: "valid4 b (length b)" "IPv4_IsValid b (length b) = Some True" by (simp_all add: short4_def IPv4_IsValid_eq)
  obtain d proto t flags fo where f: "IPv4_DestinationAddr b = Some d" "IPv4_TransportProtocol b = Some proto" "IPv4_Payload b = Some t"
      "IPv4_Flags b = Some flags" "IPv4_FragmentOffset b = Some fo"
    and c: "IsGlobalUnicast d" "d \<noteq> sy_broadcastAddr s" "length t < header_floor proto" "proto \<noteq> ICMPv6ProtocolNumber"
      "proto = TCPProtocolNumber \<Longrightarrow> sy_tcpNat4 s \<noteq> None" "proto = UDPProtocolNumber \<Longrightarrow> flags AND 1 = 0 \<and> fo = 0"
    using a by (auto simp: short4_def returns_iff bind_eq_Some_conv)
  have t: "t = payload4_of b" using IPv4_Payload_eq [OF v(1) order_refl] f(3) by simp
  show "processPacket w s b = None"
  proof -
    have "IPVersion b = 4" using valid4D [OF v(1)] IPVersion_eq [of b] by auto
    then have p: "processIPv4 w s b = None \<Longrightarrow> ?thesis" by (simp add: processPacket_def v(2))
    note r = f reads4(1) [OF v(1), folded t] payload_window4_eq [OF v(1)]
    consider "proto = TCPProtocolNumber" "length t < 4" | "proto = UDPProtocolNumber" "length t < 8" | "proto = ICMPv4ProtocolNumber" "length t = 0"
      using c(3,4) by (auto simp: header_floor_def split: if_splits)
    then show ?thesis
    proof cases
      case 1
      then show ?thesis using r c(1,2,5) by (intro p) (auto simp: processIPv4_def processIPv4TCP_def tcp_fields go_defs split: Option.bind_splits)
    next
      case 2
      then show ?thesis using r c(1,2,6) by (intro p) (auto simp: processIPv4_def processIPv4UDP_def udp_fields go_defs split: Option.bind_splits)
    next
      case 3
      then show ?thesis using r c(1,2) by (intro p) (auto simp: processIPv4_def processIPv4ICMP_def icmp_fields go_defs split: Option.bind_splits)
    qed
  qed
next
  assume a: "short6 s c"
  then have v: "valid6 c (length c)" "IPv6_IsValid c (length c) = Some True" by (simp_all add: short6_def IPv6_IsValid_eq)
  obtain d proto t where f: "IPv6_DestinationAddr c = Some d" "IPv6_TransportProtocol c = Some proto" "IPv6_Payload c = Some t"
    and d: "IsGlobalUnicast d" "length t < header_floor proto" "proto \<noteq> ICMPv4ProtocolNumber" "proto = TCPProtocolNumber \<Longrightarrow> sy_tcpNat6 s \<noteq> None"
    using a by (auto simp: short6_def returns_iff bind_eq_Some_conv)
  have t: "t = payload6_of c" using IPv6_Payload_eq [OF v(1) order_refl] f(3) by simp
  show "processPacket w s c = None"
  proof -
    have "IPVersion c = 6" using valid6D [OF v(1)] IPVersion_eq [of c] by auto
    then have p: "processIPv6 w s c = None \<Longrightarrow> ?thesis" by (simp add: processPacket_def v(2))
    note r = f reads6(1) [OF v(1), folded t] payload_window6_eq [OF v(1)]
    consider "proto = TCPProtocolNumber" "length t < 4" | "proto = UDPProtocolNumber" "length t < 8" | "proto = ICMPv6ProtocolNumber" "length t = 0"
      using d(2,3) by (auto simp: header_floor_def split: if_splits)
    then show ?thesis
    proof cases
      case 1
      then show ?thesis using r d(1,4) by (intro p) (auto simp: processIPv6_def processIPv6TCP_def tcp_fields go_defs split: Option.bind_splits)
    next
      case 2
      then show ?thesis using r d(1) by (intro p) (auto simp: processIPv6_def processIPv6UDP_def udp_fields go_defs split: Option.bind_splits)
    next
      case 3
      then show ?thesis using r d(1) by (intro p) (auto simp: processIPv6_def processIPv6ICMP_def icmp_fields go_defs split: Option.bind_splits)
    qed
  qed
qed

text \<open>A packet of the connection whose session the table has.\<close>

theorem no_panic_witness:
  "IPv4_IsValid syn4 40 = Some True \<and> packet_complete syn4 \<and>
    (\<exists>s n p session out. stack_state (sample_options 1) sample_listen s \<and> sy_tcpNat4 s = Some n \<and> n_portMap n p = Some session \<and>
      session_key session = ((Addr4 [10, 0, 0, 1], 1024), (Addr4 [10, 0, 0, 2], 80)) \<and> processPacket sample_world s syn4 = Some out)"
proof -
  have v: "IPv4_IsValid syn4 40 = Some True" "packet_complete syn4" by code_simp+
  obtain s n p x where s: "stack_state (sample_options 1) sample_listen s" "sy_tcpNat4 s = Some n" "n_portMap n p = Some x"
    "session_key x = ((Addr4 [10, 0, 0, 1], 1024), (Addr4 [10, 0, 0, 2], 80))" using sample_run by blast
  show ?thesis using v s no_panic [OF s(1) sample_prefixes sample_world_ok v(2)] by blast
qed

text \<open>Packets with empty UDP datagrams, which \<^verbatim>\<open>IsValid\<close> accepts; the first with the flag that forbids fragments.\<close>

definition empty4 :: bytes where
  "empty4 = [0x45, 0, 0, 20, 0, 0, 0x40, 0, 64, 17, 0, 0, 10, 0, 0, 1, 10, 0, 0, 2]"

definition empty6 :: bytes where
  "empty6 = [0x60, 0, 0, 0, 0, 0, 17, 64] @ fd00 1 @ fd00 2"

theorem short_header_panics_witness:
  "short4 on_linux empty4 \<and> processPacket sample_world on_linux empty4 = None \<and>
    short6 sample_system empty6 \<and> processPacket sample_world sample_system empty6 = None"
proof -
  have four: "IPv4_IsValid empty4 (length empty4) = Some True" "IPv4_DestinationAddr empty4 = Some (Addr4 [10, 0, 0, 2])"
    "IPv4_TransportProtocol empty4 = Some 17" "IPv4_Payload empty4 = Some []" "IPv4_Flags empty4 = Some 2" "IPv4_FragmentOffset empty4 = Some 0"
    by code_simp+
  have six: "IPv6_IsValid empty6 (length empty6) = Some True" "IPv6_DestinationAddr empty6 = Some (Addr16 (fd00 2))"
    "IPv6_TransportProtocol empty6 = Some 17" "IPv6_Payload empty6 = Some []"
    by code_simp+
  have "short4 on_linux empty4" "short6 sample_system empty6"
    by (simp_all add: short4_def short6_def four six sample_unicast header_floor_def sample_stack_def)
  then show ?thesis
    using short_header_panics [of on_linux empty4 sample_world] short_header_panics [of sample_system _ sample_world empty6] by blast
qed

end
