(* ===== verification/System_Loops.thy ===== *)
theory System_Loops
  imports System_Packet "HOL-Library.Multiset"
begin

text \<open>
  The four loops of the system stack agree. \<open>seq_loop\<close> handles one packet after the other and writes back
  at once; \<^verbatim>\<open>tunLoop\<close> and \<^verbatim>\<open>wintunLoop\<close> do exactly that, and the loops that read batches end in the same state
  with the same packets written and the same calls made, only in another order.
\<close>

section \<open>The reference\<close>

text \<open>A packet comes with the bytes in front of it in its buffer, which are written with it.\<close>

type_synonym stream = "(World \<times> bytes \<times> bytes) list"

fun seq_loop :: "stream \<Rightarrow> System \<Rightarrow> (System \<times> effect list) option" where
  "seq_loop [] s = Some (s, [])"
| "seq_loop ((w, room, packet) # rest) s = do {
     (s, packet, writeBack, effs) \<leftarrow> processPacket w s packet;
     (s, more) \<leftarrow> seq_loop rest s;
     Some (s, effs @ (if writeBack then [TunWrite (room @ packet)] else []) @ more) }"

definition frame :: "World \<Rightarrow> nat \<Rightarrow> nat \<Rightarrow> bytes \<Rightarrow> stream" where
  "frame w room n buf = (if n < 20 then [] else [(w, take room buf, take n (drop room buf))])"

definition open_reads :: "(read_error option \<times> 'a) list \<Rightarrow> 'a list" where
  "open_reads reads = map snd (takeWhile (\<lambda>r. fst r \<noteq> Some Closed) reads)"

definition linux_stream :: "nat \<Rightarrow> (read_error option \<times> (World \<times> nat \<times> bytes) list) list \<Rightarrow> stream" where
  "linux_stream room reads = concat (map (\<lambda>(w, n, buf). frame w room n buf) (concat (open_reads reads)))"

definition darwin_stream :: "(read_error option \<times> (World \<times> bytes) list) list \<Rightarrow> stream" where
  "darwin_stream reads = concat (map (\<lambda>(w, buf). frame w 0 (length buf) buf) (concat (open_reads reads)))"

text \<open>A batch of writes is so many writes.\<close>

fun expand :: "effect \<Rightarrow> effect list" where
  "expand (TunBatchWrite bs) = map TunWrite bs"
| "expand e = [e]"

definition effects :: "effect list \<Rightarrow> effect multiset" where
  "effects es = mset (concat (map expand es))"

definition same_outcome :: "(System \<times> effect list) option \<Rightarrow> (System \<times> effect list) option \<Rightarrow> bool" where
  "same_outcome = rel_option (\<lambda>(s, es) (s', es'). s = s' \<and> effects es = effects es')"

lemma effects_simps [simp]:
  "effects [] = {#}" "effects (es @ es') = effects es + effects es'" "effects (e # es) = mset (expand e) + effects es"
  by (simp_all add: effects_def)

lemma effects_writes: "effects (if bs \<noteq> [] then [TunBatchWrite bs] else []) = mset (map TunWrite bs)"
  by (simp add: effects_def)

section \<open>Batches\<close>

text \<open>The same packets with the writes collected.\<close>

fun collect_loop :: "stream \<Rightarrow> System \<Rightarrow> (System \<times> bytes list \<times> effect list) option" where
  "collect_loop [] s = Some (s, [], [])"
| "collect_loop ((w, room, packet) # rest) s = do {
     (s, packet, writeBack, effs) \<leftarrow> processPacket w s packet;
     (s, out, more) \<leftarrow> collect_loop rest s;
     Some (s, (if writeBack then [room @ packet] else []) @ out, effs @ more) }"

lemma collect_append:
  "collect_loop (xs @ ys) s = do { (s, out, es) \<leftarrow> collect_loop xs s; (s, out', es') \<leftarrow> collect_loop ys s; Some (s, out @ out', es @ es') }"
  by (induction xs arbitrary: s) (auto split: Option.bind_splits prod.splits)

lemma seq_append:
  "seq_loop (xs @ ys) s = do { (s, es) \<leftarrow> seq_loop xs s; (s, es') \<leftarrow> seq_loop ys s; Some (s, es @ es') }"
  by (induction xs arbitrary: s) (auto split: Option.bind_splits prod.splits)

lemma collect_seq:
  "rel_option (\<lambda>(s, out, es) (s', es'). s = s' \<and> mset (map TunWrite out) + effects es = effects es') (collect_loop xs s) (seq_loop xs s)"
proof (induction xs s rule: collect_loop.induct)
  case (2 w room packet rest s)
  show ?case
  proof (cases "processPacket w s packet")
    case (Some r)
    obtain s1 p wb effs where r: "r = (s1, p, wb, effs)" by (cases r)
    show ?thesis
      using 2 [OF Some r [symmetric] refl refl] Some r by (cases "collect_loop rest s1"; cases "seq_loop rest s1") auto
  qed simp
qed simp

lemma batch_linux_collect:
  assumes "\<forall>(w, n, buf) \<in> set ps. room + n \<le> length buf"
  shows "batch_linux room ps wb s =
    map_option (\<lambda>(s, out, es). (s, wb @ out, es)) (collect_loop (concat (map (\<lambda>(w, n, buf). frame w room n buf) ps)) s)"
  using assms
proof (induction ps arbitrary: wb s)
  case (Cons q ps)
  obtain w n buf where q: "q = (w, n, buf)" by (cases q)
  let ?st = "concat (map (\<lambda>(w, n, buf). frame w room n buf) ps)"
  have IH: "batch_linux room ps wb s = map_option (\<lambda>(s, out, es). (s, wb @ out, es)) (collect_loop ?st s)" for wb s
    using Cons by simp
  have b: "room + n \<le> length buf" using Cons.prems q by simp
  show ?case
    using b unfolding q by (cases "processPacket w s (take n (drop room buf))")
      (auto simp: IH frame_def slice_in option.map_comp comp_def split: Option.bind_splits)
qed simp

lemma batch_darwin_collect:
  "batch_darwin ps wb s =
    map_option (\<lambda>(s, out, es). (s, wb @ out, es)) (collect_loop (concat (map (\<lambda>(w, buf). frame w 0 (length buf) buf) ps)) s)"
proof (induction ps arbitrary: wb s)
  case (Cons q ps)
  obtain w buf where q: "q = (w, buf)" by (cases q)
  show ?case
    unfolding q by (cases "processPacket w s buf")
      (auto simp: Cons frame_def option.map_comp comp_def split: Option.bind_splits)
qed simp

lemma collect_keeps: "collect_loop xs s = Some (s', r) \<Longrightarrow> keeps s s'"
proof (induction xs arbitrary: s r)
  case (Cons q xs)
  obtain w room packet where q: "q = (w, room, packet)" by (cases q)
  obtain s1 p where "processPacket w s packet = Some (s1, p)" "\<exists>r. collect_loop xs s1 = Some (s', r)"
    using Cons.prems q by (auto simp: bind_eq_Some_conv)
  then show ?case using Cons.IH packet_keeps keeps_trans by blast
qed simp

text \<open>One batch with its writes, then the rest.\<close>

lemma same_batch:
  assumes "\<And>s1 r. collect_loop xs s = Some (s1, r) \<Longrightarrow> same_outcome (f s1) (seq_loop ys s1)"
  shows "same_outcome (do { (s, out, es) \<leftarrow> collect_loop xs s; (s, more) \<leftarrow> f s;
      Some (s, es @ (if out \<noteq> [] then [TunBatchWrite out] else []) @ more) }) (seq_loop (xs @ ys) s)"
proof (cases "collect_loop xs s")
  case None
  then have "seq_loop xs s = None" using collect_seq [of xs s] by (cases "seq_loop xs s") auto
  then show ?thesis using None by (simp add: seq_append same_outcome_def)
next
  case (Some r)
  obtain s1 out es where r: "r = (s1, out, es)" by (cases r)
  obtain es' where q: "seq_loop xs s = Some (s1, es')" "mset (map TunWrite out) + effects es = effects es'"
    using collect_seq [of xs s] Some r by (cases "seq_loop xs s") auto
  have "same_outcome (f s1) (seq_loop ys s1)" using assms Some r by simp
  then show ?thesis
    using Some r q by (cases "f s1"; cases "seq_loop ys s1")
      (auto simp: seq_append same_outcome_def effects_writes simp flip: q(2))
qed

lemma linux_loop:
  assumes "\<forall>batch \<in> set (open_reads reads). \<forall>(w, n, buf) \<in> set batch. sy_frontHeadroom s + n \<le> length buf"
  shows "same_outcome (batchLoopLinux reads s) (seq_loop (linux_stream (sy_frontHeadroom s) reads) s)"
  using assms
proof (induction reads arbitrary: s)
  case (Cons q reads)
  obtain err batch where q: "q = (err, batch)" by (cases q)
  show ?case
  proof (cases "err = Some Closed")
    case False
    let ?S = "\<lambda>bs. concat (map (\<lambda>(w, n, buf). frame w (sy_frontHeadroom s) n buf) bs)"
    have o: "open_reads (q # reads) = batch # open_reads reads" using False q by (simp add: open_reads_def)
    have st: "linux_stream (sy_frontHeadroom s) (q # reads) = ?S batch @ linux_stream (sy_frontHeadroom s) reads"
      by (simp add: linux_stream_def o)
    have b: "batch_linux (sy_frontHeadroom s) batch [] s = collect_loop (?S batch) s"
      using batch_linux_collect [of batch "sy_frontHeadroom s" "[]" s] Cons.prems o by (cases "collect_loop (?S batch) s") auto
    show ?thesis
      unfolding st unfolding q batchLoopLinux.simps if_not_P [OF False] b
    proof (rule same_batch [where f = "batchLoopLinux reads"])
      fix s1 r assume c: "collect_loop (?S batch) s = Some (s1, r)"
      have "sy_frontHeadroom s1 = sy_frontHeadroom s"
        using collect_keeps [OF c] config_eqD(9) [of s s1] by (simp add: keeps_def)
      then show "same_outcome (batchLoopLinux reads s1) (seq_loop (linux_stream (sy_frontHeadroom s) reads) s1)"
        using Cons.IH [of s1] Cons.prems o by simp
    qed
  qed (simp add: q linux_stream_def open_reads_def same_outcome_def)
qed (simp add: linux_stream_def open_reads_def same_outcome_def)

lemma darwin_loop: "same_outcome (batchLoopDarwin reads s) (seq_loop (darwin_stream reads) s)"
proof (induction reads arbitrary: s)
  case (Cons q reads)
  obtain err batch where q: "q = (err, batch)" by (cases q)
  show ?case
  proof (cases "err = Some Closed")
    case False
    let ?S = "\<lambda>bs. concat (map (\<lambda>(w, buf). frame w 0 (length buf) buf) bs)"
    have st: "darwin_stream (q # reads) = ?S batch @ darwin_stream reads"
      using False q by (simp add: darwin_stream_def open_reads_def)
    have b: "batch_darwin batch [] s = collect_loop (?S batch) s"
      using batch_darwin_collect [of batch "[]" s] by (cases "collect_loop (?S batch) s") auto
    show ?thesis
      unfolding st unfolding q batchLoopDarwin.simps if_not_P [OF False] b
      by (rule same_batch [where f = "batchLoopDarwin reads"]) (rule Cons.IH)
  qed (simp add: q darwin_stream_def open_reads_def same_outcome_def)
qed (simp add: darwin_stream_def open_reads_def same_outcome_def)

section \<open>Single reads\<close>

definition read_stream :: "(World \<times> nat \<times> read_error option \<times> bytes) list \<Rightarrow> stream" where
  "read_stream reads = concat (map (\<lambda>(w, n, err, buf).
     if n < 20 then [] else [(w, take (w_PacketOffset w) buf, take (n - w_PacketOffset w) (drop (w_PacketOffset w) buf))])
     (takeWhile (\<lambda>(w, n, err, buf). err \<noteq> Some Closed) reads))"

definition win_stream :: "(World \<times> bytes option) list \<Rightarrow> stream" where
  "win_stream reads = concat (map (\<lambda>(w, packet). frame w 0 (length (the packet)) (the packet)) (takeWhile (\<lambda>r. snd r \<noteq> None) reads))"

lemma same_refl [simp]: "same_outcome m m"
  by (cases m) (auto simp: same_outcome_def)

lemma win_loop: "wintunLoop reads s = seq_loop (win_stream reads) s"
proof (induction reads arbitrary: s)
  case (Cons r reads)
  obtain w p where r: "r = (w, p)" by (cases r)
  have "win_stream ((w, None) # reads) = []" by (simp add: win_stream_def)
  moreover have "win_stream ((w, Some b) # reads) = frame w 0 (length b) b @ win_stream reads" for b by (simp add: win_stream_def)
  ultimately show ?case using Cons unfolding r by (cases p) (auto simp: frame_def cong: if_cong)
qed (simp add: win_stream_def)

definition read_ok :: "World \<times> nat \<times> read_error option \<times> bytes \<Rightarrow> bool" where
  "read_ok r \<longleftrightarrow> (case r of (w, n, err, buf) \<Rightarrow> world_ok w \<and> n \<le> length buf)"

lemma read_loop:
  assumes "list_all read_ok reads"
  shows "tun_reads reads s = seq_loop (read_stream reads) s"
  using assms
proof (induction reads arbitrary: s)
  case (Cons r reads)
  obtain w n err buf where r: "r = (w, n, err, buf)" by (cases r)
  have l: "n \<le> length buf" "w_PacketOffset w \<le> 4" using Cons.prems r by (auto simp: read_ok_def world_ok_def)
  have c: "read_stream ((w, n, Some Closed, buf) # reads) = []" by (simp add: read_stream_def)
  show ?case
  proof (cases "err = Some Closed \<or> n < 20")
    case True
    then show ?thesis using Cons c unfolding r by (auto simp: read_stream_def)
  next
    case False
    then have "read_stream (r # reads) =
        (w, take (w_PacketOffset w) buf, take (n - w_PacketOffset w) (drop (w_PacketOffset w) buf)) # read_stream reads"
      unfolding r by (simp add: read_stream_def)
    then show ?thesis using False l Cons unfolding r by (simp add: slice_in)
  qed
qed (simp add: read_stream_def)

section \<open>All devices\<close>

definition device_ok :: "device \<Rightarrow> bool" where
  "device_ok tun = (case tun of
     WinTun reads \<Rightarrow> True
   | LinuxTUN frontHeadroom txChecksumOffload batchSize batches reads \<Rightarrow> list_all read_ok reads \<and>
       list_all (\<lambda>batch. list_all (\<lambda>(w, n, buf). frontHeadroom + n \<le> length buf) batch) (open_reads batches)
   | DarwinTUN batches reads \<Rightarrow> list_all read_ok reads
   | OtherTun reads \<Rightarrow> list_all read_ok reads)"

definition device_stream :: "bool \<Rightarrow> device \<Rightarrow> stream" where
  "device_stream recvMsgX tun = (case tun of
     WinTun reads \<Rightarrow> win_stream reads
   | LinuxTUN frontHeadroom txChecksumOffload batchSize batches reads \<Rightarrow>
       if batchSize > 1 then linux_stream frontHeadroom batches else read_stream reads
   | DarwinTUN batches reads \<Rightarrow> if recvMsgX then darwin_stream batches else read_stream reads
   | OtherTun reads \<Rightarrow> read_stream reads)"

definition device_ready :: "device \<Rightarrow> System \<Rightarrow> System" where
  "device_ready tun s = (case tun of
     LinuxTUN frontHeadroom txChecksumOffload _ _ _ \<Rightarrow> s\<lparr>sy_frontHeadroom := frontHeadroom, sy_txChecksumOffload := txChecksumOffload\<rparr>
   | _ \<Rightarrow> s)"

text \<open>
  C5. The loops agree, on every kind of device and for all reads: the stack ends in the state it reaches by
  handling the packets one by one, with the same packets written to the device and the same calls to the handler,
  and it panics on the same inputs. A loop that reads batches changes the order of the writes only. (The device
  fills its buffers up to the length it reports.)
\<close>

theorem loops_agree:
  assumes "device_ok tun"
  shows "same_outcome (tunLoop tun s) (seq_loop (device_stream (sy_recvMsgX s) tun) (device_ready tun s))"
proof (cases tun)
  case (LinuxTUN fh off n batches reads)
  have "\<forall>batch \<in> set (open_reads batches). \<forall>(w, n, buf) \<in> set batch. fh + n \<le> length buf"
    using assms LinuxTUN by (simp add: device_ok_def list_all_iff)
  then show ?thesis
    using linux_loop [of batches "s\<lparr>sy_frontHeadroom := fh, sy_txChecksumOffload := off\<rparr>"] read_loop [of reads] assms
    by (auto simp: LinuxTUN tunLoop_def device_stream_def device_ready_def device_ok_def Let_def)
qed (use assms win_loop read_loop darwin_loop in \<open>auto simp: tunLoop_def device_stream_def device_ready_def device_ok_def\<close>)

theorem loops_agree_witness:
  "same_outcome (tunLoop (LinuxTUN 10 False 2 [(None, [(sample_world, 40, replicate 10 0 @ syn4), (sample_world, 40, replicate 10 0 @ syn4)])] [])
      sample_system)
    (seq_loop [(sample_world, replicate 10 0, syn4), (sample_world, replicate 10 0, syn4)] sample_system)"
proof -
  let ?d = "LinuxTUN 10 False 2 [(None, [(sample_world, 40, replicate 10 0 @ syn4), (sample_world, 40, replicate 10 0 @ syn4)])] []"
  have l: "length syn4 = 40" by (simp add: syn4_def)
  have "device_ok ?d" by (simp add: device_ok_def open_reads_def l)
  moreover have "device_stream (sy_recvMsgX sample_system) ?d = [(sample_world, replicate 10 0, syn4), (sample_world, replicate 10 0, syn4)]"
    by (simp add: device_stream_def linux_stream_def open_reads_def frame_def l)
  moreover have "device_ready ?d sample_system = sample_system" by (simp add: device_ready_def sample_system_def)
  ultimately show ?thesis using loops_agree [of ?d sample_system] by simp
qed

end
