(* ===== verification/Header_NDP.thy ===== *)
theory Header_NDP
  imports Header_IPv6
begin

text \<open>
  The options of neighbor discovery, \<^verbatim>\<open>internal/gtcpip/header/ndp_options.go\<close>: their accessors, the iterator, and
  the serialization. The theory \<open>NDP_Names\<close> shows that the parser of domain names accepts exactly the encodings of RFC 1035
  names; \<open>NDP_Options\<close> shows that reading ends without a panic on any input, that whatever is accepted can be
  read without a panic, and that options that are serialized are read back with the same values.

  A \<^verbatim>\<open>time.Duration\<close> is its number of nanoseconds; the fields hold 32 bits of seconds, so that it does not
  overflow. \<open>ClearArray\<close> of the library sing is a parameter, which the code relies on to zero a slice. The closures that
  collect addresses and names are the returned lists.
\<close>

section \<open>Options\<close>

datatype ndp_error = ErrUnexpectedEOF | ErrNDPOptMalformedBody | ErrNDPOptMalformedHeader

type_synonym Duration = int

definition Seconds :: "u32 \<Rightarrow> Duration" where
  "Seconds n = 1000000000 * uint n"

datatype NDPOption =
  NDPNonceOption bytes
| NDPSourceLinkLayerAddressOption bytes
| NDPTargetLinkLayerAddressOption bytes
| NDPPrefixInformation bytes
| NDPRecursiveDNSServer bytes
| NDPDNSSearchList bytes
| NDPRouteInformation bytes

primrec NDPOption_kind :: "NDPOption \<Rightarrow> u8" where
  "NDPOption_kind (NDPNonceOption v) = 14"
| "NDPOption_kind (NDPSourceLinkLayerAddressOption v) = 1"
| "NDPOption_kind (NDPTargetLinkLayerAddressOption v) = 2"
| "NDPOption_kind (NDPPrefixInformation v) = 3"
| "NDPOption_kind (NDPRecursiveDNSServer v) = 25"
| "NDPOption_kind (NDPDNSSearchList v) = 31"
| "NDPOption_kind (NDPRouteInformation v) = 24"

primrec NDPOption_length :: "NDPOption \<Rightarrow> nat" where
  "NDPOption_length (NDPNonceOption v) = length v"
| "NDPOption_length (NDPSourceLinkLayerAddressOption v) = length v"
| "NDPOption_length (NDPTargetLinkLayerAddressOption v) = length v"
| "NDPOption_length (NDPPrefixInformation v) = 30"
| "NDPOption_length (NDPRecursiveDNSServer v) = length v"
| "NDPOption_length (NDPDNSSearchList v) = length v"
| "NDPOption_length (NDPRouteInformation v) = length v"

subsection \<open>Nonces and link-layer addresses\<close>

definition NDPNonceOption_Nonce :: "bytes \<Rightarrow> bytes" where
  "NDPNonceOption_Nonce v = v"

definition NDPSourceLinkLayerAddressOption_EthernetAddress :: "bytes \<Rightarrow> bytes" where
  "NDPSourceLinkLayerAddressOption_EthernetAddress v = (if 6 \<le> length v then take 6 v else [])"

definition NDPTargetLinkLayerAddressOption_EthernetAddress :: "bytes \<Rightarrow> bytes" where
  "NDPTargetLinkLayerAddressOption_EthernetAddress v = (if 6 \<le> length v then take 6 v else [])"

subsection \<open>Prefixes\<close>

definition NDPPrefixInformation_serializeInto :: "(bytes \<Rightarrow> bytes) \<Rightarrow> bytes \<Rightarrow> bytes \<Rightarrow> (nat \<times> bytes) option" where
  "NDPPrefixInformation_serializeInto ClearArray v b = do {
     let used = min (length b) (length v);
     let b = go_copy b v;
     x \<leftarrow> byte_at b 1;
     b \<leftarrow> set_byte b 1 (x AND NOT 63);
     b \<leftarrow> on_slice 10 14 (\<lambda>reserved2. Some (ClearArray reserved2)) b;
     Some (used, b) }"

definition NDPPrefixInformation_PrefixLength :: "bytes \<Rightarrow> u8 option" where
  "NDPPrefixInformation_PrefixLength v = byte_at v 0"

definition NDPPrefixInformation_OnLinkFlag :: "bytes \<Rightarrow> bool option" where
  "NDPPrefixInformation_OnLinkFlag v = do { x \<leftarrow> byte_at v 1; Some (x AND 128 \<noteq> 0) }"

definition NDPPrefixInformation_AutonomousAddressConfigurationFlag :: "bytes \<Rightarrow> bool option" where
  "NDPPrefixInformation_AutonomousAddressConfigurationFlag v = do { x \<leftarrow> byte_at v 1; Some (x AND 64 \<noteq> 0) }"

definition NDPPrefixInformation_ValidLifetime :: "bytes \<Rightarrow> Duration option" where
  "NDPPrefixInformation_ValidLifetime v = do { t \<leftarrow> BE_Uint32 v 2; Some (Seconds t) }"

definition NDPPrefixInformation_PreferredLifetime :: "bytes \<Rightarrow> Duration option" where
  "NDPPrefixInformation_PreferredLifetime v = do { t \<leftarrow> BE_Uint32 v 6; Some (Seconds t) }"

definition NDPPrefixInformation_Prefix :: "bytes \<Rightarrow> Address option" where
  "NDPPrefixInformation_Prefix v = do { s \<leftarrow> slice v 14 (14 + 16); AddrFrom16Slice s }"

definition NDPPrefixInformation_Subnet :: "bytes \<Rightarrow> Subnet option" where
  "NDPPrefixInformation_Subnet v = do {
     a \<leftarrow> NDPPrefixInformation_Prefix v;
     n \<leftarrow> NDPPrefixInformation_PrefixLength v;
     AddressWithPrefix_Subnet \<lparr>p_Address = a, p_PrefixLen = uint n\<rparr> }"

subsection \<open>DNS servers\<close>

definition NDPRecursiveDNSServer_serializeInto :: "(bytes \<Rightarrow> bytes) \<Rightarrow> bytes \<Rightarrow> bytes \<Rightarrow> (nat \<times> bytes) option" where
  "NDPRecursiveDNSServer_serializeInto ClearArray v b = do {
     let used = min (length b) (length v);
     let b = go_copy b v;
     b \<leftarrow> on_slice 0 2 (\<lambda>s. Some (ClearArray s)) b;
     Some (used, b) }"

definition NDPRecursiveDNSServer_Lifetime :: "bytes \<Rightarrow> Duration option" where
  "NDPRecursiveDNSServer_Lifetime v = do { t \<leftarrow> BE_Uint32 v 2; Some (Seconds t) }"

text \<open>The loop over the addresses: those before the first that is not a unicast address, and the error.\<close>

function iter_addresses :: "bytes \<Rightarrow> Address list \<Rightarrow> (Address list \<times> ndp_error option) option" where
  "iter_addresses v addrs =
     (if length v = 0 then Some (addrs, None)
      else do {
        s \<leftarrow> slice v 0 16;
        addr \<leftarrow> AddrFrom16Slice s;
        unicast \<leftarrow> IsV6UnicastAddress addr;
        if \<not> unicast then Some (addrs, Some ErrNDPOptMalformedBody)
        else iter_addresses (drop 16 v) (addrs @ [addr]) })"
  by pat_completeness auto
termination by (relation "measure (\<lambda>(v, addrs). length v)") auto

declare iter_addresses.simps [simp del]

definition NDPRecursiveDNSServer_iterAddresses :: "bytes \<Rightarrow> (Address list \<times> ndp_error option) option" where
  "NDPRecursiveDNSServer_iterAddresses v =
     (if length v < 22 then Some ([], Some ErrUnexpectedEOF)
      else do {
        v \<leftarrow> slice_from v 6;
        if length v mod 16 \<noteq> 0 then Some ([], Some ErrNDPOptMalformedBody)
        else iter_addresses v [] })"

text \<open>
  \<^verbatim>\<open>Addresses\<close> returns a variable together with the call whose closure appends to it. Go leaves their order open; the result here is
  that of the compiler, which makes the call first. \<^verbatim>\<open>DomainNames\<close> below is alike.
\<close>

definition NDPRecursiveDNSServer_Addresses :: "bytes \<Rightarrow> (Address list \<times> ndp_error option) option" where
  "NDPRecursiveDNSServer_Addresses v = NDPRecursiveDNSServer_iterAddresses v"

definition NDPRecursiveDNSServer_checkAddresses :: "bytes \<Rightarrow> ndp_error option option" where
  "NDPRecursiveDNSServer_checkAddresses v = map_option snd (NDPRecursiveDNSServer_iterAddresses v)"

subsection \<open>Domain names\<close>

definition isUpperLetter :: "u8 \<Rightarrow> bool" where
  "isUpperLetter b \<longleftrightarrow> 65 \<le> b \<and> b \<le> 90"

definition isLetter :: "u8 \<Rightarrow> bool" where
  "isLetter b \<longleftrightarrow> 97 \<le> b \<and> b \<le> 122 \<or> isUpperLetter b"

definition isDigit :: "u8 \<Rightarrow> bool" where
  "isDigit b \<longleftrightarrow> 48 \<le> b \<and> b \<le> 57"

text \<open>
  The three loops of \<^verbatim>\<open>iterDomainNames\<close>. A reader is the list of the bytes that are left; \<open>k\<close> of the \<open>labelLen\<close>
  bytes of the label are left to read.
\<close>

fun read_label :: "nat \<Rightarrow> nat \<Rightarrow> bytes \<Rightarrow> bytes \<Rightarrow> ndp_error + (bytes \<times> bytes)" where
  "read_label labelLen 0 searchList domainName = Inr (searchList, domainName)"
| "read_label labelLen (Suc k) [] domainName = Inl ErrUnexpectedEOF"
| "read_label labelLen (Suc k) (b # searchList) domainName = (
     let i = labelLen - Suc k in
     if \<not> isLetter b \<and> i = 0 then Inl ErrNDPOptMalformedBody
     else if \<not> isLetter b \<and> b = 45 \<and> i = labelLen - 1 then Inl ErrNDPOptMalformedBody
     else if \<not> isLetter b \<and> b \<noteq> 45 \<and> \<not> isDigit b then Inl ErrNDPOptMalformedBody
     else read_label labelLen k searchList (domainName @ [if isUpperLetter b then b - 65 + 97 else b]))"

lemma read_label_rest: "read_label n k rd dn = Inr (rd', dn') \<Longrightarrow> length rd = k + length rd' \<and> length dn' = length dn + k"
  by (induction n k rd dn rule: read_label.induct) (auto simp: Let_def split: if_splits)

function read_name :: "bytes \<Rightarrow> bytes \<Rightarrow> ndp_error + (bytes \<times> bytes)" where
  "read_name [] domainName = Inl ErrUnexpectedEOF"
| "read_name (labelLen # searchList) domainName =
     (if labelLen = 0 then Inr (searchList, domainName)
      else if unat labelLen > 63 then Inl ErrNDPOptMalformedBody
      else if int (unat labelLen) + 1 > 255 - int (length domainName) then Inl ErrNDPOptMalformedBody
      else case read_label (unat labelLen) (unat labelLen) searchList domainName of
          Inl err \<Rightarrow> Inl err
        | Inr (searchList, domainName) \<Rightarrow> read_name searchList (domainName @ [46]))"
  by pat_completeness auto
termination by (relation "measure (\<lambda>(rd, dn). length rd)") (auto dest: read_label_rest)

lemma read_name_rest: "read_name rd dn = Inr (rd', dn') \<Longrightarrow> length rd' < length rd"
  by (induction rd dn rule: read_name.induct) (fastforce dest: read_label_rest split: if_splits sum.splits prod.splits)+

function read_names :: "bytes \<Rightarrow> bytes list \<Rightarrow> bytes list \<times> ndp_error option" where
  "read_names searchList domainNames =
     (if length searchList = 0 then (domainNames, None)
      else case read_name searchList [] of
          Inl err \<Rightarrow> (domainNames, Some err)
        | Inr (searchList, domainName) \<Rightarrow>
            read_names searchList (if length domainName = 0 then domainNames else domainNames @ [butlast domainName]))"
  by pat_completeness auto
termination by (relation "measure (\<lambda>(rd, ns). length rd)") (auto dest: read_name_rest)

declare read_names.simps [simp del]

definition NDPDNSSearchList_serializeInto :: "(bytes \<Rightarrow> bytes) \<Rightarrow> bytes \<Rightarrow> bytes \<Rightarrow> (nat \<times> bytes) option" where
  "NDPDNSSearchList_serializeInto ClearArray v b = do {
     let used = min (length b) (length v);
     let b = go_copy b v;
     b \<leftarrow> on_slice 0 2 (\<lambda>s. Some (ClearArray s)) b;
     Some (used, b) }"

definition NDPDNSSearchList_Lifetime :: "bytes \<Rightarrow> Duration option" where
  "NDPDNSSearchList_Lifetime v = do { t \<leftarrow> BE_Uint32 v 2; Some (Seconds t) }"

definition NDPDNSSearchList_iterDomainNames :: "bytes \<Rightarrow> (bytes list \<times> ndp_error option) option" where
  "NDPDNSSearchList_iterDomainNames v =
     (if length v < 14 then Some ([], Some ErrUnexpectedEOF)
      else do { searchList \<leftarrow> slice_from v 6; Some (read_names searchList []) })"

definition NDPDNSSearchList_DomainNames :: "bytes \<Rightarrow> (bytes list \<times> ndp_error option) option" where
  "NDPDNSSearchList_DomainNames v = NDPDNSSearchList_iterDomainNames v"

definition NDPDNSSearchList_checkDomainNames :: "bytes \<Rightarrow> ndp_error option option" where
  "NDPDNSSearchList_checkDomainNames v = map_option snd (NDPDNSSearchList_iterDomainNames v)"

subsection \<open>Routes\<close>

definition NDPRouteInformation_PrefixLength :: "bytes \<Rightarrow> u8 option" where
  "NDPRouteInformation_PrefixLength v = byte_at v 0"

definition NDPRouteInformation_RoutePreference :: "bytes \<Rightarrow> u8 option" where
  "NDPRouteInformation_RoutePreference v = do { x \<leftarrow> byte_at v 1; Some (drop_bit 3 (x AND push_bit 3 3)) }"

definition NDPRouteInformation_RouteLifetime :: "bytes \<Rightarrow> Duration option" where
  "NDPRouteInformation_RouteLifetime v = do { t \<leftarrow> BE_Uint32 v 2; Some (Seconds t) }"

datatype route_error = PrefixTooLong

definition NDPRouteInformation_Prefix :: "bytes \<Rightarrow> (route_error + Subnet) option" where
  "NDPRouteInformation_Prefix v = do {
     prefixLength \<leftarrow> NDPRouteInformation_PrefixLength v;
     if unat prefixLength > 16 * 8 then Some (Inl PrefixTooLong)
     else do {
       prefix \<leftarrow> slice_from v 6;
       _ \<leftarrow> guard_panic (min 16 (length prefix) \<noteq> length prefix);
       s \<leftarrow> AddressWithPrefix_Subnet
         \<lparr>p_Address = AddrFrom16 (go_copy (replicate 16 0) prefix), p_PrefixLen = uint prefixLength\<rparr>;
       Some (Inr s) } }"

definition NDPRouteInformation_hasError :: "bytes \<Rightarrow> ndp_error option option" where
  "NDPRouteInformation_hasError v =
     (if length v < 6 then Some (Some ErrNDPOptMalformedBody)
      else do {
        n \<leftarrow> NDPRouteInformation_PrefixLength v;
        let prefixLength = unat n;
        if prefixLength > 16 * 8 then Some (Some ErrNDPOptMalformedBody)
        else do {
          let lengthField = (length v + 2) div 8;
          Some (if prefixLength > 64 then if lengthField \<noteq> 3 then Some ErrNDPOptMalformedBody else None
            else if prefixLength > 0 then if lengthField \<noteq> 2 \<and> lengthField \<noteq> 3 then Some ErrNDPOptMalformedBody else None
            else if lengthField = 0 \<or> lengthField > 3 then Some ErrNDPOptMalformedBody else None) } })"

section \<open>The iterator\<close>

text \<open>The switch over the kinds of options; \<open>Inr None\<close> is an option that is skipped.\<close>

definition parse_option :: "u8 \<Rightarrow> bytes \<Rightarrow> (ndp_error + NDPOption option) option" where
  "parse_option kind body =
     (if kind = 1 then Some (Inr (Some (NDPSourceLinkLayerAddressOption body)))
      else if kind = 2 then Some (Inr (Some (NDPTargetLinkLayerAddressOption body)))
      else if kind = 14 then Some (Inr (Some (NDPNonceOption body)))
      else if kind = 24 then
        if length body > 22 then Some (Inl ErrNDPOptMalformedBody)
        else do {
          err \<leftarrow> NDPRouteInformation_hasError body;
          Some (case err of Some e \<Rightarrow> Inl e | None \<Rightarrow> Inr (Some (NDPRouteInformation body))) }
      else if kind = 3 then
        if length body \<noteq> 30 then Some (Inl ErrNDPOptMalformedBody) else Some (Inr (Some (NDPPrefixInformation body)))
      else if kind = 25 then do {
        err \<leftarrow> NDPRecursiveDNSServer_checkAddresses body;
        Some (case err of Some e \<Rightarrow> Inl e | None \<Rightarrow> Inr (Some (NDPRecursiveDNSServer body))) }
      else if kind = 31 then do {
        err \<leftarrow> NDPDNSSearchList_checkDomainNames body;
        Some (case err of Some e \<Rightarrow> Inl e | None \<Rightarrow> Inr (Some (NDPDNSSearchList body))) }
      else Some (Inr None))"

datatype ndp_next = NDPDone | NDPError ndp_error | NDPNext NDPOption

function NDPOptionIterator_Next :: "bytes \<Rightarrow> (bytes \<times> ndp_next) option" where
  "NDPOptionIterator_Next [] = Some ([], NDPDone)"
| "NDPOptionIterator_Next [kind] = Some ([], NDPError ErrUnexpectedEOF)"
| "NDPOptionIterator_Next (kind # len # opts) =
     (if len = 0 then Some (opts, NDPError ErrNDPOptMalformedHeader)
      else let numBodyBytes = unat len * 8 - 2; body = take numBodyBytes opts; opts = drop numBodyBytes opts in
        if length body < numBodyBytes then Some (opts, NDPError ErrUnexpectedEOF)
        else do {
          r \<leftarrow> parse_option kind body;
          case r of Inl err \<Rightarrow> Some (opts, NDPError err)
          | Inr (Some opt) \<Rightarrow> Some (opts, NDPNext opt)
          | Inr None \<Rightarrow> NDPOptionIterator_Next opts })"
  by pat_completeness auto
termination by (relation "measure length") auto

text \<open>The loop of \<^verbatim>\<open>Iter\<close> that checks the options: it ends at the first error or at the end.\<close>

lemma Next_rest: "NDPOptionIterator_Next b = Some (b', NDPNext opt) \<Longrightarrow> length b' < length b"
proof (induction b rule: NDPOptionIterator_Next.induct)
  case (3 kind len opts)
  let ?n = "unat len * 8 - 2"
  show ?case
  proof (cases "len = 0 \<or> length (take ?n opts) < ?n")
    case False
    then obtain r where r: "parse_option kind (take ?n opts) = Some r" using 3(2) by (auto simp: Let_def bind_eq_Some_conv)
    show ?thesis
    proof (cases "r = Inr None")
      case True
      then have "NDPOptionIterator_Next (drop ?n opts) = Some (b', NDPNext opt)" using 3(2) False r by (simp add: Let_def)
      then have "length b' < length (drop ?n opts)" using 3(1) False r True by simp
      then show ?thesis by simp
    next
      case f: False
      then have "b' = drop ?n opts" using 3(2) False r by (auto simp: Let_def split: sum.splits option.splits)
      then show ?thesis by simp
    qed
  qed (use 3(2) in \<open>auto simp: Let_def split: if_splits\<close>)
qed simp_all

function check_options :: "bytes \<Rightarrow> ndp_error option option" where
  "check_options b = (case NDPOptionIterator_Next b of
     None \<Rightarrow> None
   | Some (b, NDPDone) \<Rightarrow> Some None
   | Some (b, NDPError err) \<Rightarrow> Some (Some err)
   | Some (b, NDPNext opt) \<Rightarrow> check_options b)"
  by pat_completeness auto
termination by (relation "measure length") (auto dest: Next_rest)

declare check_options.simps [simp del]

definition NDPOptions_Iter :: "bytes \<Rightarrow> bool \<Rightarrow> (bytes \<times> ndp_error option) option" where
  "NDPOptions_Iter b check = (if check then do { err \<leftarrow> check_options b; Some (b, err) } else Some (b, None))"

text \<open>A caller of the iterator: all options up to the first error or the end.\<close>

function read_ndp_options :: "bytes \<Rightarrow> (NDPOption list \<times> ndp_error option) option" where
  "read_ndp_options b = (case NDPOptionIterator_Next b of
     None \<Rightarrow> None
   | Some (b, NDPDone) \<Rightarrow> Some ([], None)
   | Some (b, NDPError err) \<Rightarrow> Some ([], Some err)
   | Some (b, NDPNext opt) \<Rightarrow> map_option (\<lambda>(opts, err). (opt # opts, err)) (read_ndp_options b))"
  by pat_completeness auto
termination by (relation "measure length") (auto dest: Next_rest)

declare read_ndp_options.simps [simp del]

section \<open>Serialization\<close>

definition NDPOption_serializeInto :: "(bytes \<Rightarrow> bytes) \<Rightarrow> NDPOption \<Rightarrow> bytes \<Rightarrow> (nat \<times> bytes) option" where
  "NDPOption_serializeInto ClearArray opt b = (case opt of
     NDPNonceOption v \<Rightarrow> Some (min (length b) (length v), go_copy b v)
   | NDPSourceLinkLayerAddressOption v \<Rightarrow> Some (min (length b) (length v), go_copy b v)
   | NDPTargetLinkLayerAddressOption v \<Rightarrow> Some (min (length b) (length v), go_copy b v)
   | NDPPrefixInformation v \<Rightarrow> NDPPrefixInformation_serializeInto ClearArray v b
   | NDPRecursiveDNSServer v \<Rightarrow> NDPRecursiveDNSServer_serializeInto ClearArray v b
   | NDPDNSSearchList v \<Rightarrow> NDPDNSSearchList_serializeInto ClearArray v b
   | NDPRouteInformation v \<Rightarrow> Some (min (length b) (length v), go_copy b v))"

definition paddedLength :: "NDPOption \<Rightarrow> nat" where
  "paddedLength opt = (
     let l = NDPOption_length opt in
     if l = 0 then 0
     else let l = l + 2 + 7; l = l - l mod 8 in
       if l div 8 > 255 then 0 else l)"

definition NDPOptionsSerializer_Length :: "NDPOption list \<Rightarrow> nat" where
  "NDPOptionsSerializer_Length opts = fold (\<lambda>opt l. l + paddedLength opt) opts 0"

text \<open>The number of bytes and the buffer.\<close>

fun NDPOptions_Serialize :: "(bytes \<Rightarrow> bytes) \<Rightarrow> NDPOption list \<Rightarrow> bytes \<Rightarrow> (nat \<times> bytes) option" where
  "NDPOptions_Serialize ClearArray [] b = Some (0, b)"
| "NDPOptions_Serialize ClearArray (opt # s) b = (
     let l = paddedLength opt in
     if l = 0 then NDPOptions_Serialize ClearArray s b
     else do {
       b \<leftarrow> set_byte b 0 (NDPOption_kind opt);
       b \<leftarrow> set_byte b 1 (word_of_nat (l div 8));
       t \<leftarrow> slice_from b 2;
       (used, t) \<leftarrow> NDPOption_serializeInto ClearArray opt t;
       let b = take 2 b @ t;
       b \<leftarrow> (if used + 2 < l then on_slice (used + 2) l (\<lambda>s. Some (ClearArray s)) b else Some b);
       rest \<leftarrow> slice_from b l;
       (done, rest) \<leftarrow> NDPOptions_Serialize ClearArray s rest;
       Some (l + done, take l b @ rest) })"

end
