(* ===== verification/NDP_Names.thy ===== *)
theory NDP_Names
  imports Header_NDP
begin

text \<open>
  Domain names in the DNS search list option. RFC 1035 encodes a name as its labels, each behind its length, and a
  zero. \<open>name_ok\<close> is the grammar of section 2.3.1 with the limits of section 3.1, as the code reads it; the parser is shown to be the
  inverse of the encoding, on all inputs.
\<close>

definition lower :: "u8 \<Rightarrow> u8" where
  "lower b = (if isUpperLetter b then b - 65 + 97 else b)"

definition label_char :: "u8 \<Rightarrow> bool" where
  "label_char b \<longleftrightarrow> isLetter b \<or> isDigit b \<or> b = 45"

definition label_ok :: "bytes \<Rightarrow> bool" where
  "label_ok l \<longleftrightarrow> l \<noteq> [] \<and> length l \<le> 63 \<and> isLetter (hd l) \<and> last l \<noteq> 45 \<and> list_all label_char l"

definition encode_label :: "bytes \<Rightarrow> bytes" where
  "encode_label l = word_of_nat (length l) # l"

definition encode_name :: "bytes list \<Rightarrow> bytes" where
  "encode_name ls = concat (map encode_label ls) @ [0]"

definition dotted :: "bytes list \<Rightarrow> bytes" where
  "dotted ls = concat (map (\<lambda>l. map lower l @ [46]) ls)"

definition name_ok :: "bytes list \<Rightarrow> bool" where
  "name_ok ls \<longleftrightarrow> list_all label_ok ls \<and> length (dotted ls) \<le> 255"

text \<open>The name without the trailing period.\<close>

definition domain_name :: "bytes list \<Rightarrow> bytes" where
  "domain_name ls = butlast (dotted ls)"

lemma dotted_simps [simp]: "dotted [] = []" "dotted (l # ls) = map lower l @ [46] @ dotted ls"
  by (simp_all add: dotted_def)

lemma encode_simps [simp]: "encode_name [] = [0]" "encode_name (l # ls) = word_of_nat (length l) # l @ encode_name ls"
  by (simp_all add: encode_name_def encode_label_def)

lemma hyphen [simp]: "\<not> isLetter 45"
  by (simp add: isLetter_def isUpperLetter_def word_le_nat_alt)

text \<open>The bytes of a label, of which \<open>k\<close> are left.\<close>

definition tail_ok :: "nat \<Rightarrow> bytes \<Rightarrow> bool" where
  "tail_ok n l \<longleftrightarrow> list_all label_char l \<and> (l \<noteq> [] \<longrightarrow> last l \<noteq> 45 \<and> (length l = n \<longrightarrow> isLetter (hd l)))"

lemma read_label_Suc:
  assumes "Suc k \<le> n"
  shows "read_label n (Suc k) (b # rd) dn = Inr r \<longleftrightarrow>
    (isLetter b \<or> Suc k \<noteq> n \<and> (isDigit b \<or> b = 45 \<and> k \<noteq> 0)) \<and> read_label n k rd (dn @ [lower b]) = Inr r"
proof -
  have "n - Suc k = 0 \<longleftrightarrow> Suc k = n" "n - Suc k = n - 1 \<longleftrightarrow> k = 0" using assms by auto
  moreover have "\<not> isDigit 45" by (simp add: isDigit_def word_le_nat_alt)
  ultimately show ?thesis by (auto simp: Let_def lower_def)
qed

lemma tail_Suc:
  "Suc (length l) \<le> n \<Longrightarrow> (isLetter b \<or> Suc (length l) \<noteq> n \<and> (isDigit b \<or> b = 45 \<and> l \<noteq> [])) \<and> tail_ok n l \<longleftrightarrow> tail_ok n (b # l)"
  by (auto simp: tail_ok_def label_char_def isDigit_def word_le_nat_alt)

lemma read_label_iff:
  "k \<le> n \<Longrightarrow> read_label n k rd dn = Inr (rd', dn') \<longleftrightarrow>
    (\<exists>l. rd = l @ rd' \<and> length l = k \<and> dn' = dn @ map lower l \<and> tail_ok n l)"
proof (induction k arbitrary: rd dn)
  case (Suc k)
  show ?case
  proof (cases rd)
    case (Cons b rd2)
    have "read_label n (Suc k) rd dn = Inr (rd', dn') \<longleftrightarrow>
      (\<exists>l. rd2 = l @ rd' \<and> length l = k \<and> dn' = dn @ map lower (b # l) \<and> tail_ok n (b # l))"
      (is "_ \<longleftrightarrow> (\<exists>l. ?P l)")
    proof -
      have "read_label n k rd2 (dn @ [lower b]) = Inr (rd', dn') \<longleftrightarrow>
          (\<exists>l. rd2 = l @ rd' \<and> length l = k \<and> dn' = dn @ map lower (b # l) \<and> tail_ok n l)"
        using Suc.IH [of rd2 "dn @ [lower b]"] Suc.prems by simp
      moreover have "?P l \<longleftrightarrow> (isLetter b \<or> Suc k \<noteq> n \<and> (isDigit b \<or> b = 45 \<and> k \<noteq> 0)) \<and>
          rd2 = l @ rd' \<and> length l = k \<and> dn' = dn @ map lower (b # l) \<and> tail_ok n l" for l
        using tail_Suc [of l n b] Suc.prems by auto
      ultimately show ?thesis unfolding Cons read_label_Suc [OF Suc.prems] by blast
    qed
    then show ?thesis unfolding Cons by (auto simp: length_Suc_conv Cons_eq_append_conv)
  qed auto
qed (auto simp: tail_ok_def)

lemma tail_label: "0 < n \<Longrightarrow> n \<le> 63 \<Longrightarrow> length l = n \<and> tail_ok n l \<longleftrightarrow> length l = n \<and> label_ok l"
  by (auto simp: tail_ok_def label_ok_def)

lemma label_len: "label_ok l \<Longrightarrow> unat (word_of_nat (length l) :: u8) = length l"
  by (simp add: label_ok_def unat_of_nat)

lemma read_name_Cons:
  assumes n: "n \<noteq> 0"
  shows "read_name (n # rd) dn = Inr r \<longleftrightarrow>
    (\<exists>l rd2. rd = l @ rd2 \<and> unat n = length l \<and> label_ok l \<and> length dn + length l + 1 \<le> 255 \<and>
       read_name rd2 (dn @ map lower l @ [46]) = Inr r)"
proof -
  have "0 < unat n" using n by (simp add: unat_gt_0)
  then have tl: "unat n \<le> 63 \<and> length l = unat n \<and> tail_ok (unat n) l \<longleftrightarrow> unat n = length l \<and> label_ok l" for l
    using tail_label [of "unat n" l] by (auto simp: label_ok_def)
  have "read_name (n # rd) dn = Inr r \<longleftrightarrow> unat n \<le> 63 \<and> length dn + unat n + 1 \<le> 255 \<and>
    (\<exists>rd2 dn2. read_label (unat n) (unat n) rd dn = Inr (rd2, dn2) \<and> read_name rd2 (dn2 @ [46]) = Inr r)"
  proof -
    have room: "int (unat n) + 1 > 255 - int (length dn) \<longleftrightarrow> \<not> length dn + unat n + 1 \<le> 255" by arith
    show ?thesis using n unfolding read_name.simps room by (auto split: sum.splits)
  qed
  also have "\<dots> \<longleftrightarrow> (\<exists>l rd2. rd = l @ rd2 \<and> (unat n \<le> 63 \<and> length l = unat n \<and> tail_ok (unat n) l) \<and>
      length dn + unat n + 1 \<le> 255 \<and> read_name rd2 ((dn @ map lower l) @ [46]) = Inr r)"
    unfolding read_label_iff [OF order_refl] by blast
  also have "\<dots> \<longleftrightarrow> (\<exists>l rd2. rd = l @ rd2 \<and> (unat n = length l \<and> label_ok l) \<and>
      length dn + unat n + 1 \<le> 255 \<and> read_name rd2 ((dn @ map lower l) @ [46]) = Inr r)"
    using tl by presburger
  also have "\<dots> \<longleftrightarrow> (\<exists>l rd2. rd = l @ rd2 \<and> unat n = length l \<and> label_ok l \<and> length dn + length l + 1 \<le> 255 \<and>
       read_name rd2 (dn @ map lower l @ [46]) = Inr r)"
    by (simp cong: conj_cong)
  finally show ?thesis .
qed

lemma read_name_encode:
  assumes "list_all label_ok ls" "ls \<noteq> [] \<longrightarrow> length (dn @ dotted ls) \<le> 255"
  shows "read_name (encode_name ls @ rd) dn = Inr (rd, dn @ dotted ls)"
  using assms
proof (induction ls arbitrary: dn)
  case (Cons l ls)
  have l: "label_ok l" using Cons.prems by simp
  then have n: "(word_of_nat (length l) :: u8) \<noteq> 0" using label_len [OF l] by (auto simp: label_ok_def)
  have "read_name (encode_name ls @ rd) (dn @ map lower l @ [46]) = Inr (rd, dn @ dotted (l # ls))"
    using Cons.IH [of "dn @ map lower l @ [46]"] Cons.prems by simp
  then have "read_name (word_of_nat (length l) # (l @ encode_name ls @ rd)) dn = Inr (rd, dn @ dotted (l # ls))"
    unfolding read_name_Cons [OF n] using label_len [OF l] l Cons.prems
    by (intro exI [of _ l] exI [of _ "encode_name ls @ rd"]) simp
  then show ?case by simp
qed simp

lemma read_name_decode:
  "read_name rd dn = Inr (rd', dn') \<Longrightarrow>
    \<exists>ls. rd = encode_name ls @ rd' \<and> list_all label_ok ls \<and> dn' = dn @ dotted ls \<and> (ls \<noteq> [] \<longrightarrow> length dn' \<le> 255)"
proof (induction "length rd" arbitrary: rd dn rule: less_induct)
  case less
  then obtain n rd1 where rd: "rd = n # rd1" by (cases rd) auto
  show ?case
  proof (cases "n = 0")
    case True
    then show ?thesis using less.prems rd by (auto intro!: exI [of _ "[]"])
  next
    case False
    then obtain l rd2 where l: "rd1 = l @ rd2" "unat n = length l" "label_ok l" "length dn + length l + 1 \<le> 255"
        "read_name rd2 (dn @ map lower l @ [46]) = Inr (rd', dn')"
      using less.prems unfolding rd read_name_Cons [OF False] by blast
    obtain ls where ls: "rd2 = encode_name ls @ rd'" "list_all label_ok ls" "dn' = (dn @ map lower l @ [46]) @ dotted ls"
        "ls \<noteq> [] \<longrightarrow> length dn' \<le> 255"
      using less.hyps [OF _ l(5)] unfolding rd l(1) by auto
    have "n = word_of_nat (length l)" unfolding l(2) [symmetric] by simp
    then show ?thesis using l ls unfolding rd by (intro exI [of _ "l # ls"]) (cases ls, auto)
  qed
qed

lemma dotted_empty [simp]: "dotted ls = [] \<longleftrightarrow> ls = []"
  by (cases ls) auto

lemma read_names_decode:
  "read_names rd ns = (ns', None) \<Longrightarrow>
    \<exists>nms. rd = concat (map encode_name nms) \<and> list_all name_ok nms \<and> ns' = ns @ map domain_name (filter (\<lambda>ls. ls \<noteq> []) nms)"
proof (induction "length rd" arbitrary: rd ns rule: less_induct)
  case less
  show ?case
  proof (cases "rd = []")
    case True
    then show ?thesis using less.prems by (intro exI [of _ "[]"]) (simp add: read_names.simps)
  next
    case False
    then obtain rd2 dn where r: "read_name rd [] = Inr (rd2, dn)"
        "read_names rd2 (if length dn = 0 then ns else ns @ [butlast dn]) = (ns', None)"
      using less.prems by (subst (asm) read_names.simps) (auto split: sum.splits)
    obtain ls where ls: "rd = encode_name ls @ rd2" "list_all label_ok ls" "dn = dotted ls" "ls \<noteq> [] \<longrightarrow> length dn \<le> 255"
      using read_name_decode [OF r(1)] by auto
    obtain nms where "rd2 = concat (map encode_name nms)" "list_all name_ok nms"
        "ns' = (if length dn = 0 then ns else ns @ [butlast dn]) @ map domain_name (filter (\<lambda>ls. ls \<noteq> []) nms)"
      using less.hyps [OF read_name_rest [OF r(1)] r(2)] by blast
    then show ?thesis using ls by (intro exI [of _ "ls # nms"]) (cases ls, auto simp: name_ok_def domain_name_def)
  qed
qed

lemma read_names_encode:
  "list_all name_ok nms \<Longrightarrow>
    read_names (concat (map encode_name nms)) ns = (ns @ map domain_name (filter (\<lambda>ls. ls \<noteq> []) nms), None)"
proof (induction nms arbitrary: ns)
  case (Cons ls nms)
  have "read_name (encode_name ls @ concat (map encode_name nms)) [] = Inr (concat (map encode_name nms), dotted ls)"
    using read_name_encode [of ls "[]"] Cons.prems by (simp add: name_ok_def)
  moreover have "encode_name ls \<noteq> []" by (simp add: encode_name_def)
  ultimately show ?case using Cons by (subst read_names.simps) (simp add: domain_name_def)
qed (simp add: read_names.simps)

text \<open>
  C15. The DNS search list parser is exact, on every option body. It never panics; it accepts a body of at least the minimum
  length exactly when the bytes behind the lifetime are the encodings of well-formed names (labels of 1 to 63 letters,
  digits and hyphens that start with a letter and do not end in a hyphen, at most 255 bytes for a name) one after the other, and it returns these
  names in lower case, with periods, without the empty names that pad the option.
\<close>

theorem DomainNames_exact:
  "NDPDNSSearchList_DomainNames v \<noteq> None \<and>
   (NDPDNSSearchList_DomainNames v = Some (ns, None) \<longleftrightarrow>
     14 \<le> length v \<and> (\<exists>nms. drop 6 v = concat (map encode_name nms) \<and> list_all name_ok nms \<and>
       ns = map domain_name (filter (\<lambda>ls. ls \<noteq> []) nms)))"
proof -
  have "read_names (drop 6 v) [] = (ns, None) \<longleftrightarrow> (\<exists>nms. drop 6 v = concat (map encode_name nms) \<and> list_all name_ok nms \<and>
       ns = map domain_name (filter (\<lambda>ls. ls \<noteq> []) nms))"
    using read_names_decode [of "drop 6 v" "[]" ns] read_names_encode [of _ "[]"] by fastforce
  moreover have "\<not> length v < 14 \<Longrightarrow> slice_from v 6 = Some (drop 6 v)" by (simp add: go_simps)
  ultimately show ?thesis
    unfolding NDPDNSSearchList_DomainNames_def NDPDNSSearchList_iterDomainNames_def by (cases "length v < 14") simp_all
qed

end
