(* ===== verification/NDP_Options.thy ===== *)
theory NDP_Options
  imports NDP_Names
begin

text \<open>
  The options of neighbor discovery as a whole: reading any bytes, and reading back what was serialized.
\<close>

section \<open>Reading\<close>

lemma AddrFrom16Slice_in [go_simps]: "length s = 16 \<Longrightarrow> AddrFrom16Slice s = Some (AddrFrom16 s)"
  by (simp add: AddrFrom16Slice_def AddrFrom16_def)

lemma unicast_total: "length s = 16 \<Longrightarrow> IsV6UnicastAddress (AddrFrom16 s) \<noteq> None"
  by (auto simp: IsV6UnicastAddress_def As16_def AddrFrom16_def Address_Len_def byte_at_def go_copy_def go_simps)

text \<open>The addresses of a list of bytes, sixteen at a time.\<close>

lemma iter_addresses_total:
  "length v mod 16 = 0 \<Longrightarrow> list_all (\<lambda>a. IsV6UnicastAddress a = Some True) acc \<Longrightarrow>
    returns (iter_addresses v acc) (\<lambda>(as, err). list_all (\<lambda>a. IsV6UnicastAddress a = Some True) as \<and>
      (err = None \<longrightarrow> length as = length acc + length v div 16))"
proof (induction "length v" arbitrary: v acc rule: less_induct)
  case less
  show ?case
  proof (cases "v = []")
    case False
    then have l: "16 \<le> length v" using less.prems(1) by (metis dvd_imp_le length_greater_0_conv mod_0_imp_dvd)
    obtain u where u: "IsV6UnicastAddress (AddrFrom16 (take 16 v)) = Some u" using unicast_total [of "take 16 v"] l by auto
    have len: "length v div 16 = Suc (length (drop 16 v) div 16)" "length (drop 16 v) mod 16 = 0"
      using l less.prems(1) by (simp_all add: le_mod_geq le_div_geq)
    show ?thesis
    proof (cases u)
      case True
      have "returns (iter_addresses (drop 16 v) (acc @ [AddrFrom16 (take 16 v)])) (\<lambda>(as, err).
          list_all (\<lambda>a. IsV6UnicastAddress a = Some True) as \<and>
          (err = None \<longrightarrow> length as = length (acc @ [AddrFrom16 (take 16 v)]) + length (drop 16 v) div 16))"
        by (rule less.hyps) (use l less.prems len u True in auto)
      then show ?thesis using l u True len False
        by (subst iter_addresses.simps) (simp add: go_simps)
    qed (use l u False less.prems in \<open>subst iter_addresses.simps, simp add: go_simps\<close>)
  qed (use less.prems in \<open>simp add: iter_addresses.simps\<close>)
qed

text \<open>An option whose accessors all return, without an error.\<close>

primrec readable :: "NDPOption \<Rightarrow> bool" where
  "readable (NDPNonceOption v) = True"
| "readable (NDPSourceLinkLayerAddressOption v) = True"
| "readable (NDPTargetLinkLayerAddressOption v) = True"
| "readable (NDPPrefixInformation v) \<longleftrightarrow> NDPPrefixInformation_PrefixLength v \<noteq> None \<and>
     NDPPrefixInformation_OnLinkFlag v \<noteq> None \<and> NDPPrefixInformation_AutonomousAddressConfigurationFlag v \<noteq> None \<and>
     NDPPrefixInformation_ValidLifetime v \<noteq> None \<and> NDPPrefixInformation_PreferredLifetime v \<noteq> None \<and>
     NDPPrefixInformation_Prefix v \<noteq> None \<and> NDPPrefixInformation_Subnet v \<noteq> None"
| "readable (NDPRecursiveDNSServer v) \<longleftrightarrow> NDPRecursiveDNSServer_Lifetime v \<noteq> None \<and>
     (\<exists>as. NDPRecursiveDNSServer_Addresses v = Some (as, None) \<and> as \<noteq> [] \<and>
        list_all (\<lambda>a. IsV6UnicastAddress a = Some True) as)"
| "readable (NDPDNSSearchList v) \<longleftrightarrow> NDPDNSSearchList_Lifetime v \<noteq> None \<and>
     (\<exists>ns. NDPDNSSearchList_DomainNames v = Some (ns, None))"
| "readable (NDPRouteInformation v) \<longleftrightarrow> NDPRouteInformation_PrefixLength v \<noteq> None \<and>
     NDPRouteInformation_RoutePreference v \<noteq> None \<and> NDPRouteInformation_RouteLifetime v \<noteq> None \<and>
     (\<exists>s. NDPRouteInformation_Prefix v = Some (Inr s))"

lemma Addresses_total:
  "returns (NDPRecursiveDNSServer_iterAddresses v) (\<lambda>(as, err). err = None \<longrightarrow>
     22 \<le> length v \<and> as \<noteq> [] \<and> list_all (\<lambda>a. IsV6UnicastAddress a = Some True) as)"
proof (cases "length v < 22 \<or> (length v - 6) mod 16 \<noteq> 0")
  case False
  then have "returns (iter_addresses (drop 6 v) []) (\<lambda>(as, err). list_all (\<lambda>a. IsV6UnicastAddress a = Some True) as \<and>
      (err = None \<longrightarrow> length as = length (drop 6 v) div 16))"
    using iter_addresses_total [of "drop 6 v" "[]"] by simp
  moreover have "0 < length (drop 6 v) div 16" using False unfolding div_greater_zero_iff by auto
  ultimately show ?thesis using False
    by (auto simp: NDPRecursiveDNSServer_iterAddresses_def go_simps elim!: returns_mono)
qed (auto simp: NDPRecursiveDNSServer_iterAddresses_def go_simps)

lemma Subnet_total: "wf_Address a \<Longrightarrow> \<exists>s. AddressWithPrefix_Subnet \<lparr>p_Address = a, p_PrefixLen = n\<rparr> = Some s"
  by (erule Subnet_parts [of a n]) blast

lemma Prefix_readable: "length v = 30 \<Longrightarrow> readable (NDPPrefixInformation v)"
  using Subnet_total [of "AddrFrom16 (take 16 (drop 14 v))" "uint (v ! 0)"] AddrFrom16_wf [of "take 16 (drop 14 v)"]
  by (auto simp: NDPPrefixInformation_PrefixLength_def NDPPrefixInformation_OnLinkFlag_def
      NDPPrefixInformation_AutonomousAddressConfigurationFlag_def NDPPrefixInformation_ValidLifetime_def
      NDPPrefixInformation_PreferredLifetime_def NDPPrefixInformation_Prefix_def NDPPrefixInformation_Subnet_def go_simps
      BE_Uint32_def)

lemma hasError_iff:
  "NDPRouteInformation_hasError v = Some None \<longleftrightarrow> 6 \<le> length v \<and> unat (v ! 0) \<le> 128 \<and>
    (let n = (length v + 2) div 8 in if unat (v ! 0) > 64 then n = 3 else if unat (v ! 0) > 0 then n = 2 \<or> n = 3 else 0 < n \<and> n \<le> 3)"
proof (cases "length v < 6")
  case False
  then have "byte_at v 0 = Some (v ! 0)" by (simp only: go_simps)
  then show ?thesis using False
    by (auto simp: NDPRouteInformation_hasError_def NDPRouteInformation_PrefixLength_def Let_def)
qed (simp add: NDPRouteInformation_hasError_def)

lemma Route_readable:
  assumes "NDPRouteInformation_hasError v = Some None" "length v \<le> 22"
  shows "readable (NDPRouteInformation v)"
proof -
  let ?a = "AddrFrom16 (go_copy (replicate 16 0) (drop 6 v))"
  have l: "6 \<le> length v" "unat (v ! 0) \<le> 128" using assms(1) by (auto simp: hasError_iff)
  then have acc: "byte_at v 0 = Some (v ! 0)" "byte_at v (Suc 0) = Some (v ! Suc 0)" "slice_from v 6 = Some (drop 6 v)" by (simp_all only: go_simps)
  obtain s where "AddressWithPrefix_Subnet \<lparr>p_Address = ?a, p_PrefixLen = uint (v ! 0)\<rparr> = Some s"
    using Subnet_total [of ?a] AddrFrom16_wf [of "go_copy (replicate 16 0) (drop 6 v)"] by auto
  then show ?thesis using l assms(2)
    by (simp add: NDPRouteInformation_PrefixLength_def NDPRouteInformation_RoutePreference_def
        NDPRouteInformation_RouteLifetime_def NDPRouteInformation_Prefix_def acc BE_Uint32_def)
qed

lemma DomainNames_total: "NDPDNSSearchList_iterDomainNames v \<noteq> None"
  by (simp add: NDPDNSSearchList_iterDomainNames_def slice_from_def)

lemma parse_total: "returns (parse_option kind body) (\<lambda>r. \<forall>opt. r = Inr (Some opt) \<longrightarrow> readable opt)"
proof -
  consider "kind = 24" | "kind = 3" | "kind = 25" | "kind = 31" | "kind \<notin> {24, 3, 25, 31}" by blast
  then show ?thesis
  proof cases
    case 1
    have "NDPRouteInformation_hasError body \<noteq> None"
      by (auto simp: NDPRouteInformation_hasError_def NDPRouteInformation_PrefixLength_def Let_def byte_at_def)
    then show ?thesis using 1 Route_readable [of body] by (auto simp: parse_option_def split: option.splits)
  next
    case 2
    then show ?thesis using Prefix_readable [of body] by (auto simp: parse_option_def)
  next
    case 3
    obtain as err where a: "NDPRecursiveDNSServer_iterAddresses body = Some (as, err)"
        "err = None \<longrightarrow> 22 \<le> length body \<and> as \<noteq> [] \<and> list_all (\<lambda>a. IsV6UnicastAddress a = Some True) as"
      using Addresses_total [of body] by (auto simp: returns_iff)
    then show ?thesis using 3
      by (auto simp: parse_option_def NDPRecursiveDNSServer_checkAddresses_def NDPRecursiveDNSServer_Addresses_def
          NDPRecursiveDNSServer_Lifetime_def BE_Uint32_def split: option.splits)
  next
    case 4
    obtain ns err where n: "NDPDNSSearchList_iterDomainNames body = Some (ns, err)"
      using DomainNames_total [of body] by auto
    then have "err = None \<longrightarrow> 14 \<le> length body"
      by (auto simp: NDPDNSSearchList_iterDomainNames_def split: if_splits)
    then show ?thesis using 4 n
      by (auto simp: parse_option_def NDPDNSSearchList_checkDomainNames_def NDPDNSSearchList_DomainNames_def
          NDPDNSSearchList_Lifetime_def BE_Uint32_def split: option.splits)
  qed (auto simp: parse_option_def)
qed

lemma Next_total:
  "returns (NDPOptionIterator_Next b) (\<lambda>(b', r). \<forall>opt. r = NDPNext opt \<longrightarrow> readable opt)"
proof (induction b rule: NDPOptionIterator_Next.induct)
  case (3 kind len opts)
  let ?n = "unat len * 8 - 2"
  show ?case
  proof (cases "len = 0 \<or> length (take ?n opts) < ?n")
    case False
    obtain r where r: "parse_option kind (take ?n opts) = Some r" "\<forall>opt. r = Inr (Some opt) \<longrightarrow> readable opt"
      using parse_total [of kind "take ?n opts"] unfolding returns_iff by blast
    show ?thesis
    proof (cases "r = Inr None")
      case True
      then show ?thesis using 3 False r by (simp add: Let_def)
    next
      case f: False
      then show ?thesis using False r by (auto simp: Let_def split: sum.splits option.splits)
    qed
  qed (auto simp: Let_def)
qed simp_all

lemma read_ndp_options_total:
  "\<exists>opts err. read_ndp_options b = Some (opts, err) \<and> list_all readable opts \<and> check_options b = Some err"
proof (induction "length b" arbitrary: b rule: less_induct)
  case less
  obtain b' r where n: "NDPOptionIterator_Next b = Some (b', r)" "\<forall>opt. r = NDPNext opt \<longrightarrow> readable opt"
    using Next_total [of b] by (auto simp: returns_iff)
  show ?case
  proof (cases r)
    case (NDPNext opt)
    then obtain opts err where "read_ndp_options b' = Some (opts, err)" "list_all readable opts" "check_options b' = Some err"
      using less [of b'] Next_rest n by blast
    then show ?thesis using n NDPNext by (subst read_ndp_options.simps, subst check_options.simps) simp
  qed (use n in \<open>subst read_ndp_options.simps, subst check_options.simps, simp\<close>)+
qed

text \<open>
  C14. Neighbor discovery options can be read safely, whatever the bytes are. Reading them to the end never panics; every option that comes out
  has accessors that return without a panic and without an error, the DNS servers being at least one and all unicast
  addresses; and \<^verbatim>\<open>Iter(true)\<close> reports an error exactly when a reader of the options meets it, the same one.
\<close>

theorem options_safe:
  "\<exists>opts err. read_ndp_options b = Some (opts, err) \<and> list_all readable opts \<and> NDPOptions_Iter b True = Some (b, err)"
  using read_ndp_options_total [of b] by (auto simp: NDPOptions_Iter_def)

section \<open>Serialization\<close>

text \<open>The body as it is written: the reserved bits are cleared, and zeros fill the last unit of eight bytes.\<close>

primrec cleared :: "NDPOption \<Rightarrow> bytes" where
  "cleared (NDPNonceOption v) = v"
| "cleared (NDPSourceLinkLayerAddressOption v) = v"
| "cleared (NDPTargetLinkLayerAddressOption v) = v"
| "cleared (NDPPrefixInformation v) = take 1 v @ [v ! 1 AND NOT 63] @ take 8 (drop 2 v) @ replicate 4 0 @ drop 14 v"
| "cleared (NDPRecursiveDNSServer v) = replicate 2 0 @ drop 2 v"
| "cleared (NDPDNSSearchList v) = replicate 2 0 @ drop 2 v"
| "cleared (NDPRouteInformation v) = v"

definition padded :: "NDPOption \<Rightarrow> bytes" where
  "padded opt = cleared opt @ replicate (paddedLength opt - 2 - NDPOption_length opt) 0"

primrec with_body :: "NDPOption \<Rightarrow> bytes \<Rightarrow> NDPOption" where
  "with_body (NDPNonceOption v) w = NDPNonceOption w"
| "with_body (NDPSourceLinkLayerAddressOption v) w = NDPSourceLinkLayerAddressOption w"
| "with_body (NDPTargetLinkLayerAddressOption v) w = NDPTargetLinkLayerAddressOption w"
| "with_body (NDPPrefixInformation v) w = NDPPrefixInformation w"
| "with_body (NDPRecursiveDNSServer v) w = NDPRecursiveDNSServer w"
| "with_body (NDPDNSSearchList v) w = NDPDNSSearchList w"
| "with_body (NDPRouteInformation v) w = NDPRouteInformation w"

text \<open>Options that a caller may serialize, and what is kept of them.\<close>

primrec ndp_valid :: "NDPOption \<Rightarrow> bool" where
  "ndp_valid (NDPNonceOption v) = True"
| "ndp_valid (NDPSourceLinkLayerAddressOption v) = (6 \<le> length v)"
| "ndp_valid (NDPTargetLinkLayerAddressOption v) = (6 \<le> length v)"
| "ndp_valid (NDPPrefixInformation v) = (length v = 30)"
| "ndp_valid (NDPRecursiveDNSServer v) = (NDPRecursiveDNSServer_checkAddresses v = Some None)"
| "ndp_valid (NDPDNSSearchList v) = (NDPDNSSearchList_checkDomainNames v = Some None)"
| "ndp_valid (NDPRouteInformation v) = (NDPRouteInformation_hasError v = Some None \<and> length v \<le> 22)"

primrec same_values :: "NDPOption \<Rightarrow> NDPOption \<Rightarrow> bool" where
  "same_values (NDPNonceOption v) r = (\<exists>n. r = NDPNonceOption (NDPNonceOption_Nonce v @ replicate n 0) \<and> n < 8)"
| "same_values (NDPSourceLinkLayerAddressOption v) r = (\<exists>w. r = NDPSourceLinkLayerAddressOption w \<and>
     NDPSourceLinkLayerAddressOption_EthernetAddress w = NDPSourceLinkLayerAddressOption_EthernetAddress v)"
| "same_values (NDPTargetLinkLayerAddressOption v) r = (\<exists>w. r = NDPTargetLinkLayerAddressOption w \<and>
     NDPTargetLinkLayerAddressOption_EthernetAddress w = NDPTargetLinkLayerAddressOption_EthernetAddress v)"
| "same_values (NDPPrefixInformation v) r = (\<exists>w. r = NDPPrefixInformation w \<and>
     NDPPrefixInformation_PrefixLength w = NDPPrefixInformation_PrefixLength v \<and>
     NDPPrefixInformation_OnLinkFlag w = NDPPrefixInformation_OnLinkFlag v \<and>
     NDPPrefixInformation_AutonomousAddressConfigurationFlag w = NDPPrefixInformation_AutonomousAddressConfigurationFlag v \<and>
     NDPPrefixInformation_ValidLifetime w = NDPPrefixInformation_ValidLifetime v \<and>
     NDPPrefixInformation_PreferredLifetime w = NDPPrefixInformation_PreferredLifetime v \<and>
     NDPPrefixInformation_Prefix w = NDPPrefixInformation_Prefix v)"
| "same_values (NDPRecursiveDNSServer v) r = (\<exists>w. r = NDPRecursiveDNSServer w \<and>
     NDPRecursiveDNSServer_Lifetime w = NDPRecursiveDNSServer_Lifetime v \<and>
     NDPRecursiveDNSServer_Addresses w = NDPRecursiveDNSServer_Addresses v)"
| "same_values (NDPDNSSearchList v) r = (\<exists>w. r = NDPDNSSearchList w \<and>
     NDPDNSSearchList_Lifetime w = NDPDNSSearchList_Lifetime v \<and>
     NDPDNSSearchList_DomainNames w = NDPDNSSearchList_DomainNames v)"
| "same_values (NDPRouteInformation v) r = (\<exists>w. r = NDPRouteInformation w \<and>
     NDPRouteInformation_PrefixLength w = NDPRouteInformation_PrefixLength v \<and>
     NDPRouteInformation_RoutePreference w = NDPRouteInformation_RoutePreference v \<and>
     NDPRouteInformation_RouteLifetime w = NDPRouteInformation_RouteLifetime v \<and>
     NDPRouteInformation_Prefix w = NDPRouteInformation_Prefix v)"

subsection \<open>Writing one option\<close>

lemma paddedLength_pos:
  assumes "paddedLength opt \<noteq> 0"
  shows "NDPOption_length opt + 2 \<le> paddedLength opt" "paddedLength opt < NDPOption_length opt + 10"
    "paddedLength opt div 8 < 256" "paddedLength opt div 8 * 8 = paddedLength opt" "0 < NDPOption_length opt"
proof -
  let ?l = "9 + NDPOption_length opt"
  have p: "paddedLength opt = ?l - ?l mod 8" "paddedLength opt div 8 \<le> 255" "NDPOption_length opt \<noteq> 0"
    using assms by (auto simp: paddedLength_def Let_def split: if_splits)
  have "?l mod 8 < 8" by simp
  then show "NDPOption_length opt + 2 \<le> paddedLength opt" "paddedLength opt < NDPOption_length opt + 10"
    using p(1) by arith+
  show "paddedLength opt div 8 < 256" "paddedLength opt div 8 * 8 = paddedLength opt" "0 < NDPOption_length opt"
    using p by (simp_all add: minus_mod_eq_mult_div)
qed

lemma Addresses_length: "NDPRecursiveDNSServer_checkAddresses v = Some None \<Longrightarrow> 22 \<le> length v \<and> (length v - 6) mod 16 = 0"
  using Addresses_total [of v]
  by (auto simp: NDPRecursiveDNSServer_checkAddresses_def NDPRecursiveDNSServer_iterAddresses_def go_simps split: if_splits)

lemma DomainNames_length: "NDPDNSSearchList_checkDomainNames v = Some None \<Longrightarrow> 14 \<le> length v"
  by (auto simp: NDPDNSSearchList_checkDomainNames_def NDPDNSSearchList_iterDomainNames_def split: if_splits)

lemma cleared_length: "ndp_valid opt \<Longrightarrow> length (cleared opt) = NDPOption_length opt"
  by (cases opt) (auto dest!: Addresses_length DomainNames_length)

lemma serializeInto_body:
  assumes clear: "\<forall>s. ClearArray s = replicate (length s) (0 :: u8)"
    and "ndp_valid opt" "NDPOption_length opt \<le> length t"
  shows "NDPOption_serializeInto ClearArray opt t =
    Some (NDPOption_length opt, cleared opt @ drop (NDPOption_length opt) t)"
proof (cases opt)
  case (NDPPrefixInformation v)
  then have l: "length v = 30" "30 \<le> length t" using assms by auto
  obtain x y r where v: "v = x # y # r" "length r = 28" using l(1) by (cases v; cases "tl v") auto
  show ?thesis using l clear unfolding NDPPrefixInformation v(1)
    by (simp add: NDPOption_serializeInto_def NDPPrefixInformation_serializeInto_def go_copy_def byte_at_def set_byte_def
        on_slice_in nth_append v Let_def)
next
  case (NDPRecursiveDNSServer v)
  then have "22 \<le> length v" using assms Addresses_length by auto
  then show ?thesis using assms NDPRecursiveDNSServer
    by (simp add: NDPOption_serializeInto_def NDPRecursiveDNSServer_serializeInto_def go_copy_def on_slice_in)
next
  case (NDPDNSSearchList v)
  then have "14 \<le> length v" using assms DomainNames_length by auto
  then show ?thesis using assms NDPDNSSearchList
    by (simp add: NDPOption_serializeInto_def NDPDNSSearchList_serializeInto_def go_copy_def on_slice_in)
qed (use assms in \<open>simp_all add: NDPOption_serializeInto_def go_copy_def\<close>)

text \<open>The bytes of an option on the wire; one that is empty or too long is left out.\<close>

definition wire :: "NDPOption \<Rightarrow> bytes" where
  "wire opt = (if paddedLength opt = 0 then [] else NDPOption_kind opt # word_of_nat (paddedLength opt div 8) # padded opt)"

lemma padded_length: "ndp_valid opt \<Longrightarrow> paddedLength opt \<noteq> 0 \<Longrightarrow> length (padded opt) = paddedLength opt - 2"
  using paddedLength_pos [of opt] by (simp add: padded_def cleared_length)

lemma wire_length: "ndp_valid opt \<Longrightarrow> length (wire opt) = paddedLength opt"
  using paddedLength_pos(1) [of opt] padded_length [of opt] by (auto simp: wire_def)

lemma on_slice_behind:
  "length a \<le> n \<Longrightarrow> n \<le> length a + length c \<Longrightarrow>
    on_slice (length a) n f (a @ c) = f (take (n - length a) c) \<bind> (\<lambda>s. Some (a @ s @ drop (n - length a) c))"
  by (simp add: on_slice_in)

lemma Serialize_one:
  assumes clear: "\<forall>s. ClearArray s = replicate (length s) (0 :: u8)"
    and v: "ndp_valid opt" and p: "paddedLength opt \<noteq> 0" and l: "paddedLength opt \<le> length b"
  shows "NDPOptions_Serialize ClearArray (opt # s) b = do {
    (done, rest) \<leftarrow> NDPOptions_Serialize ClearArray s (drop (paddedLength opt) b);
    Some (paddedLength opt + done, wire opt @ rest) }"
proof -
  let ?k = "NDPOption_kind opt" and ?n = "paddedLength opt" and ?u = "NDPOption_length opt"
  let ?w = "word_of_nat (?n div 8) :: u8"
  note pp = paddedLength_pos [OF p]
  have b: "b[0 := ?k, 1 := ?w] = ?k # ?w # drop 2 b" using pp l by (cases b; cases "tl b") auto
  have body: "NDPOption_serializeInto ClearArray opt (drop 2 b) = Some (?u, cleared opt @ drop (2 + ?u) b)"
    using serializeInto_body [OF clear v, of "drop 2 b"] pp l by (simp add: add.commute)
  let ?c = "?k # ?w # cleared opt @ drop (2 + ?u) b"
  have lc: "length (?k # ?w # cleared opt) = ?u + 2" by (simp add: cleared_length [OF v])
  have pad: "(if ?u + 2 < ?n then on_slice (?u + 2) ?n (\<lambda>s. Some (ClearArray s)) ?c else Some ?c) = Some (wire opt @ drop ?n b)"
  proof (cases "?u + 2 < ?n")
    case True
    have "Suc (Suc (?n - 2)) = ?n" "?n \<le> Suc (Suc (length b - 2))" using True l by arith+
    then have "on_slice (?u + 2) ?n (\<lambda>s. Some (ClearArray s)) ((?k # ?w # cleared opt) @ drop (2 + ?u) b)
      = Some ((?k # ?w # cleared opt) @ replicate (?n - (?u + 2)) 0 @ drop ?n b)"
      using on_slice_behind [of "?k # ?w # cleared opt" ?n "drop (2 + ?u) b"] lc l pp clear True by simp
    then show ?thesis using True p by (simp add: wire_def padded_def)
  next
    case False
    then have "?n = ?u + 2" using pp by simp
    then show ?thesis by (simp add: wire_def padded_def)
  qed
  have lw: "length (wire opt) = ?n" by (rule wire_length [OF v])
  have "0 < length b" "1 < length (b[0 := ?k])" using pp l by auto
  then have s: "set_byte b 0 ?k = Some (b[0 := ?k])" "set_byte (b[0 := ?k]) 1 ?w = Some (?k # ?w # drop 2 b)"
    unfolding b [symmetric] by (simp_all only: go_simps)
  have t: "slice_from (?k # ?w # drop 2 b) 2 = Some (drop 2 b)" "slice_from (wire opt @ drop ?n b) ?n = Some (drop ?n b)"
    using lw l by (simp_all add: slice_from_def)
  show ?thesis using p body pad lw t(2) by (cases "?u + 2 < ?n") (simp_all add: Let_def s t(1) del: One_nat_def)
qed

lemma Serialize_wire:
  assumes clear: "\<forall>s. ClearArray s = replicate (length s) (0 :: u8)"
  shows "list_all ndp_valid opts \<Longrightarrow> length (concat (map wire opts)) \<le> length b \<Longrightarrow>
    NDPOptions_Serialize ClearArray opts b =
      Some (length (concat (map wire opts)), concat (map wire opts) @ drop (length (concat (map wire opts))) b)"
proof (induction opts arbitrary: b)
  case (Cons opt opts)
  have v: "ndp_valid opt" "list_all ndp_valid opts" using Cons.prems by auto
  show ?case
  proof (cases "paddedLength opt = 0")
    case True
    then show ?thesis using Cons v by (simp add: wire_def)
  next
    case False
    have "length (concat (map wire opts)) \<le> length (drop (paddedLength opt) b)" "paddedLength opt \<le> length b"
      using Cons.prems(2) wire_length [OF v(1)] by auto
    then show ?thesis using Serialize_one [OF clear v(1) False] Cons.IH [OF v(2)] wire_length [OF v(1)]
      by (simp add: add.commute)
  qed
qed simp

lemma fold_sum: "fold (\<lambda>x l. l + f x) xs n = n + sum_list (map f xs)" for f :: "'a \<Rightarrow> nat"
  by (induction xs arbitrary: n) auto

lemma Length_wire: "list_all ndp_valid opts \<Longrightarrow> NDPOptionsSerializer_Length opts = length (concat (map wire opts))"
  unfolding NDPOptionsSerializer_Length_def fold_sum by (induction opts) (auto simp: wire_length)

subsection \<open>Reading it back\<close>

lemma Prefix_back:
  assumes "length v = 30"
  shows "same_values (NDPPrefixInformation v) (NDPPrefixInformation (cleared (NDPPrefixInformation v)))"
proof -
  obtain x y r where v: "v = x # y # r" "length r = 28" using assms by (cases v; cases "tl v") auto
  have bits: "(y AND - 64) AND 128 = y AND 128" "(y AND - 64) AND 64 = y AND 64"
    by (simp_all add: and.assoc)
  show ?thesis unfolding v(1)
    by (simp add: NDPPrefixInformation_PrefixLength_def NDPPrefixInformation_OnLinkFlag_def
        NDPPrefixInformation_AutonomousAddressConfigurationFlag_def NDPPrefixInformation_ValidLifetime_def
        NDPPrefixInformation_PreferredLifetime_def NDPPrefixInformation_Prefix_def byte_at_def BE_Uint32_def slice_def v(2)
        bits drop_take)
qed

lemma DNS_back:
  assumes "NDPRecursiveDNSServer_checkAddresses v = Some None" "paddedLength (NDPRecursiveDNSServer v) \<noteq> 0"
  shows "padded (NDPRecursiveDNSServer v) = replicate 2 0 @ drop 2 v"
    "NDPRecursiveDNSServer_iterAddresses (replicate 2 0 @ drop 2 v) = NDPRecursiveDNSServer_iterAddresses v"
    "BE_Uint32 (replicate 2 0 @ drop 2 v) 2 = BE_Uint32 v 2"
proof -
  have l: "22 \<le> length v" "(length v - 6) mod 16 = 0" using Addresses_length [OF assms(1)] by auto
  then have "(9 + length v) mod 8 = 7" by presburger
  then show "padded (NDPRecursiveDNSServer v) = replicate 2 0 @ drop 2 v"
    using assms(2) by (simp add: padded_def paddedLength_def Let_def split: if_splits)
  show "NDPRecursiveDNSServer_iterAddresses (replicate 2 0 @ drop 2 v) = NDPRecursiveDNSServer_iterAddresses v"
      "BE_Uint32 (replicate 2 0 @ drop 2 v) 2 = BE_Uint32 v 2"
    using l by (auto simp: NDPRecursiveDNSServer_iterAddresses_def slice_from_def BE_Uint32_def)
qed

lemma read_names_zeros:
  assumes "read_names rd [] = (ns, None)"
  shows "read_names (rd @ replicate n 0) [] = (ns, None)"
proof -
  obtain nms where n: "rd = concat (map encode_name nms)" "list_all name_ok nms"
      "ns = [] @ map domain_name (filter (\<lambda>ls. ls \<noteq> []) nms)"
    using read_names_decode [OF assms] by blast
  have "concat (map encode_name (nms @ replicate n [])) = rd @ replicate n 0"
    unfolding n(1) by (induction n) (auto simp: replicate_append_same)
  moreover have "list_all name_ok (nms @ replicate n [])" using n(2) by (auto simp: list_all_iff name_ok_def)
  ultimately show ?thesis using read_names_encode [of "nms @ replicate n []" "[]"] n(3) by simp
qed

lemma Names_back:
  assumes "NDPDNSSearchList_checkDomainNames v = Some None"
  shows "NDPDNSSearchList_iterDomainNames ((replicate 2 0 @ drop 2 v) @ replicate n 0) = NDPDNSSearchList_iterDomainNames v"
    "BE_Uint32 ((replicate 2 0 @ drop 2 v) @ replicate n 0) 2 = BE_Uint32 v 2"
proof -
  have l: "14 \<le> length v" by (rule DomainNames_length [OF assms])
  then obtain ns where ns: "read_names (drop 6 v) [] = (ns, None)" using assms
    by (cases "read_names (drop 6 v) []")
      (simp add: NDPDNSSearchList_checkDomainNames_def NDPDNSSearchList_iterDomainNames_def slice_from_def)
  show "NDPDNSSearchList_iterDomainNames ((replicate 2 0 @ drop 2 v) @ replicate n 0) = NDPDNSSearchList_iterDomainNames v"
      "BE_Uint32 ((replicate 2 0 @ drop 2 v) @ replicate n 0) 2 = BE_Uint32 v 2"
    using l ns read_names_zeros [OF ns, of n]
    by (auto simp: NDPDNSSearchList_iterDomainNames_def slice_from_def BE_Uint32_def)
qed

lemma Route_back:
  assumes "NDPRouteInformation_hasError v = Some None" "length v + n \<le> 22" "n < 8"
  shows "NDPRouteInformation_hasError (v @ replicate n 0) = Some None"
    "same_values (NDPRouteInformation v) (NDPRouteInformation (v @ replicate n 0))"
proof -
  have l: "6 \<le> length v" "(v @ replicate n 0) ! 0 = v ! 0" using assms(1) by (auto simp: hasError_iff nth_append)
  have "(length v + 2) div 8 \<le> (length (v @ replicate n (0 :: u8)) + 2) div 8" "(length (v @ replicate n (0 :: u8)) + 2) div 8 \<le> 3"
    using assms(2) by (simp_all add: div_le_mono)
  then show "NDPRouteInformation_hasError (v @ replicate n 0) = Some None"
    using assms(1) l unfolding hasError_iff Let_def by (auto split: if_splits)
  have "go_copy (replicate 16 0) (drop 6 v @ replicate n 0) = go_copy (replicate 16 0) (drop 6 v)"
    using assms(2) l by (simp add: go_copy_def flip: replicate_add)
  moreover have "byte_at v 0 = Some (v ! 0)" "byte_at (v @ replicate n 0) 0 = Some (v ! 0)"
      "byte_at v 1 = Some (v ! 1)" "byte_at (v @ replicate n 0) 1 = Some (v ! 1)"
    using l(1) by (auto simp: byte_at_def nth_append)
  ultimately show "same_values (NDPRouteInformation v) (NDPRouteInformation (v @ replicate n 0))"
    using assms(2) l by (simp add: NDPRouteInformation_PrefixLength_def NDPRouteInformation_RoutePreference_def
        NDPRouteInformation_RouteLifetime_def NDPRouteInformation_Prefix_def slice_from_def BE_Uint32_def del: One_nat_def)
qed

lemma parse_padded:
  assumes v: "ndp_valid opt" and p: "paddedLength opt \<noteq> 0"
  shows "parse_option (NDPOption_kind opt) (padded opt) = Some (Inr (Some (with_body opt (padded opt)))) \<and>
    same_values opt (with_body opt (padded opt))"
proof (cases opt)
  case (NDPPrefixInformation v)
  then have "padded opt = cleared opt" by (simp add: padded_def paddedLength_def)
  moreover have "length (cleared opt) = 30" using assms cleared_length [OF v] NDPPrefixInformation by simp
  ultimately show ?thesis using assms Prefix_back NDPPrefixInformation by (simp add: parse_option_def)
next
  case (NDPRecursiveDNSServer v)
  then show ?thesis using assms DNS_back [of v]
    by (auto simp: parse_option_def NDPRecursiveDNSServer_checkAddresses_def NDPRecursiveDNSServer_Lifetime_def
        NDPRecursiveDNSServer_Addresses_def)
next
  case (NDPDNSSearchList v)
  then show ?thesis using assms Names_back [of v]
    by (auto simp: padded_def parse_option_def NDPDNSSearchList_checkDomainNames_def NDPDNSSearchList_Lifetime_def
        NDPDNSSearchList_DomainNames_def)
next
  case (NDPRouteInformation v)
  let ?n = "paddedLength opt - 2 - length v"
  have "length v \<le> 22" "paddedLength opt < 32" using v paddedLength_pos [OF p] NDPRouteInformation by auto
  moreover from this have "paddedLength opt \<le> 24" using paddedLength_pos(4) [OF p] by presburger
  ultimately have "length v + ?n \<le> 22" "?n < 8" using paddedLength_pos [OF p] NDPRouteInformation by auto
  then show ?thesis using assms Route_back [of v ?n] NDPRouteInformation by (simp add: padded_def parse_option_def)
qed (use assms paddedLength_pos [OF p] in \<open>auto simp: padded_def parse_option_def NDPNonceOption_Nonce_def
    NDPSourceLinkLayerAddressOption_EthernetAddress_def NDPTargetLinkLayerAddressOption_EthernetAddress_def\<close>)

lemma Next_wire:
  assumes v: "ndp_valid opt" and p: "paddedLength opt \<noteq> 0"
  shows "NDPOptionIterator_Next (wire opt @ rest) = Some (rest, NDPNext (with_body opt (padded opt)))"
proof -
  have n: "unat (word_of_nat (paddedLength opt div 8) :: u8) * 8 - 2 = length (padded opt)"
    "(word_of_nat (paddedLength opt div 8) :: u8) \<noteq> 0"
    using paddedLength_pos [OF p] p padded_length [OF v p] unat_of_nat_u8 [of "paddedLength opt div 8"] by auto
  then show ?thesis using p parse_padded [OF v p] by (simp add: wire_def Let_def)
qed

lemma read_wire:
  "list_all ndp_valid opts \<Longrightarrow> \<exists>opts'. read_ndp_options (concat (map wire opts)) = Some (opts', None) \<and>
    list_all2 same_values (filter (\<lambda>opt. paddedLength opt \<noteq> 0) opts) opts'"
proof (induction opts)
  case (Cons opt opts)
  then obtain opts' where o: "read_ndp_options (concat (map wire opts)) = Some (opts', None)"
      "list_all2 same_values (filter (\<lambda>opt. paddedLength opt \<noteq> 0) opts) opts'" by auto
  show ?case
  proof (cases "paddedLength opt = 0")
    case False
    have "read_ndp_options (concat (map wire (opt # opts))) = Some (with_body opt (padded opt) # opts', None)"
      using Next_wire [of opt] Cons.prems False o(1) by (subst read_ndp_options.simps) simp
    then show ?thesis using parse_padded [of opt] Cons.prems False o(2) by (intro exI [of _ "with_body opt (padded opt) # opts'"]) simp
  qed (use o in \<open>simp add: wire_def [of opt]\<close>)
qed (subst read_ndp_options.simps, simp)

text \<open>
  C13. Neighbor discovery options round-trip. Into a buffer with room for \<^verbatim>\<open>Length\<close> bytes, \<^verbatim>\<open>Serialize\<close> writes
  exactly these bytes, whatever the buffer held before, and leaves the rest alone; reading them back gives the options in their order (without those that are
  empty or too long for the length field) and no error, with the same values: nonces up to the padding, link-layer addresses,
  prefixes with flags and lifetimes, DNS servers, domain names and routes. \<open>ClearArray\<close> of the library sing is assumed to zero its argument.
\<close>

theorem options_roundtrip:
  assumes "\<forall>s. ClearArray s = replicate (length s) 0"
    and "list_all ndp_valid opts" and "NDPOptionsSerializer_Length opts \<le> length b"
  shows "\<exists>b' opts'. NDPOptions_Serialize ClearArray opts b = Some (NDPOptionsSerializer_Length opts, b') \<and>
    length b' = length b \<and> drop (NDPOptionsSerializer_Length opts) b' = drop (NDPOptionsSerializer_Length opts) b \<and>
    read_ndp_options (take (NDPOptionsSerializer_Length opts) b') = Some (opts', None) \<and>
    list_all2 same_values (filter (\<lambda>opt. paddedLength opt \<noteq> 0) opts) opts'"
proof -
  let ?w = "concat (map wire opts)"
  note l = Length_wire [OF assms(2)]
  obtain opts' where o: "read_ndp_options ?w = Some (opts', None)"
      "list_all2 same_values (filter (\<lambda>opt. paddedLength opt \<noteq> 0) opts) opts'"
    using read_wire [OF assms(2)] by blast
  have w: "NDPOptions_Serialize ClearArray opts b = Some (length ?w, ?w @ drop (length ?w) b)"
    by (rule Serialize_wire [OF assms(1,2)]) (use assms(3) l in simp)
  have b: "length (?w @ drop (length ?w) b) = length b" "drop (length ?w) (?w @ drop (length ?w) b) = drop (length ?w) b"
      "take (length ?w) (?w @ drop (length ?w) b) = ?w"
    using assms(3) unfolding l by simp_all
  show ?thesis using w b o unfolding l by metis
qed

definition sample_options :: "NDPOption list" where
  "sample_options = [NDPSourceLinkLayerAddressOption [2, 3, 4, 5, 6, 7], NDPNonceOption [1, 2],
     NDPDNSSearchList ([0, 0, 0, 0, 0, 10] @ encode_name [[65, 98], [99]] @ [0, 0]), NDPNonceOption []]"

lemma sample_valid: "list_all ndp_valid sample_options" "NDPOptionsSerializer_Length sample_options = 32"
  by code_simp+

theorem options_roundtrip_witness:
  "\<exists>b' opts'. NDPOptions_Serialize (\<lambda>s. replicate (length s) 0) sample_options (replicate 40 255) =
      Some (NDPOptionsSerializer_Length sample_options, b') \<and>
    length b' = length (replicate 40 (255 :: u8)) \<and>
    drop (NDPOptionsSerializer_Length sample_options) b' = drop (NDPOptionsSerializer_Length sample_options) (replicate 40 255) \<and>
    read_ndp_options (take (NDPOptionsSerializer_Length sample_options) b') = Some (opts', None) \<and>
    list_all2 same_values (filter (\<lambda>opt. paddedLength opt \<noteq> 0) sample_options) opts'"
  by (rule options_roundtrip) (simp_all add: sample_valid)

end
