(* ===== verification/Header_Eth.thy ===== *)
theory Header_Eth
  imports Header_NDP
begin

text \<open>
  The four neighbor discovery messages that carry options (\<^verbatim>\<open>ndp_neighbor_advert.go\<close>,
  \<^verbatim>\<open>ndp_neighbor_solicit.go\<close>, \<^verbatim>\<open>ndp_router_advert.go\<close>, \<^verbatim>\<open>ndp_router_solicit.go\<close>) and the
  Ethernet header (\<^verbatim>\<open>eth.go\<close>) of \<^verbatim>\<open>internal/gtcpip/header\<close>: what is written into a field is read from it, the other fields
  keep their values, and the mapping of multicast addresses gives multicast Ethernet addresses.
\<close>

section \<open>Neighbor advertisements\<close>

definition flagged :: "u8 \<Rightarrow> bool \<Rightarrow> u8 \<Rightarrow> u8" where
  "flagged m f x = (if f then x OR m else x AND NOT m)"

definition set_flag :: "u8 \<Rightarrow> bytes \<Rightarrow> bool \<Rightarrow> bytes option" where
  "set_flag m b f = do { x \<leftarrow> byte_at b 0; set_byte b 0 (flagged m f x) }"

definition NDPNeighborAdvert_TargetAddress :: "bytes \<Rightarrow> Address option" where
  "NDPNeighborAdvert_TargetAddress b = do { s \<leftarrow> slice b 4 (4 + 16); AddrFrom16Slice s }"

definition NDPNeighborAdvert_SetTargetAddress :: "bytes \<Rightarrow> Address \<Rightarrow> bytes option" where
  "NDPNeighborAdvert_SetTargetAddress b addr = do { a \<leftarrow> AsSlice addr; copy_into 4 (4 + 16) a b }"

definition NDPNeighborAdvert_RouterFlag :: "bytes \<Rightarrow> bool option" where
  "NDPNeighborAdvert_RouterFlag b = do { x \<leftarrow> byte_at b 0; Some (x AND 128 \<noteq> 0) }"

definition NDPNeighborAdvert_SetRouterFlag :: "bytes \<Rightarrow> bool \<Rightarrow> bytes option" where
  "NDPNeighborAdvert_SetRouterFlag b f = set_flag 128 b f"

definition NDPNeighborAdvert_SolicitedFlag :: "bytes \<Rightarrow> bool option" where
  "NDPNeighborAdvert_SolicitedFlag b = do { x \<leftarrow> byte_at b 0; Some (x AND 64 \<noteq> 0) }"

definition NDPNeighborAdvert_SetSolicitedFlag :: "bytes \<Rightarrow> bool \<Rightarrow> bytes option" where
  "NDPNeighborAdvert_SetSolicitedFlag b f = set_flag 64 b f"

definition NDPNeighborAdvert_OverrideFlag :: "bytes \<Rightarrow> bool option" where
  "NDPNeighborAdvert_OverrideFlag b = do { x \<leftarrow> byte_at b 0; Some (x AND 32 \<noteq> 0) }"

definition NDPNeighborAdvert_SetOverrideFlag :: "bytes \<Rightarrow> bool \<Rightarrow> bytes option" where
  "NDPNeighborAdvert_SetOverrideFlag b f = set_flag 32 b f"

definition NDPNeighborAdvert_Options :: "bytes \<Rightarrow> bytes option" where
  "NDPNeighborAdvert_Options b = slice_from b 20"

section \<open>Neighbor solicitations\<close>

definition NDPNeighborSolicit_TargetAddress :: "bytes \<Rightarrow> Address option" where
  "NDPNeighborSolicit_TargetAddress b = do { s \<leftarrow> slice b 4 (4 + 16); AddrFrom16Slice s }"

definition NDPNeighborSolicit_SetTargetAddress :: "bytes \<Rightarrow> Address \<Rightarrow> bytes option" where
  "NDPNeighborSolicit_SetTargetAddress b addr = do { a \<leftarrow> AsSlice addr; copy_into 4 (4 + 16) a b }"

definition NDPNeighborSolicit_Options :: "bytes \<Rightarrow> bytes option" where
  "NDPNeighborSolicit_Options b = slice_from b 20"

section \<open>Router messages\<close>

definition NDPRouterAdvert_CurrHopLimit :: "bytes \<Rightarrow> u8 option" where
  "NDPRouterAdvert_CurrHopLimit b = byte_at b 0"

definition NDPRouterAdvert_ManagedAddrConfFlag :: "bytes \<Rightarrow> bool option" where
  "NDPRouterAdvert_ManagedAddrConfFlag b = do { x \<leftarrow> byte_at b 1; Some (x AND 128 \<noteq> 0) }"

definition NDPRouterAdvert_OtherConfFlag :: "bytes \<Rightarrow> bool option" where
  "NDPRouterAdvert_OtherConfFlag b = do { x \<leftarrow> byte_at b 1; Some (x AND 64 \<noteq> 0) }"

definition NDPRouterAdvert_DefaultRouterPreference :: "bytes \<Rightarrow> u8 option" where
  "NDPRouterAdvert_DefaultRouterPreference b = do { x \<leftarrow> byte_at b 1; Some (drop_bit 3 (x AND push_bit 3 3)) }"

definition NDPRouterAdvert_RouterLifetime :: "bytes \<Rightarrow> Duration option" where
  "NDPRouterAdvert_RouterLifetime b = do { t \<leftarrow> BE_Uint16 b 2; Some (1000000000 * uint t) }"

definition NDPRouterAdvert_ReachableTime :: "bytes \<Rightarrow> Duration option" where
  "NDPRouterAdvert_ReachableTime b = do { t \<leftarrow> BE_Uint32 b 4; Some (1000000 * uint t) }"

definition NDPRouterAdvert_RetransTimer :: "bytes \<Rightarrow> Duration option" where
  "NDPRouterAdvert_RetransTimer b = do { t \<leftarrow> BE_Uint32 b 8; Some (1000000 * uint t) }"

definition NDPRouterAdvert_Options :: "bytes \<Rightarrow> bytes option" where
  "NDPRouterAdvert_Options b = slice_from b 12"

definition NDPRouterSolicit_Options :: "bytes \<Rightarrow> bytes option" where
  "NDPRouterSolicit_Options b = slice_from b 4"

section \<open>Ethernet\<close>

record EthernetFields =
  eth_SrcAddr :: bytes
  eth_DstAddr :: bytes
  eth_Type :: u32

definition Ethernet_SourceAddress :: "bytes \<Rightarrow> bytes option" where
  "Ethernet_SourceAddress b = slice b 6 (6 + 6)"

definition Ethernet_DestinationAddress :: "bytes \<Rightarrow> bytes option" where
  "Ethernet_DestinationAddress b = slice b 0 6"

definition Ethernet_Type :: "bytes \<Rightarrow> u32 option" where
  "Ethernet_Type b = do { t \<leftarrow> BE_Uint16 b 12; Some (ucast t) }"

definition Ethernet_Encode :: "bytes \<Rightarrow> EthernetFields \<Rightarrow> bytes option" where
  "Ethernet_Encode b e = do {
     b \<leftarrow> BE_PutUint16 b 12 (ucast (eth_Type e));
     b \<leftarrow> copy_into 6 (6 + 6) (eth_SrcAddr e) b;
     copy_into 0 6 (eth_DstAddr e) b }"

definition IsMulticastEthernetAddress :: "bytes \<Rightarrow> bool" where
  "IsMulticastEthernetAddress addr = (if length addr \<noteq> 6 then False else addr ! 0 AND 1 \<noteq> 0)"

definition IsValidUnicastEthernetAddress :: "bytes \<Rightarrow> bool" where
  "IsValidUnicastEthernetAddress addr =
     (if length addr \<noteq> 6 then False
      else if addr = [0, 0, 0, 0, 0, 0] then False
      else if addr ! 0 AND 1 \<noteq> 0 then False
      else True)"

definition EthernetAddressFromMulticastIPv4Address :: "Address \<Rightarrow> bytes option" where
  "EthernetAddressFromMulticastIPv4Address addr = do {
     addrBytes \<leftarrow> As4 addr;
     let l = replicate 6 0;
     l \<leftarrow> set_byte l 0 1;
     l \<leftarrow> set_byte l 2 0x5e;
     x \<leftarrow> byte_at addrBytes 1;
     l \<leftarrow> set_byte l 3 (x AND 0x7F);
     s \<leftarrow> slice_from addrBytes (4 - 2);
     on_slice 4 6 (\<lambda>t. Some (go_copy t s)) l }"

definition EthernetAddressFromMulticastIPv6Address :: "Address \<Rightarrow> bytes option" where
  "EthernetAddressFromMulticastIPv6Address addr = do {
     addrBytes \<leftarrow> As16 addr;
     l \<leftarrow> slice_from addrBytes (16 - 6);
     l \<leftarrow> set_byte l 0 0x33;
     set_byte l 1 0x33 }"

section \<open>Fields\<close>

lemma flag_bits:
  fixes x :: u8
  shows "x AND 128 \<noteq> 0 \<longleftrightarrow> bit x 7" "x AND 64 \<noteq> 0 \<longleftrightarrow> bit x 6" "x AND 32 \<noteq> 0 \<longleftrightarrow> bit x 5"
  using and_exp_eq_0_iff_not_bit [of x 7] and_exp_eq_0_iff_not_bit [of x 6] and_exp_eq_0_iff_not_bit [of x 5] by simp_all

lemma bit_flagged:
  assumes "n < 8"
  shows "bit (flagged 128 f x) n = (if n = 7 then f else bit x n)" "bit (flagged 64 f x) n = (if n = 6 then f else bit x n)"
    "bit (flagged 32 f x) n = (if n = 5 then f else bit x n)"
proof -
  have m: "(128 :: u8) = 2 ^ 7" "(64 :: u8) = 2 ^ 6" "(32 :: u8) = 2 ^ 5" by simp_all
  have k: "bit (flagged (2 ^ k) f x) n = (if n = k then f else bit x n)" if "k < 8" for k
    using assms that by (auto simp: flagged_def bit_simps)
  show "bit (flagged 128 f x) n = (if n = 7 then f else bit x n)" "bit (flagged 64 f x) n = (if n = 6 then f else bit x n)"
    "bit (flagged 32 f x) n = (if n = 5 then f else bit x n)" using k [of 7] k [of 6] k [of 5] unfolding m by simp_all
qed

lemma flagged_low: "flagged 128 f x AND 31 = x AND 31" "flagged 64 f x AND 31 = x AND 31" "flagged 32 f x AND 31 = x AND 31"
  by (simp_all add: flagged_def bit.conj_disj_distrib2 and.assoc)

lemma set_flag_in: "0 < length b \<Longrightarrow> set_flag m b f = Some (b[0 := flagged m f (b ! 0)])"
  by (simp add: set_flag_def byte_at_def set_byte_def)

lemma AddrFrom16_self: "wf_Address a \<Longrightarrow> a_length a = 16 \<Longrightarrow> AddrFrom16Slice (a_addr a) = Some a"
  by (cases a) (simp add: wf_Address_def AddrFrom16Slice_def)

lemma target_in:
  assumes "20 \<le> length b" "wf_Address a" "a_length a = 16"
  shows "(AsSlice a \<bind> (\<lambda>s. copy_into 4 20 s b)) = Some (put_slice 4 (a_addr a) b)"
    and "(slice ((put_slice 4 (a_addr a) b)[0 := x]) 4 20 \<bind> AddrFrom16Slice) = Some a"
    and "slice_from ((put_slice 4 (a_addr a) b)[0 := x]) 20 = slice_from b 20"
    and "take 3 (drop 1 ((put_slice 4 (a_addr a) b)[0 := x])) = take 3 (drop 1 b)"
    and "put_slice 4 (a_addr a) b ! 0 = b ! 0" "length (put_slice 4 (a_addr a) b) = length b"
proof -
  have l: "length (a_addr a) = 16" using assms by (simp add: wf_Address_def)
  then show p: "length (put_slice 4 (a_addr a) b) = length b" using assms by simp
  show "(AsSlice a \<bind> (\<lambda>s. copy_into 4 20 s b)) = Some (put_slice 4 (a_addr a) b)"
    using assms l by (simp add: AsSlice_wf copy_into_same)
  show "(slice ((put_slice 4 (a_addr a) b)[0 := x]) 4 20 \<bind> AddrFrom16Slice) = Some a"
    using assms l p AddrFrom16_self [OF assms(2,3)] by (simp add: slice_def)
  show "slice_from ((put_slice 4 (a_addr a) b)[0 := x]) 20 = slice_from b 20"
    using assms l p by (simp add: slice_from_def drop_put_slice)
  show "put_slice 4 (a_addr a) b ! 0 = b ! 0" using assms l by (simp add: put_slice_def nth_append)
  show "take 3 (drop 1 ((put_slice 4 (a_addr a) b)[0 := x])) = take 3 (drop 1 b)"
    using assms l by (simp add: put_slice_def drop_take)
qed

text \<open>What can be read from a neighbor advertisement: its fields, and the bytes that belong to none of them.\<close>

record advert =
  ad_TargetAddress :: "Address option"
  ad_RouterFlag :: "bool option"
  ad_SolicitedFlag :: "bool option"
  ad_OverrideFlag :: "bool option"
  ad_Options :: "bytes option"
  ad_reserved :: "u8 \<times> bytes"

definition advert_of :: "bytes \<Rightarrow> advert" where
  "advert_of b = \<lparr>ad_TargetAddress = NDPNeighborAdvert_TargetAddress b, ad_RouterFlag = NDPNeighborAdvert_RouterFlag b,
     ad_SolicitedFlag = NDPNeighborAdvert_SolicitedFlag b, ad_OverrideFlag = NDPNeighborAdvert_OverrideFlag b,
     ad_Options = NDPNeighborAdvert_Options b, ad_reserved = (b ! 0 AND 31, take 3 (drop 1 b))\<rparr>"

lemmas advert_getters = advert_of_def NDPNeighborAdvert_TargetAddress_def NDPNeighborAdvert_RouterFlag_def
  NDPNeighborAdvert_SolicitedFlag_def NDPNeighborAdvert_OverrideFlag_def NDPNeighborAdvert_Options_def

lemma advert_of_first:
  assumes "20 \<le> length b"
  shows "advert_of (b[0 := x]) = (advert_of b)\<lparr>ad_RouterFlag := Some (bit x 7), ad_SolicitedFlag := Some (bit x 6),
    ad_OverrideFlag := Some (bit x 5), ad_reserved := (x AND 31, take 3 (drop 1 b))\<rparr>"
proof -
  have "0 < length b" using assms by auto
  then show ?thesis using assms by (simp add: advert_getters byte_at_def flag_bits slice_def slice_from_def del: One_nat_def)
qed

text \<open>
  C39. The fields of a neighbor advertisement are independent. On a message of at least the minimum size, each setter (of the target address
  and of the three flags) gives a message of the same length in which its own field is read back as it was set, and every
  other field, the options and the reserved bits are as before; the target address of a solicitation behaves alike.
\<close>

theorem advert_fields:
  assumes "20 \<le> length b" "wf_Address a" "a_length a = 16"
  shows "returns (NDPNeighborAdvert_SetTargetAddress b a) (\<lambda>b'. length b' = length b \<and>
      advert_of b' = (advert_of b)\<lparr>ad_TargetAddress := Some a\<rparr>) \<and>
    returns (NDPNeighborAdvert_SetRouterFlag b f) (\<lambda>b'. length b' = length b \<and>
      advert_of b' = (advert_of b)\<lparr>ad_RouterFlag := Some f\<rparr>) \<and>
    returns (NDPNeighborAdvert_SetSolicitedFlag b f) (\<lambda>b'. length b' = length b \<and>
      advert_of b' = (advert_of b)\<lparr>ad_SolicitedFlag := Some f\<rparr>) \<and>
    returns (NDPNeighborAdvert_SetOverrideFlag b f) (\<lambda>b'. length b' = length b \<and>
      advert_of b' = (advert_of b)\<lparr>ad_OverrideFlag := Some f\<rparr>) \<and>
    returns (NDPNeighborSolicit_SetTargetAddress b a) (\<lambda>b'. length b' = length b \<and> take 4 b' = take 4 b \<and>
      NDPNeighborSolicit_TargetAddress b' = Some a \<and> NDPNeighborSolicit_Options b' = NDPNeighborSolicit_Options b)"
proof -
  note t = target_in [OF assms]
  let ?b = "put_slice 4 (a_addr a) b"
  have pos: "0 < length b" using assms by auto
  have id: "?b[0 := b ! 0] = ?b" "take 4 ?b = take 4 b"
    using t(5) assms(1) by (metis list_update_id, simp add: put_slice_def)
  have old: "byte_at b 0 = Some (b ! 0)" "byte_at ?b 0 = Some (b ! 0)" using pos t(5,6) by (simp_all add: byte_at_def)
  have "advert_of ?b = (advert_of b)\<lparr>ad_TargetAddress := Some a\<rparr>"
    using t(2-4) [of "b ! 0"] t(5) old unfolding id by (simp add: advert_getters del: One_nat_def)
  moreover have flag: "advert_of (b[0 := flagged m f (b ! 0)]) = (advert_of b)\<lparr>ad_RouterFlag := Some (bit (flagged m f (b ! 0)) 7),
      ad_SolicitedFlag := Some (bit (flagged m f (b ! 0)) 6), ad_OverrideFlag := Some (bit (flagged m f (b ! 0)) 5),
      ad_reserved := (flagged m f (b ! 0) AND 31, take 3 (drop 1 b))\<rparr>" for m
    by (rule advert_of_first [OF assms(1)])
  have same: "advert_of b = (advert_of b)\<lparr>ad_RouterFlag := Some (bit (b ! 0) 7), ad_SolicitedFlag := Some (bit (b ! 0) 6),
      ad_OverrideFlag := Some (bit (b ! 0) 5), ad_reserved := (b ! 0 AND 31, take 3 (drop 1 b))\<rparr>"
    using advert_of_first [OF assms(1), of "b ! 0"] by simp
  have "advert_of (b[0 := flagged 128 f (b ! 0)]) = (advert_of b)\<lparr>ad_RouterFlag := Some f\<rparr>"
    "advert_of (b[0 := flagged 64 f (b ! 0)]) = (advert_of b)\<lparr>ad_SolicitedFlag := Some f\<rparr>"
    "advert_of (b[0 := flagged 32 f (b ! 0)]) = (advert_of b)\<lparr>ad_OverrideFlag := Some f\<rparr>"
    by (subst same, subst flag, simp add: bit_flagged flagged_low)+
  ultimately show ?thesis
    using pos t(1,6) t(2,3) [of "b ! 0"] unfolding id
    by (simp add: NDPNeighborAdvert_SetTargetAddress_def NDPNeighborAdvert_SetRouterFlag_def id
        NDPNeighborAdvert_SetSolicitedFlag_def NDPNeighborAdvert_SetOverrideFlag_def set_flag_in NDPNeighborSolicit_SetTargetAddress_def
        NDPNeighborSolicit_TargetAddress_def NDPNeighborSolicit_Options_def del: length_0_conv length_greater_0_conv)
qed

text \<open>The override flag is cleared in a message in which all flags are set.\<close>

theorem advert_fields_witness:
  "returns (NDPNeighborAdvert_SetOverrideFlag (replicate 28 0xe7) False) (\<lambda>b'.
     NDPNeighborAdvert_RouterFlag b' = Some True \<and> NDPNeighborAdvert_SolicitedFlag b' = Some True \<and> NDPNeighborAdvert_OverrideFlag b' = Some False)"
proof -
  have a: "20 \<le> length (replicate 28 (0xe7 :: u8))" "wf_Address (AddrFrom16 (replicate 16 1))" "a_length (AddrFrom16 (replicate 16 1)) = 16"
    using AddrFrom16_wf [of "replicate 16 1"] by simp_all
  have "NDPNeighborAdvert_RouterFlag (replicate 28 0xe7) = Some True" "NDPNeighborAdvert_SolicitedFlag (replicate 28 0xe7) = Some True" by code_simp+
  then show ?thesis using advert_fields [OF a, of False] by (auto simp: advert_of_def returns_iff)
qed

lemma Encode_fields:
  assumes "14 \<le> length b" "length (eth_SrcAddr e) = 6" "length (eth_DstAddr e) = 6" "unat (eth_Type e) < 65536"
  shows "returns (Ethernet_Encode b e) (\<lambda>b'. length b' = length b \<and> drop 14 b' = drop 14 b \<and>
      Ethernet_SourceAddress b' = Some (eth_SrcAddr e) \<and> Ethernet_DestinationAddress b' = Some (eth_DstAddr e) \<and>
      Ethernet_Type b' = Some (eth_Type e))"
proof -
  let ?t = "ucast (eth_Type e) :: u16"
  let ?b1 = "b[12 := hi8 ?t, 13 := lo8 ?t]"
  let ?b2 = "put_slice 6 (eth_SrcAddr e) ?b1"
  let ?b3 = "put_slice 0 (eth_DstAddr e) ?b2"
  have l: "length ?b2 = length b" "length ?b3 = length b" using assms by simp_all
  have n: "?b3 ! 12 = hi8 ?t" "?b3 ! 13 = lo8 ?t" using assms l by (simp_all add: nth_put_slice)
  have src: "take 6 (drop 6 ?b3) = eth_SrcAddr e" using assms l by (simp add: drop_put_slice)
  have dst: "take 6 ?b3 = eth_DstAddr e" using assms l by (simp add: put_slice_def)
  have rest: "drop 14 ?b3 = drop 14 b" using assms l by (simp add: drop_put_slice)
  have t: "ucast ?t = eth_Type e" using assms(4) unfolding word_unat_eq_iff by (simp add: unat_ucast_mod)
  have "Ethernet_Encode b e = Some ?b3"
    using assms l by (simp add: Ethernet_Encode_def BE_PutUint16_in copy_into_same)
  then show ?thesis using assms(1) l n src dst rest t
    by (simp add: Ethernet_SourceAddress_def Ethernet_DestinationAddress_def Ethernet_Type_def slice_def BE_Uint16_in)
qed

lemma multicast4:
  assumes "wf_Address a" "a_length a = 4"
  shows "returns (EthernetAddressFromMulticastIPv4Address a) (\<lambda>l. IsMulticastEthernetAddress l \<and> \<not> IsValidUnicastEthernetAddress l \<and>
      take 3 l = [1, 0, 0x5e] \<and> drop 4 l = take 2 (drop 2 (a_addr a)) \<and> l ! 3 = a_addr a ! 1 AND 0x7F)"
proof -
  obtain w x y z r where a: "a_addr a = w # x # y # z # r"
    using assms(1) unfolding wf_Address_def by (auto simp: length_Suc_conv numeral_eq_Suc)
  then have "EthernetAddressFromMulticastIPv4Address a = Some [1, 0, 0x5e, x AND 0x7F, y, z]"
    using assms(2) by (simp add: EthernetAddressFromMulticastIPv4Address_def As4_def Address_Len_def access_defs go_copy_def
        numeral_eq_Suc Let_def)
  then show ?thesis using a by (simp add: IsMulticastEthernetAddress_def IsValidUnicastEthernetAddress_def)
qed

lemma multicast6:
  assumes "wf_Address a" "a_length a = 16"
  shows "returns (EthernetAddressFromMulticastIPv6Address a) (\<lambda>l. IsMulticastEthernetAddress l \<and> \<not> IsValidUnicastEthernetAddress l \<and>
      take 2 l = [0x33, 0x33] \<and> drop 2 l = drop 12 (a_addr a))"
proof -
  have l: "length (a_addr a) = 16" using assms by (simp add: wf_Address_def)
  have d: "drop 10 (a_addr a) = a_addr a ! 10 # a_addr a ! 11 # drop 12 (a_addr a)"
    using l Cons_nth_drop_Suc [of 10 "a_addr a"] Cons_nth_drop_Suc [of 11 "a_addr a"] by simp
  then have "EthernetAddressFromMulticastIPv6Address a = Some (0x33 # 0x33 # drop 12 (a_addr a))"
    using assms l by (simp add: EthernetAddressFromMulticastIPv6Address_def As16_def Address_Len_def access_defs)
  then show ?thesis using l by (simp add: IsMulticastEthernetAddress_def IsValidUnicastEthernetAddress_def)
qed

text \<open>
  C40. An Ethernet header round-trips, and multicast addresses map to multicast addresses. Encoding two addresses of six bytes and a type
  of sixteen bits into a frame of at least the minimum size makes the three accessors return them and leaves the payload alone. The Ethernet
  address of an IPv4 or IPv6 multicast group has six bytes, is a multicast address and not a unicast one, and carries the low bits of the group.
\<close>

theorem ethernet_header:
  assumes "14 \<le> length b" "length (eth_SrcAddr e) = 6" "length (eth_DstAddr e) = 6" "unat (eth_Type e) < 65536"
    and "wf_Address a4" "a_length a4 = 4" "wf_Address a6" "a_length a6 = 16"
  shows "returns (Ethernet_Encode b e) (\<lambda>b'. length b' = length b \<and> drop 14 b' = drop 14 b \<and>
      Ethernet_SourceAddress b' = Some (eth_SrcAddr e) \<and> Ethernet_DestinationAddress b' = Some (eth_DstAddr e) \<and>
      Ethernet_Type b' = Some (eth_Type e)) \<and>
    returns (EthernetAddressFromMulticastIPv4Address a4) (\<lambda>l. IsMulticastEthernetAddress l \<and> \<not> IsValidUnicastEthernetAddress l \<and>
      take 3 l = [1, 0, 0x5e] \<and> drop 4 l = take 2 (drop 2 (a_addr a4)) \<and> l ! 3 = a_addr a4 ! 1 AND 0x7F) \<and>
    returns (EthernetAddressFromMulticastIPv6Address a6) (\<lambda>l. IsMulticastEthernetAddress l \<and> \<not> IsValidUnicastEthernetAddress l \<and>
      take 2 l = [0x33, 0x33] \<and> drop 2 l = drop 12 (a_addr a6))"
  using Encode_fields [OF assms(1-4)] multicast4 [OF assms(5,6)] multicast6 [OF assms(7,8)] by blast

definition sample_eth :: EthernetFields where
  "sample_eth = \<lparr>eth_SrcAddr = [2, 0, 0, 0, 0, 1], eth_DstAddr = [2, 0, 0, 0, 0, 2], eth_Type = 0x86dd\<rparr>"

theorem ethernet_header_witness:
  "returns (Ethernet_Encode (replicate 20 9) sample_eth) (\<lambda>b'. length b' = 20 \<and> drop 14 b' = replicate 6 9 \<and>
      Ethernet_SourceAddress b' = Some [2, 0, 0, 0, 0, 1] \<and> Ethernet_DestinationAddress b' = Some [2, 0, 0, 0, 0, 2] \<and>
      Ethernet_Type b' = Some 0x86dd)"
proof -
  let ?a4 = "AddrFrom4 [224, 0, 0, 1]" and ?a6 = "AddrFrom16 (255 # replicate 15 1)"
  have "wf_Address ?a4" "a_length ?a4 = 4" "wf_Address ?a6" "a_length ?a6 = 16"
    using AddrFrom4_wf [of "[224, 0, 0, 1]"] AddrFrom16_wf [of "255 # replicate 15 1"] by simp_all
  then show ?thesis using ethernet_header [of "replicate 20 9" sample_eth ?a4 ?a6] by (simp add: sample_eth_def)
qed

end
