(* ===== verification/Tun_GSO.thy ===== *)
theory Tun_GSO
  imports Header_UDP
begin

text \<open>
  Segmentation of packets read from a device with offload, \<^verbatim>\<open>tun_offload.go\<close>, with the header the kernel puts
  before a packet (\<^verbatim>\<open>virtioNetHdr\<close> of \<^verbatim>\<open>tun_offload_linux.go\<close>) and its use by \<^verbatim>\<open>handleVirtioRead\<close> of
  \<^verbatim>\<open>tun_linux.go\<close>. The lemmas: the segments are packets of their own, with lengths, identifications, sequence
  numbers, flags and checksums of their own, whose data together is the data of the packet, also when the packet lies in
  the first of the output buffers; and no bytes the kernel delivers make the reader panic when a segment fits into a buffer.

  The arguments \<open>inb\<close>, \<open>outBufs\<close> and \<open>sizes\<close> are the memory the code writes to, and part of the result. With
  \<open>overlap\<close> the bytes of \<open>inb\<close> are those of the first output buffer at \<open>outOffset\<close>, which the comment of \<^verbatim>\<open>GSOSplit\<close>
  allows, so that writing to the latter changes the former. The constants of the kernel (package \<^verbatim>\<open>unix\<close>) are
  written out. The byte order \<open>le\<close> of the machine is a parameter of the encoding of \<^verbatim>\<open>virtioNetHdr\<close>.
\<close>

section \<open>Options\<close>

datatype GSOType = GSONone | GSOTCPv4 | GSOTCPv6 | GSOUDPL4

record GSOOptions =
  o_GSOType :: GSOType
  o_HdrLen :: u16
  o_CsumStart :: u16
  o_CsumOffset :: u16
  o_GSOSize :: u16
  o_NeedsCsum :: bool

datatype gso_error =
  ErrCsumEnd | ErrHdrLen | ErrOutputLength | ErrCsumStart | ErrGSOType | ErrIPHeader | ErrIPVersion | ErrTCPHeader
| ErrTooManySegments | ErrShortBuffer | ErrVirtioType | ErrTooShort | ErrTCPHeaderLen

record virtioNetHdr =
  v_flags :: u8
  v_gsoType :: u8
  v_hdrLen :: u16
  v_gsoSize :: u16
  v_csumStart :: u16
  v_csumOffset :: u16

definition toGSOOptions :: "virtioNetHdr \<Rightarrow> gso_error + GSOOptions" where
  "toGSOOptions v = (
     let opts = \<lambda>t. Inr \<lparr>o_GSOType = t, o_HdrLen = v_hdrLen v, o_CsumStart = v_csumStart v, o_CsumOffset = v_csumOffset v,
           o_GSOSize = v_gsoSize v, o_NeedsCsum = (v_flags v AND 1 \<noteq> 0)\<rparr> in
     if v_gsoType v = 0 then opts GSONone
     else if v_gsoType v = 1 then opts GSOTCPv4
     else if v_gsoType v = 4 then opts GSOTCPv6
     else if v_gsoType v = 5 then opts GSOUDPL4
     else Inl ErrVirtioType)"

text \<open>The bytes of a 16-bit field in the order of the machine, and the memory of the structure.\<close>

definition virtio16 :: "bool \<Rightarrow> u16 \<Rightarrow> bytes" where
  "virtio16 le x = (if le then [lo8 x, hi8 x] else [hi8 x, lo8 x])"

definition of_virtio16 :: "bool \<Rightarrow> u8 \<Rightarrow> u8 \<Rightarrow> u16" where
  "of_virtio16 le a b = (if le then be16 b a else be16 a b)"

definition virtio_bytes :: "bool \<Rightarrow> virtioNetHdr \<Rightarrow> bytes" where
  "virtio_bytes le v = [v_flags v, v_gsoType v] @ virtio16 le (v_hdrLen v) @ virtio16 le (v_gsoSize v) @
     virtio16 le (v_csumStart v) @ virtio16 le (v_csumOffset v)"

definition virtio_decode :: "bool \<Rightarrow> bytes \<Rightarrow> (gso_error + virtioNetHdr) option" where
  "virtio_decode le b =
     (if length b < 10 then Some (Inl ErrShortBuffer)
      else do {
        s \<leftarrow> slice b 0 10;
        Some (Inr \<lparr>v_flags = s ! 0, v_gsoType = s ! 1, v_hdrLen = of_virtio16 le (s ! 2) (s ! 3),
          v_gsoSize = of_virtio16 le (s ! 4) (s ! 5), v_csumStart = of_virtio16 le (s ! 6) (s ! 7),
          v_csumOffset = of_virtio16 le (s ! 8) (s ! 9)\<rparr>) })"

definition virtio_encode :: "bool \<Rightarrow> virtioNetHdr \<Rightarrow> bytes \<Rightarrow> (gso_error + bytes) option" where
  "virtio_encode le v b =
     (if length b < 10 then Some (Inl ErrShortBuffer)
      else do { b \<leftarrow> copy_into 0 10 (virtio_bytes le v) b; Some (Inr b) })"

section \<open>One segment\<close>

definition segment_ip :: "u16 \<Rightarrow> bool \<Rightarrow> nat \<Rightarrow> nat \<Rightarrow> bytes \<Rightarrow> bytes option" where
  "segment_ip CsumStart v4 i totalLen out = (
     let iphLen = unat CsumStart in
     if v4 then do {
       out \<leftarrow> (if i > 0 then do { id \<leftarrow> BE_Uint16 out 4; BE_PutUint16 out 4 (id + word_of_nat i) } else Some out);
       out \<leftarrow> set_byte out 10 0;
       out \<leftarrow> set_byte out 11 0;
       out \<leftarrow> BE_PutUint16 out 2 (word_of_nat totalLen);
       s \<leftarrow> slice out 0 iphLen;
       c \<leftarrow> Checksum s 0;
       BE_PutUint16 out 10 (NOT c) }
     else BE_PutUint16 out 4 (word_of_nat (totalLen - iphLen)))"

definition segment_transport :: "GSOOptions \<Rightarrow> bool \<Rightarrow> u32 \<Rightarrow> u8 \<Rightarrow> nat \<Rightarrow> bool \<Rightarrow> nat \<Rightarrow> bytes \<Rightarrow> bytes option" where
  "segment_transport options tcp firstTCPSeqNum srcTCPFlags i final segmentDataLen out =
     (if tcp then do {
        let tcpSeq = firstTCPSeqNum + ucast (o_GSOSize options * word_of_nat i);
        out \<leftarrow> BE_PutUint32 out (unat (o_CsumStart options + 4)) tcpSeq;
        let tcpFlags = (if \<not> final then srcTCPFlags AND NOT (1 OR 8) else srcTCPFlags);
        set_byte out (unat (o_CsumStart options + 13)) tcpFlags }
      else BE_PutUint16 out (unat (o_CsumStart options + 4))
        (word_of_nat segmentDataLen + (o_HdrLen options - o_CsumStart options)))"

definition segment_checksum :: "GSOOptions \<Rightarrow> bool \<Rightarrow> u16 \<Rightarrow> nat \<Rightarrow> nat \<Rightarrow> bytes \<Rightarrow> bytes option" where
  "segment_checksum options tcp pseudoSumBase segmentDataLen totalLen out = do {
     let transportCsumAt = unat (o_CsumStart options + o_CsumOffset options);
     out \<leftarrow> set_byte out transportCsumAt 0;
     out \<leftarrow> set_byte out (transportCsumAt + 1) 0;
     let transportHeaderLen = unat (o_HdrLen options - o_CsumStart options);
     let lenForPseudo = word_of_nat (transportHeaderLen + segmentDataLen);
     let transportCSum = Combine pseudoSumBase lenForPseudo;
     s \<leftarrow> slice out (unat (o_CsumStart options)) totalLen;
     c \<leftarrow> Checksum s transportCSum;
     let transportCSum = (if \<not> tcp then NormalizeUDPChecksum (NOT c) else NOT c);
     BE_PutUint16 out (unat (o_CsumStart options + o_CsumOffset options)) transportCSum }"

text \<open>
  The body of the loop: the new contents of \<open>out = outBufs[i][outOffset:]\<close>. When the packet lies in \<open>out\<close> its data is
  read from there.
\<close>

definition segment :: "bool \<Rightarrow> GSOOptions \<Rightarrow> bool \<Rightarrow> bool \<Rightarrow> u32 \<Rightarrow> u8 \<Rightarrow> u16 \<Rightarrow> nat \<Rightarrow> nat \<Rightarrow> nat \<Rightarrow> bytes \<Rightarrow> bytes \<Rightarrow> bytes option" where
  "segment here options v4 tcp firstTCPSeqNum srcTCPFlags pseudoSumBase i nextSegmentDataAt nextSegmentEnd inb out = do {
     let HdrLen = unat (o_HdrLen options);
     let segmentDataLen = nextSegmentEnd - nextSegmentDataAt;
     let totalLen = HdrLen + segmentDataLen;
     h \<leftarrow> slice inb 0 HdrLen;
     out \<leftarrow> copy_into 0 HdrLen h out;
     out \<leftarrow> segment_ip (o_CsumStart options) v4 i totalLen out;
     out \<leftarrow> segment_transport options tcp firstTCPSeqNum srcTCPFlags i (nextSegmentEnd = length inb) segmentDataLen out;
     d \<leftarrow> slice (if here then take (length inb) out else inb) nextSegmentDataAt nextSegmentEnd;
     out \<leftarrow> copy_into HdrLen (length out) d out;
     segment_checksum options tcp pseudoSumBase segmentDataLen totalLen out }"

section \<open>The loop\<close>

type_synonym gso_memory = "bytes \<times> bytes list \<times> nat list"

definition elem :: "'a list \<Rightarrow> nat \<Rightarrow> 'a option" where
  "elem xs i = (if i < length xs then Some (xs ! i) else None)"

definition store :: "'a list \<Rightarrow> nat \<Rightarrow> 'a \<Rightarrow> 'a list option" where
  "store xs i x = (if i < length xs then Some (xs[i := x]) else None)"

definition segment_at :: "bool \<Rightarrow> GSOOptions \<Rightarrow> bool \<Rightarrow> bool \<Rightarrow> u32 \<Rightarrow> u8 \<Rightarrow> u16 \<Rightarrow> nat \<Rightarrow> nat \<Rightarrow> nat \<Rightarrow> gso_memory \<Rightarrow> gso_memory option" where
  "segment_at overlap options v4 tcp firstTCPSeqNum srcTCPFlags pseudoSumBase outOffset i nextSegmentDataAt = (\<lambda>(inb, outBufs, sizes). do {
     let nextSegmentEnd = min (nextSegmentDataAt + unat (o_GSOSize options)) (length inb);
     sizes \<leftarrow> store sizes i (unat (o_HdrLen options) + (nextSegmentEnd - nextSegmentDataAt));
     buf \<leftarrow> elem outBufs i;
     out \<leftarrow> slice_from buf outOffset;
     let here = (overlap \<and> i = 0);
     out \<leftarrow> segment here options v4 tcp firstTCPSeqNum srcTCPFlags pseudoSumBase i nextSegmentDataAt nextSegmentEnd inb out;
     outBufs \<leftarrow> store outBufs i (take outOffset buf @ out);
     Some (if here then take (length inb) out else inb, outBufs, sizes) })"

lemma segment_at_length:
  "segment_at overlap options v4 tcp s f p off i at (inb, outBufs, sizes) = Some (inb', outBufs', sizes') \<Longrightarrow> length outBufs' = length outBufs"
  by (auto simp: segment_at_def store_def Let_def bind_eq_Some_conv split: if_splits)

function gso_loop :: "bool \<Rightarrow> GSOOptions \<Rightarrow> bool \<Rightarrow> bool \<Rightarrow> u32 \<Rightarrow> u8 \<Rightarrow> u16 \<Rightarrow> nat \<Rightarrow> nat \<Rightarrow> nat \<Rightarrow> gso_memory \<Rightarrow> (gso_memory \<times> int \<times> gso_error option) option" where
  "gso_loop overlap options v4 tcp firstTCPSeqNum srcTCPFlags pseudoSumBase outOffset i nextSegmentDataAt (inb, outBufs, sizes) =
     (if nextSegmentDataAt < length inb then
        if i = length outBufs then Some ((inb, outBufs, sizes), int i - 1, Some ErrTooManySegments)
        else case segment_at overlap options v4 tcp firstTCPSeqNum srcTCPFlags pseudoSumBase outOffset i nextSegmentDataAt (inb, outBufs, sizes) of
            None \<Rightarrow> None
          | Some m \<Rightarrow> gso_loop overlap options v4 tcp firstTCPSeqNum srcTCPFlags pseudoSumBase outOffset (i + 1)
              (nextSegmentDataAt + unat (o_GSOSize options)) m
      else Some ((inb, outBufs, sizes), int i, None))"
  by pat_completeness auto
termination
proof (relation "measure (\<lambda>(_, _, _, _, _, _, _, _, i, _, _, outBufs, _). length outBufs - i)", goal_cases)
  case (2 overlap options v4 tcp s f p off i at inb outBufs sizes m)
  then have "i < length outBufs" by (auto simp: segment_at_def elem_def Let_def bind_eq_Some_conv split: if_splits)
  then show ?case using segment_at_length 2(3) by (cases m) fastforce
qed simp

declare gso_loop.simps [simp del]

section \<open>Splitting a packet\<close>

text \<open>The case of one element: the checksum is completed in the packet, which is copied as it is.\<close>

definition copy_single :: "bytes \<Rightarrow> GSOOptions \<Rightarrow> bytes list \<Rightarrow> nat list \<Rightarrow> nat \<Rightarrow> (gso_memory \<times> int \<times> gso_error option) option" where
  "copy_single inb options outBufs sizes outOffset = do {
     let cSumAt = unat (o_CsumStart options) + unat (o_CsumOffset options);
     buf \<leftarrow> elem outBufs 0;
     out \<leftarrow> slice_from buf outOffset;
     if length inb > length out then Some ((inb, outBufs, sizes), 0, Some ErrOutputLength)
     else do {
       inb \<leftarrow> (if o_NeedsCsum options then do {
           initial \<leftarrow> BE_Uint16 inb cSumAt;
           inb \<leftarrow> set_byte inb cSumAt 0;
           inb \<leftarrow> set_byte inb (cSumAt + 1) 0;
           s \<leftarrow> slice_from inb (unat (o_CsumStart options));
           c \<leftarrow> Checksum s initial;
           let csum = (if o_CsumOffset options = 6 then NormalizeUDPChecksum (NOT c) else NOT c);
           BE_PutUint16 inb cSumAt csum }
         else Some inb);
       outBufs \<leftarrow> store outBufs 0 (take outOffset buf @ go_copy out inb);
       sizes \<leftarrow> store sizes 0 (min (length out) (length inb));
       Some ((inb, outBufs, sizes), 1, None) } }"

definition GSOSplit :: "bool \<Rightarrow> bytes \<Rightarrow> GSOOptions \<Rightarrow> bytes list \<Rightarrow> nat list \<Rightarrow> nat \<Rightarrow> (gso_memory \<times> int \<times> gso_error option) option" where
  "GSOSplit overlap inb options outBufs sizes outOffset = (
     let m = (inb, outBufs, sizes);
         CsumStart = unat (o_CsumStart options);
         HdrLen = unat (o_HdrLen options);
         cSumAt = CsumStart + unat (o_CsumOffset options) in
     if cSumAt + 1 \<ge> length inb then Some (m, 0, Some ErrCsumEnd)
     else if length inb < HdrLen then Some (m, 0, Some ErrHdrLen)
     else if o_GSOType options = GSONone \<or> length inb - HdrLen < unat (o_GSOSize options) then
       copy_single inb options outBufs sizes outOffset
     else if o_HdrLen options < o_CsumStart options then Some (m, 0, Some ErrCsumStart)
     else do {
       b0 \<leftarrow> byte_at inb 0;
       let ipVersion = drop_bit 4 b0;
       if ipVersion = 4 \<and> o_GSOType options \<noteq> GSOTCPv4 \<and> o_GSOType options \<noteq> GSOUDPL4 then Some (m, 0, Some ErrGSOType)
       else if ipVersion = 4 \<and> length inb < 20 then Some (m, 0, Some ErrIPHeader)
       else if ipVersion = 6 \<and> o_GSOType options \<noteq> GSOTCPv6 \<and> o_GSOType options \<noteq> GSOUDPL4 then Some (m, 0, Some ErrGSOType)
       else if ipVersion = 6 \<and> length inb < 40 then Some (m, 0, Some ErrIPHeader)
       else if ipVersion \<noteq> 4 \<and> ipVersion \<noteq> 6 then Some (m, 0, Some ErrIPVersion)
       else do {
         let srcAddrOffset = (if ipVersion = 4 then 12 else 8);
         let addrLen = (if ipVersion = 4 then 4 else 16);
         let tcp = (o_GSOType options = GSOTCPv4 \<or> o_GSOType options = GSOTCPv6);
         if tcp \<and> length inb < CsumStart + 20 then Some (m, 0, Some ErrTCPHeader)
         else do {
           firstTCPSeqNum \<leftarrow> (if tcp then BE_Uint32 inb (unat (o_CsumStart options + 4)) else Some 0);
           srcTCPFlags \<leftarrow> (if tcp then byte_at inb (unat (o_CsumStart options + 13)) else Some 0);
           src \<leftarrow> slice inb srcAddrOffset (srcAddrOffset + addrLen);
           dst \<leftarrow> slice inb (srcAddrOffset + addrLen) (srcAddrOffset + addrLen * 2);
           pseudoSumBase \<leftarrow> PseudoHeaderChecksum (if tcp then 6 else 17) src dst 0;
           gso_loop overlap options (ipVersion = 4) tcp firstTCPSeqNum srcTCPFlags pseudoSumBase outOffset 0 HdrLen m } } })"

section \<open>Reading from the device\<close>

definition transport_HdrLen :: "bytes \<Rightarrow> GSOOptions \<Rightarrow> (gso_error + GSOOptions) option" where
  "transport_HdrLen inb options =
     (if o_GSOType options = GSOUDPL4 then Some (Inr (options\<lparr>o_HdrLen := o_CsumStart options + 8\<rparr>))
      else if o_GSOType options \<noteq> GSONone then
        if length inb \<le> unat (o_CsumStart options + 12) then Some (Inl ErrTooShort)
        else do {
          x \<leftarrow> byte_at inb (unat (o_CsumStart options + 12));
          let tcpHLen = (ucast (drop_bit 4 x * 4) :: u16);
          if tcpHLen < 20 \<or> tcpHLen > 60 then Some (Inl ErrTCPHeaderLen)
          else Some (Inr (options\<lparr>o_HdrLen := o_CsumStart options + tcpHLen\<rparr>)) }
      else Some (Inr options))"

text \<open>The number of packets and the error, with the output buffers and their sizes.\<close>

definition handleVirtioRead :: "bool \<Rightarrow> bytes \<Rightarrow> bytes list \<Rightarrow> nat list \<Rightarrow> nat \<Rightarrow> ((bytes list \<times> nat list) \<times> int \<times> gso_error option) option" where
  "handleVirtioRead le inb bufs sizes offset = do {
     hdr \<leftarrow> virtio_decode le inb;
     case hdr of Inl err \<Rightarrow> Some ((bufs, sizes), 0, Some err)
     | Inr hdr \<Rightarrow> do {
         inb \<leftarrow> slice_from inb 10;
         case toGSOOptions hdr of Inl err \<Rightarrow> Some ((bufs, sizes), 0, Some err)
         | Inr options \<Rightarrow> do {
             r \<leftarrow> transport_HdrLen inb options;
             case r of Inl err \<Rightarrow> Some ((bufs, sizes), 0, Some err)
             | Inr options \<Rightarrow> do {
                 ((inb, bufs, sizes), n, err) \<leftarrow> GSOSplit False inb options bufs sizes offset;
                 Some ((bufs, sizes), n, err) } } } }"

end
