(* ===== verification/GSO_Segments.thy ===== *)
theory GSO_Segments
  imports Tun_GSO
begin

text \<open>
  What \<^verbatim>\<open>GSOSplit\<close> produces: the segments of a well-formed packet, with any output buffers that are large enough,
  the safety of the reader of the device, and what happens when a segment does not fit.
\<close>

abbreviation hdr_len :: "GSOOptions \<Rightarrow> nat" where "hdr_len opt \<equiv> unat (o_HdrLen opt)"
abbreviation csum_start :: "GSOOptions \<Rightarrow> nat" where "csum_start opt \<equiv> unat (o_CsumStart opt)"
abbreviation gso_size :: "GSOOptions \<Rightarrow> nat" where "gso_size opt \<equiv> unat (o_GSOSize opt)"

text \<open>
  The length of the network header of a packet: the header length field of IPv4, and 40 bytes of IPv6 without extension headers.
\<close>

definition net_len :: "bool \<Rightarrow> bytes \<Rightarrow> nat" where
  "net_len v4 p = (if v4 then 4 * unat (p ! 0 AND 0xF) else 40)"

text \<open>
  Options that describe a packet with its headers, as the kernel gives them: the transport header starts right after the network header.
\<close>

definition gso_wf :: "GSOOptions \<Rightarrow> bool \<Rightarrow> bool \<Rightarrow> bytes \<Rightarrow> bool" where
  "gso_wf opt v4 tcp inb \<longleftrightarrow> csum_start opt = net_len v4 inb \<and> 20 \<le> csum_start opt \<and>
     (if tcp then o_CsumOffset opt = 16 \<and> csum_start opt + 20 \<le> hdr_len opt else o_CsumOffset opt = 6 \<and> hdr_len opt = csum_start opt + 8) \<and>
     0 < gso_size opt \<and> hdr_len opt \<le> length inb \<and> length inb \<le> 65535"

text \<open>The fields that every segment gets anew, apart from the identification.\<close>

definition own_field :: "GSOOptions \<Rightarrow> bool \<Rightarrow> bool \<Rightarrow> nat \<Rightarrow> bool" where
  "own_field opt v4 tcp k \<longleftrightarrow> (if v4 then k \<in> {2, 3, 10, 11} else k \<in> {4, 5}) \<or>
     csum_start opt + 4 \<le> k \<and> k < csum_start opt + 8 \<or> tcp \<and> k \<in> {csum_start opt + 13, csum_start opt + 16, csum_start opt + 17}"

definition seg_data :: "GSOOptions \<Rightarrow> bytes \<Rightarrow> nat \<Rightarrow> bytes" where
  "seg_data opt inb i = take (gso_size opt) (drop (i * gso_size opt) (drop (hdr_len opt) inb))"

definition pseudo_sum :: "bool \<Rightarrow> bool \<Rightarrow> nat \<Rightarrow> bytes \<Rightarrow> u16 \<Rightarrow> u16 option" where
  "pseudo_sum v4 tcp at p n = (
     let a = (if v4 then 12 else 8); l = (if v4 then 4 else 16) in
     PseudoHeaderChecksum (if tcp then 6 else 17) (take l (drop a p)) (take l (drop (a + l) p)) n)"

text \<open>
  The packet \<open>p\<close> is segment \<open>i\<close> of \<open>inb\<close>: its data is that part of the data of \<open>inb\<close>, the lengths in its headers are its own, the
  identification (IPv4) counts up, the sequence number (TCP) is that of its first byte, FIN and PSH are only set
  at the end, the checksums verify, and every other byte of the headers is that of \<open>inb\<close>.
\<close>

definition gso_segment :: "GSOOptions \<Rightarrow> bool \<Rightarrow> bool \<Rightarrow> bytes \<Rightarrow> nat \<Rightarrow> bytes \<Rightarrow> bool" where
  "gso_segment opt v4 tcp inb i p \<longleftrightarrow> (
     let H = hdr_len opt; C = csum_start opt; g = gso_size opt in
     length p = H + length (seg_data opt inb i) \<and> drop H p = seg_data opt inb i \<and>
     (\<forall>k < H. \<not> own_field opt v4 tcp k \<and> \<not> (v4 \<and> k \<in> {4, 5}) \<longrightarrow> p ! k = inb ! k) \<and>
     (if v4 then BE_Uint16 p 2 = Some (word_of_nat (length p)) \<and>
        BE_Uint16 p 4 = map_option (\<lambda>id. id + word_of_nat i) (BE_Uint16 inb 4) \<and> Checksum (take (net_len v4 p) p) 0 = Some 0xffff
      else BE_Uint16 p 4 = Some (word_of_nat (length p - 40))) \<and>
     (if tcp then BE_Uint32 p (C + 4) = map_option (\<lambda>s. s + word_of_nat (i * g)) (BE_Uint32 inb (C + 4)) \<and>
        p ! (C + 13) = (if H + (i + 1) * g < length inb then inb ! (C + 13) AND NOT 9 else inb ! (C + 13))
      else BE_Uint16 p (C + 4) = Some (word_of_nat (length p - C)) \<and> BE_Uint16 p (C + 6) \<noteq> Some 0) \<and>
     (pseudo_sum v4 tcp C p (word_of_nat (length p - C)) \<bind> Checksum (drop C p)) = Some 0xffff)"

section \<open>One segment\<close>

lemma put_checksum:
  assumes "even k" "k + 2 \<le> length b" "b ! k = 0" "b ! (k + 1) = 0"
    and v: "v = NOT (rfc1071 b c) \<or> v = NormalizeUDPChecksum (NOT (rfc1071 b c))"
  shows "rfc1071 (b[k := hi8 v, k + 1 := lo8 v]) c = 0xffff"
proof -
  let ?n = "unat c + sum16 b" and ?w = "NOT (rfc1071 b c)"
  have s: "sum16 (b[k := hi8 v, k + 1 := lo8 v]) = sum16 b + unat v" for v
    using sum16_put16 [OF assms(1,2), of v] assms(3,4) by simp
  have "rfc1071 (b[k := hi8 ?w, k + 1 := lo8 ?w]) c = 0xffff" by (rule rfc1071_put_complement [OF assms(1-4)])
  then have w: "65535 dvd ?n + unat ?w" "0 < ?n + unat ?w" unfolding rfc1071_valid_iff s by (simp_all add: add.assoc)
  have "65535 dvd ?n + unat v \<and> 0 < ?n + unat v"
  proof (cases "v = ?w")
    case False
    then have "?w = 0" "unat v = 65535" using v by (auto simp: NormalizeUDPChecksum_def split: if_splits)
    then show ?thesis using w by simp
  qed (use w in simp)
  then show ?thesis unfolding rfc1071_valid_iff s by (simp add: add.assoc)
qed

lemma BE_Uint16_put [simp]: "k + 2 \<le> length b \<Longrightarrow> BE_Uint16 (b[k := hi8 v, Suc k := lo8 v]) k = Some v"
  by (simp add: BE_Uint16_def)

lemma segment_ip_right:
  assumes "(if v4 then 20 else 40) \<le> unat C" "even (unat C)" "unat C \<le> length out" "unat C \<le> t"
  shows "returns (segment_ip C v4 i t out) (\<lambda>r. length r = length out \<and>
    (\<forall>k. k \<notin> (if v4 then {2, 3, 4, 5, 10, 11} else {4, 5}) \<longrightarrow> r ! k = out ! k) \<and>
    (if v4 then BE_Uint16 r 2 = Some (word_of_nat t) \<and> BE_Uint16 r 4 = map_option (\<lambda>id. id + word_of_nat i) (BE_Uint16 out 4) \<and>
       Checksum (take (unat C) r) 0 = Some 0xffff
     else BE_Uint16 r 4 = Some (word_of_nat (t - unat C))))"
proof (cases v4)
  case True
  then have l: "20 \<le> unat C" "20 \<le> length out" using assms by auto
  let ?id = "be16 (out ! 4) (out ! 5) + word_of_nat i :: u16"
  let ?o1 = "out[4 := hi8 ?id, 5 := lo8 ?id]"
  let ?o2 = "?o1[10 := 0, 11 := 0, 2 := hi8 (word_of_nat t), 3 := lo8 (word_of_nat t)]"
  let ?c = "rfc1071 (take (unat C) ?o2) 0"
  let ?o3 = "?o2[10 := hi8 (NOT ?c), 11 := lo8 (NOT ?c)]"
  have id: "(if i > 0 then do { id \<leftarrow> BE_Uint16 out 4; BE_PutUint16 out 4 (id + word_of_nat i) } else Some out) = Some ?o1"
    using l by (simp add: BE_Uint16_def BE_PutUint16_def)
  have eq: "segment_ip C v4 i t out = Some ?o3"
    unfolding segment_ip_def Let_def id using True l assms(3)
    by (simp add: set_byte_def BE_PutUint16_def slice_def exported.ck_eq del: One_nat_def)
  have "Checksum (take (unat C) ?o3) 0 = Some 0xffff"
    using put_checksum [of 10 "take (unat C) ?o2" "NOT ?c" 0] l assms(3) by (simp add: exported.ck_eq take_update_swap)
  then show ?thesis unfolding eq using True l by (simp add: BE_Uint16_def)
next
  case False
  then show ?thesis using assms by (simp add: segment_ip_def BE_PutUint16_def BE_Uint16_def Let_def)
qed

lemma gso_wfD:
  assumes "gso_wf opt v4 tcp inb"
  shows "even (csum_start opt)" "(if v4 then 20 else 40) \<le> csum_start opt" "20 \<le> csum_start opt" "csum_start opt + 8 \<le> hdr_len opt"
    "tcp \<Longrightarrow> csum_start opt + 20 \<le> hdr_len opt" "unat (o_CsumOffset opt) = (if tcp then 16 else 6)"
    "csum_start opt + unat (o_CsumOffset opt) + 2 \<le> hdr_len opt"
    "0 < gso_size opt" "hdr_len opt \<le> length inb" "length inb \<le> 65535"
    "unat (o_CsumStart opt + 4) = csum_start opt + 4" "tcp \<Longrightarrow> unat (o_CsumStart opt + 13) = csum_start opt + 13"
    "unat (o_CsumStart opt + o_CsumOffset opt) = csum_start opt + unat (o_CsumOffset opt)"
    "unat (o_HdrLen opt - o_CsumStart opt) = hdr_len opt - csum_start opt" "csum_start opt = net_len v4 inb"
proof -
  show basic: "even (csum_start opt)" "(if v4 then 20 else 40) \<le> csum_start opt" "20 \<le> csum_start opt"
    "csum_start opt + 8 \<le> hdr_len opt" "unat (o_CsumOffset opt) = (if tcp then 16 else 6)"
    "csum_start opt + unat (o_CsumOffset opt) + 2 \<le> hdr_len opt"
    "0 < gso_size opt" "hdr_len opt \<le> length inb" "length inb \<le> 65535"
    using assms by (auto simp: gso_wf_def net_len_def split: if_splits)
  show "csum_start opt = net_len v4 inb" using assms by (simp add: gso_wf_def)
  show tcp: "csum_start opt + 20 \<le> hdr_len opt" if tcp using assms that by (auto simp: gso_wf_def)
  show "unat (o_CsumStart opt + 4) = csum_start opt + 4" "unat (o_CsumStart opt + o_CsumOffset opt) = csum_start opt + unat (o_CsumOffset opt)"
    using basic by (subst unat_plus_small; simp)+
  show "unat (o_CsumStart opt + 13) = csum_start opt + 13" if tcp
    using tcp [OF that] basic by (subst unat_plus_small; simp)
  show "unat (o_HdrLen opt - o_CsumStart opt) = hdr_len opt - csum_start opt"
    using basic by (intro unat_sub) (simp add: word_le_nat_alt)
qed

lemma BE_Uint32_put: "k + 4 \<le> length b \<Longrightarrow> BE_Uint32 (put_slice k (u32_bytes v) b) k = Some v"
  by (simp add: BE_Uint32_def be_nat_u32_bytes)

lemma BE_PutUint32_slice: "k + 4 \<le> length b \<Longrightarrow> BE_PutUint32 b k v = Some (put_slice k (u32_bytes v) b)"
  by (simp add: BE_PutUint32_def put_slice_def)

lemma BE_Uint32_cong: "length a = length b \<Longrightarrow> \<forall>k. off \<le> k \<and> k < off + 4 \<longrightarrow> a ! k = b ! k \<Longrightarrow> BE_Uint32 a off = BE_Uint32 b off"
proof -
  assume l: "length a = length b" "\<forall>k. off \<le> k \<and> k < off + 4 \<longrightarrow> a ! k = b ! k"
  then have "take 4 (drop off a) = take 4 (drop off b)" by (intro nth_equalityI) auto
  then show ?thesis using l(1) by (simp add: BE_Uint32_def)
qed

lemma segment_transport_right:
  assumes wf: "gso_wf opt v4 tcp n" and l: "hdr_len opt \<le> length out"
  shows "returns (segment_transport opt tcp s f i fin dlen out) (\<lambda>r. length r = length out \<and>
    (\<forall>k. k \<notin> (if tcp then {csum_start opt + 4..<csum_start opt + 8} \<union> {csum_start opt + 13} else {csum_start opt + 4, csum_start opt + 5})
       \<longrightarrow> r ! k = out ! k) \<and>
    (if tcp then BE_Uint32 r (csum_start opt + 4) = Some (s + ucast (o_GSOSize opt * word_of_nat i)) \<and>
       r ! (csum_start opt + 13) = (if fin then f else f AND NOT 9)
     else BE_Uint16 r (csum_start opt + 4) = Some (word_of_nat (hdr_len opt - csum_start opt + dlen))))"
proof (cases tcp)
  case True
  let ?C = "csum_start opt" and ?s = "s + ucast (o_GSOSize opt * word_of_nat i) :: u32"
  let ?r = "put_slice (?C + 4) (u32_bytes ?s) out"
  have c: "?C + 20 \<le> length out" using gso_wfD(5) [OF wf True] l by simp
  have eq: "segment_transport opt tcp s f i fin dlen out = Some (?r[?C + 13 := if fin then f else f AND NOT 9])"
    using True c gso_wfD(11,12) [OF wf] by (simp add: segment_transport_def BE_PutUint32_slice set_byte_def Let_def)
  have "BE_Uint32 (?r[?C + 13 := x]) (?C + 4) = Some ?s" for x
    using BE_Uint32_cong [of "?r[?C + 13 := x]" ?r "?C + 4"] BE_Uint32_put [of "?C + 4" out ?s] c by simp
  moreover have "?r ! k = out ! k" if "k \<notin> {?C + 4..<?C + 8}" for k
    using that c by (cases "k < length out") (auto simp: nth_put_slice put_slice_def nth_append)
  ultimately show ?thesis unfolding eq using True c by simp
next
  case False
  have w: "word_of_nat dlen + (o_HdrLen opt - o_CsumStart opt) = (word_of_nat (hdr_len opt - csum_start opt + dlen) :: u16)"
    unfolding unat_eqD [OF gso_wfD(14) [OF wf]] by (simp add: add.commute)
  show ?thesis using False l gso_wfD(4,11) [OF wf]
    by (simp add: segment_transport_def BE_PutUint16_def BE_Uint16_def w)
qed

lemma segment_checksum_right:
  assumes wf: "gso_wf opt v4 tcp n" and l: "hdr_len opt + dlen \<le> length out"
  shows "returns (segment_checksum opt tcp base dlen (hdr_len opt + dlen) out) (\<lambda>r. length r = length out \<and>
    (\<forall>k. k \<notin> {csum_start opt + unat (o_CsumOffset opt), csum_start opt + unat (o_CsumOffset opt) + 1} \<longrightarrow> r ! k = out ! k) \<and>
    Checksum (take (hdr_len opt + dlen - csum_start opt) (drop (csum_start opt) r))
      (Combine base (word_of_nat (hdr_len opt + dlen - csum_start opt))) = Some 0xffff \<and>
    (\<not> tcp \<longrightarrow> BE_Uint16 r (csum_start opt + 6) \<noteq> Some 0))"
proof -
  let ?C = "csum_start opt" and ?k = "unat (o_CsumOffset opt)" and ?t = "hdr_len opt + dlen"
  note w = gso_wfD [OF wf]
  have b: "?C + ?k + 2 \<le> ?t" "even ?k" "even ?C" using w by auto
  let ?o = "out[?C + ?k := 0, Suc (?C + ?k) := 0]"
  define len where "len = (word_of_nat (?t - ?C) :: u16)"
  let ?s = "take (?t - ?C) (drop ?C ?o)" and ?i = "Combine base len"
  let ?v = "if \<not> tcp then NormalizeUDPChecksum (NOT (rfc1071 ?s ?i)) else NOT (rfc1071 ?s ?i)"
  let ?r = "?o[?C + ?k := hi8 ?v, Suc (?C + ?k) := lo8 ?v]"
  have e: "hdr_len opt - ?C + dlen = ?t - ?C" using b w by simp
  have eq: "segment_checksum opt tcp base dlen ?t out = Some ?r"
    unfolding segment_checksum_def Let_def w(13,14) e len_def [symmetric]
    using l b by (simp add: set_byte_def slice_def exported.ck_eq BE_PutUint16_def)
  have s: "take (?t - ?C) (drop ?C ?r) = ?s[?k := hi8 ?v, ?k + 1 := lo8 ?v]"
    using b by (simp add: drop_update_swap take_update_swap)
  have "rfc1071 (?s[?k := hi8 ?v, ?k + 1 := lo8 ?v]) ?i = 0xffff"
    by (rule put_checksum) (use b l in \<open>auto simp: nth_append\<close>)
  moreover have "BE_Uint16 ?r (?C + 6) \<noteq> Some 0" if "\<not> tcp"
  proof -
    have "BE_Uint16 ?r (?C + ?k) = Some ?v" by (rule BE_Uint16_put) (use b l in simp)
    moreover have "?v \<noteq> 0" using that NormalizeUDPChecksum(1) by simp
    moreover have "?k = 6" using that w(6) by simp
    ultimately show ?thesis by simp
  qed
  ultimately show ?thesis unfolding eq returns_Some s len_def [symmetric] by (simp add: exported.ck_eq)
qed

text \<open>A buffer that agrees with the packet outside the fields every segment gets anew.\<close>

definition agrees :: "GSOOptions \<Rightarrow> bool \<Rightarrow> bool \<Rightarrow> bytes \<Rightarrow> bytes \<Rightarrow> bool" where
  "agrees opt v4 tcp a b \<longleftrightarrow> length a = length b \<and> (\<forall>k < length b. \<not> own_field opt v4 tcp k \<longrightarrow> a ! k = b ! k)"

lemma own_field_less: "gso_wf opt v4 tcp inb \<Longrightarrow> own_field opt v4 tcp k \<Longrightarrow> k < hdr_len opt"
  using gso_wfD [of opt v4 tcp inb] by (auto simp: own_field_def split: if_splits)

lemma take_drop_cong:
  "length a = length b \<Longrightarrow> \<forall>k. lo \<le> k \<and> k < hi \<longrightarrow> a ! k = b ! k \<Longrightarrow> take (hi - lo) (drop lo a) = take (hi - lo) (drop lo b)"
  by (intro nth_equalityI) auto

lemma copy_into_put: "lo + length src \<le> length b \<Longrightarrow> copy_into lo (length b) src b = Some (put_slice lo src b)"
  by (simp add: copy_into_def on_slice_in go_copy_def put_slice_def add.commute)

lemma Pseudo_Combine:
  "PseudoHeaderChecksum proto src dst 0 = Some base \<Longrightarrow> PseudoHeaderChecksum proto src dst n = Some (Combine base n)"
  by (auto simp: PseudoHeaderChecksum_Some Combine_eq unat_of_nat_u16 ac_simps)

lemma ucast_product:
  assumes "i * unat g < 65536"
  shows "(ucast ((g :: u16) * word_of_nat i) :: u32) = word_of_nat (i * unat g)"
proof (cases "g = 0")
  case False
  then have "0 < unat g" by (simp add: unat_gt_0)
  then have "i \<le> i * unat g" by simp
  then have "i < 65536" using assms by linarith
  then have "unat (g * word_of_nat i) = i * unat g"
    using assms by (simp add: unat_word_ariths unat_of_nat_u16 mult.commute)
  then show ?thesis using assms unfolding word_unat_eq_iff by (simp add: unat_ucast_mod unat_of_nat_u32 del: of_nat_mult)
qed simp

text \<open>The bytes of a segment in its buffer, before they are read as a packet.\<close>

lemma segment_bytes:
  assumes wf: "gso_wf opt v4 tcp in0" and ag: "agrees opt v4 tcp inb in0"
    and at: "hdr_len opt \<le> at" "at \<le> e" "e \<le> length in0" and out: "hdr_len opt + (e - at) \<le> length out"
    and here: "here \<longrightarrow> length inb \<le> length out \<and> take (length inb) out = inb"
  obtains r where "segment here opt v4 tcp s f base i at e inb out = Some r" "length r = length out"
    "\<And>k. hdr_len opt + (e - at) \<le> k \<Longrightarrow> r ! k = out ! k"
    "take (e - at) (drop (hdr_len opt) r) = take (e - at) (drop at in0)"
    "\<And>k. k < hdr_len opt \<Longrightarrow> \<not> own_field opt v4 tcp k \<Longrightarrow> \<not> (v4 \<and> k \<in> {4, 5}) \<Longrightarrow> r ! k = in0 ! k"
    "if v4 then BE_Uint16 r 2 = Some (word_of_nat (hdr_len opt + (e - at))) \<and>
        BE_Uint16 r 4 = map_option (\<lambda>id. id + word_of_nat i) (BE_Uint16 in0 4) \<and> Checksum (take (csum_start opt) r) 0 = Some 0xffff
      else BE_Uint16 r 4 = Some (word_of_nat (hdr_len opt + (e - at) - csum_start opt))"
    "if tcp then BE_Uint32 r (csum_start opt + 4) = Some (s + ucast (o_GSOSize opt * word_of_nat i)) \<and>
        r ! (csum_start opt + 13) = (if e = length in0 then f else f AND NOT 9)
      else BE_Uint16 r (csum_start opt + 4) = Some (word_of_nat (hdr_len opt - csum_start opt + (e - at))) \<and>
        BE_Uint16 r (csum_start opt + 6) \<noteq> Some 0"
    "Checksum (take (hdr_len opt + (e - at) - csum_start opt) (drop (csum_start opt) r))
      (Combine base (word_of_nat (hdr_len opt + (e - at) - csum_start opt))) = Some 0xffff"
proof -
  let ?H = "hdr_len opt" and ?C = "csum_start opt" and ?t = "hdr_len opt + (e - at)" and ?k = "unat (o_CsumOffset opt)"
  let ?d = "take (e - at) (drop at in0)"
  note w = gso_wfD [OF wf]
  have li: "length inb = length in0" using ag by (simp add: agrees_def)
  let ?o1 = "put_slice 0 (take ?H inb) out"
  have l1: "length (take ?H inb) = ?H" "length ?o1 = length out" using w(9) li out by auto
  have n1: "?o1 ! k = (if k < ?H then inb ! k else out ! k)" for k
    using l1 out by (cases "k < length out") (auto simp: nth_put_slice put_slice_def nth_append)
  obtain o2 where o2: "segment_ip (o_CsumStart opt) v4 i ?t ?o1 = Some o2" "length o2 = length out"
      "\<And>k. k \<notin> (if v4 then {2, 3, 4, 5, 10, 11} else {4, 5}) \<Longrightarrow> o2 ! k = ?o1 ! k"
      "if v4 then BE_Uint16 o2 2 = Some (word_of_nat ?t) \<and> BE_Uint16 o2 4 = map_option (\<lambda>id. id + word_of_nat i) (BE_Uint16 ?o1 4) \<and>
         Checksum (take ?C o2) 0 = Some 0xffff else BE_Uint16 o2 4 = Some (word_of_nat (?t - ?C))"
    using segment_ip_right [OF w(2,1), of ?o1 ?t i] l1 w(4) out unfolding returns_iff by auto
  obtain o3 where o3: "segment_transport opt tcp s f i (e = length inb) (e - at) o2 = Some o3" "length o3 = length out"
      "\<And>k. k \<notin> (if tcp then {?C + 4..<?C + 8} \<union> {?C + 13} else {?C + 4, ?C + 5}) \<Longrightarrow> o3 ! k = o2 ! k"
      "if tcp then BE_Uint32 o3 (?C + 4) = Some (s + ucast (o_GSOSize opt * word_of_nat i)) \<and>
         o3 ! (?C + 13) = (if e = length inb then f else f AND NOT 9)
       else BE_Uint16 o3 (?C + 4) = Some (word_of_nat (?H - ?C + (e - at)))"
    using segment_transport_right [OF wf, of o2 s f i "e = length inb" "e - at"] o2(2) out unfolding returns_iff by auto
  have hi: "o3 ! k = out ! k" if "?H \<le> k" for k
  proof -
    have "k \<notin> (if tcp then {?C + 4..<?C + 8} \<union> {?C + 13} else {?C + 4, ?C + 5})" "k \<notin> (if v4 then {2, 3, 4, 5, 10, 11} else {4, 5})"
      using w(3,4,5) that by auto
    then show ?thesis using o3(3) [of k] o2(3) [of k] n1 [of k] that by simp
  qed
  have d: "slice (if here then take (length inb) o3 else inb) at e = Some ?d"
  proof -
    let ?S = "if here then take (length inb) o3 else inb"
    have "length ?S = length in0" using here li o3(2) by auto
    moreover have "?S ! k = in0 ! k" if "at \<le> k" "k < e" for k
    proof -
      have k: "?H \<le> k" "k < length in0" using that at by auto
      then have "inb ! k = in0 ! k" using ag own_field_less [OF wf, of k] by (auto simp: agrees_def)
      moreover have "here \<Longrightarrow> o3 ! k = inb ! k" using hi [OF k(1)] here k li by (metis nth_take)
      ultimately show ?thesis using k li by simp
    qed
    ultimately show ?thesis using at take_drop_cong [of ?S in0 at e] by (simp add: slice_def)
  qed
  let ?o4 = "put_slice ?H ?d o3"
  have ld: "length ?d = e - at" using at by simp
  have l4: "length ?o4 = length out" using ld out o3(2) by simp
  have n4: "?o4 ! k = (if ?H \<le> k \<and> k < ?t then ?d ! (k - ?H) else o3 ! k)" for k
    using ld out o3(2) by (cases "k < length out") (auto simp: nth_put_slice put_slice_def nth_append)
  obtain r where r: "segment_checksum opt tcp base (e - at) ?t ?o4 = Some r" "length r = length out"
      "\<And>k. k \<notin> {?C + ?k, ?C + ?k + 1} \<Longrightarrow> r ! k = ?o4 ! k"
      "Checksum (take (?t - ?C) (drop ?C r)) (Combine base (word_of_nat (?t - ?C))) = Some 0xffff"
      "\<not> tcp \<longrightarrow> BE_Uint16 r (?C + 6) \<noteq> Some 0"
    using segment_checksum_right [OF wf, of "e - at" ?o4 base] l4 out unfolding returns_iff by auto
  have eq: "segment here opt v4 tcp s f base i at e inb out = Some r"
    unfolding segment_def Let_def using d o2(1) o3(1) r(1) l1 li w(9) out o3(2) copy_into_put [of ?H ?d o3] ld
    by (simp add: slice_def copy_into_same)
  have csum: "?C + ?k + 1 < ?H" "?C \<le> ?H" "20 \<le> ?C" "?H \<le> length out" using w(7,3,4) out by simp_all
  have lo: "r ! k = o3 ! k" if "k < ?H" "k \<notin> {?C + ?k, ?C + ?k + 1}" for k
    using r(3) [OF that(2)] n4 [of k] that(1) by simp
  have ip: "r ! k = o2 ! k" if "k < ?C" for k
  proof -
    have "k \<notin> (if tcp then {?C + 4..<?C + 8} \<union> {?C + 13} else {?C + 4, ?C + 5})" using that by auto
    then show ?thesis using lo [of k] o3(3) [of k] that csum by simp
  qed
  have ip16: "BE_Uint16 r k = BE_Uint16 o2 k" if "k + 2 \<le> ?C" for k
    using ip [of k] ip [of "k + 1"] that r(2) o2(2) by (simp add: BE_Uint16_def)
  show ?thesis
  proof (rule that [OF eq r(2) _ _ _ _ _ r(4)])
    show "r ! k = out ! k" if "?t \<le> k" for k using r(3) [of k] n4 [of k] hi [of k] csum that by auto
    show "take (e - at) (drop ?H r) = ?d"
      using ld r(2) out csum r(3) n4 by (intro nth_equalityI) auto
    show "r ! k = in0 ! k" if k: "k < ?H" "\<not> own_field opt v4 tcp k" "\<not> (v4 \<and> k \<in> {4, 5})" for k
    proof -
      have "k \<notin> {?C + ?k, ?C + ?k + 1}" "k \<notin> (if tcp then {?C + 4..<?C + 8} \<union> {?C + 13} else {?C + 4, ?C + 5})"
          "k \<notin> (if v4 then {2, 3, 4, 5, 10, 11} else {4, 5})"
        using k(2,3) w(6) by (auto simp: own_field_def split: if_splits)
      then have "r ! k = inb ! k" using lo [OF k(1)] o3(3) [of k] o2(3) [of k] n1 [of k] k(1) by simp
      then show ?thesis using ag k(1,2) w(9) by (simp add: agrees_def)
    qed
    have C: "take ?C r = take ?C o2" using ip r(2) o2(2) csum by (intro nth_equalityI) auto
    have id: "BE_Uint16 ?o1 4 = BE_Uint16 in0 4" if v4
    proof -
      have "\<not> own_field opt v4 tcp 4" "\<not> own_field opt v4 tcp 5" using that w(3) by (auto simp: own_field_def)
      then have "inb ! 4 = in0 ! 4" "inb ! 5 = in0 ! 5" using ag w(9) csum by (auto simp: agrees_def)
      then show ?thesis using n1 [of 4] n1 [of 5] csum l1(2) w(9) by (simp add: BE_Uint16_def)
    qed
    show "if v4 then BE_Uint16 r 2 = Some (word_of_nat ?t) \<and>
        BE_Uint16 r 4 = map_option (\<lambda>id. id + word_of_nat i) (BE_Uint16 in0 4) \<and> Checksum (take ?C r) 0 = Some 0xffff
      else BE_Uint16 r 4 = Some (word_of_nat (?t - ?C))"
      using o2(4) ip16 [of 2] ip16 [of 4] csum C id by (cases v4) simp_all
    show "if tcp then BE_Uint32 r (?C + 4) = Some (s + ucast (o_GSOSize opt * word_of_nat i)) \<and>
        r ! (?C + 13) = (if e = length in0 then f else f AND NOT 9)
      else BE_Uint16 r (?C + 4) = Some (word_of_nat (?H - ?C + (e - at))) \<and> BE_Uint16 r (?C + 6) \<noteq> Some 0"
    proof (cases tcp)
      case True
      then have k: "?k = 16" "?C + 20 \<le> ?H" using w(5,6) by auto
      have "BE_Uint32 r (?C + 4) = BE_Uint32 o3 (?C + 4)"
        by (rule BE_Uint32_cong) (use r(2) o3(2) lo k in auto)
      then show ?thesis using True o3(4) lo [of "?C + 13"] k li by simp
    next
      case False
      then have k: "?k = 6" using w(6) by simp
      have "BE_Uint16 r (?C + 4) = BE_Uint16 o3 (?C + 4)"
        using lo [of "?C + 4"] lo [of "5 + ?C"] k csum r(2) o3(2) by (simp add: BE_Uint16_def)
      then show ?thesis using False o3(4) r(5) by simp
    qed
  qed
qed

lemma segment_right:
  assumes wf: "gso_wf opt v4 tcp in0" and ag: "agrees opt v4 tcp inb in0"
    and at: "at = hdr_len opt + i * gso_size opt" "at < length in0" "e = min (at + gso_size opt) (length in0)"
    and out: "hdr_len opt + (e - at) \<le> length out"
    and here: "here \<longrightarrow> length inb \<le> length out \<and> take (length inb) out = inb"
    and s: "tcp \<longrightarrow> BE_Uint32 in0 (csum_start opt + 4) = Some s \<and> f = in0 ! (csum_start opt + 13)"
    and base: "pseudo_sum v4 tcp (csum_start opt) in0 0 = Some base"
  shows "returns (segment here opt v4 tcp s f base i at e inb out) (\<lambda>r. length r = length out \<and>
    drop (hdr_len opt + (e - at)) r = drop (hdr_len opt + (e - at)) out \<and>
    gso_segment opt v4 tcp in0 i (take (hdr_len opt + (e - at)) r))"
proof -
  let ?H = "hdr_len opt" and ?C = "csum_start opt" and ?t = "hdr_len opt + (e - at)"
  note w = gso_wfD [OF wf]
  have e: "?H \<le> at" "at \<le> e" "e \<le> length in0" using at by auto
  obtain r where r: "segment here opt v4 tcp s f base i at e inb out = Some r" "length r = length out"
    "\<And>k. ?t \<le> k \<Longrightarrow> r ! k = out ! k" "take (e - at) (drop ?H r) = take (e - at) (drop at in0)"
    "\<And>k. k < ?H \<Longrightarrow> \<not> own_field opt v4 tcp k \<Longrightarrow> \<not> (v4 \<and> k \<in> {4, 5}) \<Longrightarrow> r ! k = in0 ! k"
    "if v4 then BE_Uint16 r 2 = Some (word_of_nat ?t) \<and>
        BE_Uint16 r 4 = map_option (\<lambda>id. id + word_of_nat i) (BE_Uint16 in0 4) \<and> Checksum (take ?C r) 0 = Some 0xffff
      else BE_Uint16 r 4 = Some (word_of_nat (?t - ?C))"
    "if tcp then BE_Uint32 r (?C + 4) = Some (s + ucast (o_GSOSize opt * word_of_nat i)) \<and>
        r ! (?C + 13) = (if e = length in0 then f else f AND NOT 9)
      else BE_Uint16 r (?C + 4) = Some (word_of_nat (?H - ?C + (e - at))) \<and> BE_Uint16 r (?C + 6) \<noteq> Some 0"
    "Checksum (take (?t - ?C) (drop ?C r)) (Combine base (word_of_nat (?t - ?C))) = Some 0xffff"
    by (rule segment_bytes [OF wf ag e out here]) (rule that; assumption)
  let ?p = "take ?t r"
  have lp: "length ?p = ?t" using r(2) out by simp
  have data: "seg_data opt in0 i = take (e - at) (drop at in0)"
    using at by (simp add: seg_data_def add.commute min_def)
  have ld: "length (seg_data opt in0 i) = e - at" unfolding data using e by simp
  have p16: "BE_Uint16 ?p k = BE_Uint16 r k" if "k + 2 \<le> ?H" for k
    using that lp r(2) out by (simp add: BE_Uint16_def)
  have p32: "BE_Uint32 ?p k = BE_Uint32 r k" if "k + 4 \<le> ?H" for k
    using that lp r(2) out by (simp add: BE_Uint32_def drop_take min_def)
  have addr: "take l (drop a ?p) = take l (drop a in0)" if "a + l \<le> ?C" "12 \<le> a \<or> \<not> v4 \<and> 8 \<le> a" for a l
  proof (rule nth_equalityI)
    fix j assume j: "j < length (take l (drop a ?p))"
    then have k: "a + j < ?H" "a + j < ?C" "j < l" using that(1) w(4) by auto
    have "\<not> own_field opt v4 tcp (a + j)" "\<not> (v4 \<and> a + j \<in> {4, 5})" using that(2) k w(3) by (auto simp: own_field_def split: if_splits)
    then show "take l (drop a ?p) ! j = take l (drop a in0) ! j" using r(5) [OF k(1)] k lp w(9) r(2) out that(1) by simp
  qed (use lp that(1) w(4,9) in simp)
  have pseudo: "pseudo_sum v4 tcp ?C ?p n = Some (Combine base n)" for n
    using base addr w(2) Pseudo_Combine unfolding pseudo_sum_def Let_def by (cases v4) simp_all
  have csum: "drop ?C ?p = take (?t - ?C) (drop ?C r)" by (simp add: drop_take)
  have fin: "e = length in0 \<longleftrightarrow> \<not> ?H + (i + 1) * gso_size opt < length in0" using at by (auto simp: min_def)
  have seq: "ucast (o_GSOSize opt * word_of_nat i) = (word_of_nat (i * gso_size opt) :: u32)"
    using at w(10) by (intro ucast_product) simp
  have net: "if v4 then BE_Uint16 ?p 2 = Some (word_of_nat ?t) \<and>
      BE_Uint16 ?p 4 = map_option (\<lambda>id. id + word_of_nat i) (BE_Uint16 in0 4) \<and> Checksum (take ?C ?p) 0 = Some 0xffff
    else BE_Uint16 ?p 4 = Some (word_of_nat (?t - ?C))"
    using r(6) p16 [of 2] p16 [of 4] w(3,4) by (cases v4) (simp_all add: min_def)
  have trans: "if tcp then BE_Uint32 ?p (?C + 4) = map_option (\<lambda>s. s + word_of_nat (i * gso_size opt)) (BE_Uint32 in0 (?C + 4)) \<and>
      ?p ! (?C + 13) = (if ?H + (i + 1) * gso_size opt < length in0 then in0 ! (?C + 13) AND NOT 9 else in0 ! (?C + 13))
    else BE_Uint16 ?p (?C + 4) = Some (word_of_nat (?t - ?C)) \<and> BE_Uint16 ?p (?C + 6) \<noteq> Some 0"
    using r(7) s p32 [of "?C + 4"] p16 [of "?C + 4"] p16 [of "?C + 6"] w(4,5) lp unfolding seq fin
    by (cases tcp) (simp_all del: of_nat_mult of_nat_add of_nat_diff)
  have nl: "net_len v4 ?p = ?C" "\<not> v4 \<Longrightarrow> ?C = 40"
    using w(3,4,15) r(5) [of 0] by (auto simp: net_len_def own_field_def split: if_splits)
  have "gso_segment opt v4 tcp in0 i ?p"
    unfolding gso_segment_def Let_def lp ld
    using net trans r(4,5,8) pseudo csum data nl by (cases v4; cases tcp) (simp_all add: drop_take del: of_nat_mult of_nat_add of_nat_diff)
  moreover have "drop ?t r = drop ?t out" using r(2,3) by (intro nth_equalityI) auto
  ultimately show ?thesis using r(1,2) by simp
qed

section \<open>The loop\<close>

lemma segment_keeps:
  assumes wf: "gso_wf opt v4 tcp in0" and ag: "agrees opt v4 tcp inb in0"
    and p: "gso_segment opt v4 tcp in0 0 (take t r)" "t = hdr_len opt + length (seg_data opt in0 0)"
    and r: "length inb \<le> length r" "drop t r = drop t out" "length r = length out" "take (length inb) out = inb"
  shows "agrees opt v4 tcp (take (length inb) r) in0"
proof -
  note w = gso_wfD [OF wf]
  let ?H = "hdr_len opt"
  have li: "length inb = length in0" using ag by (simp add: agrees_def)
  have t: "t \<le> length in0" "?H \<le> t" using p(2) w(9) by (auto simp: seg_data_def)
  have lp: "length (take t r) = t" using t r(1) li by simp
  have "r ! k = in0 ! k" if k: "k < length in0" "\<not> own_field opt v4 tcp k" for k
  proof -
    consider "k < ?H" "\<not> (v4 \<and> k \<in> {4, 5})" | "v4" "k \<in> {4, 5}" | "?H \<le> k" "k < t" | "t \<le> k" by fastforce
    then show ?thesis
    proof cases
      case 1
      then have "take t r ! k = in0 ! k" using p(1) k(2) by (auto simp: gso_segment_def Let_def)
      then show ?thesis using 1 t by simp
    next
      case 2
      then have "BE_Uint16 (take t r) 4 = BE_Uint16 in0 4" using p(1) by (simp add: gso_segment_def Let_def option.map_ident)
      moreover have "6 \<le> t" "6 \<le> length in0" using t w(3,4) by auto
      ultimately have "be16 (r ! 4) (r ! 5) = be16 (in0 ! 4) (in0 ! 5)" using lp by (simp add: BE_Uint16_def split: if_splits)
      then show ?thesis using 2 by (metis hi8_be16 lo8_be16 insertE singletonD)
    next
      case 3
      have "drop ?H (take t r) = seg_data opt in0 0" using p(1) by (simp add: gso_segment_def Let_def)
      then have "drop ?H (take t r) ! (k - ?H) = seg_data opt in0 0 ! (k - ?H)" by simp
      moreover have "k - ?H < gso_size opt" using 3 p(2) by (auto simp: seg_data_def)
      ultimately show ?thesis using 3 t lp k(1) by (simp add: seg_data_def)
    next
      case 4
      have "r ! k = drop t r ! (k - t)" "out ! k = drop t out ! (k - t)" using 4 k li r(1,3) by (simp_all add: less_imp_le)
      then have "r ! k = out ! k" using r(2) by simp
      then have "r ! k = inb ! k" using r(4) k(1) li by (metis nth_take)
      then show ?thesis using ag k by (simp add: agrees_def)
    qed
  qed
  then show ?thesis using r(1) li by (simp add: agrees_def)
qed

lemma segment_at_right:
  assumes wf: "gso_wf opt v4 tcp in0" and ag: "agrees opt v4 tcp inb in0"
    and i: "i < length outBufs" "i < length sizes" "hdr_len opt + i * gso_size opt < length in0"
    and room: "off + hdr_len opt + gso_size opt \<le> length (outBufs ! i)"
    and ov: "overlap \<and> i = 0 \<longrightarrow> off + length inb \<le> length (outBufs ! 0) \<and> take (length inb) (drop off (outBufs ! 0)) = inb"
    and s: "tcp \<longrightarrow> BE_Uint32 in0 (csum_start opt + 4) = Some s \<and> f = in0 ! (csum_start opt + 13)"
    and base: "pseudo_sum v4 tcp (csum_start opt) in0 0 = Some base"
  obtains inb' out where "segment_at overlap opt v4 tcp s f base off i (hdr_len opt + i * gso_size opt) (inb, outBufs, sizes) =
      Some (inb', outBufs[i := out], sizes[i := hdr_len opt + length (seg_data opt in0 i)])"
    "agrees opt v4 tcp inb' in0" "length out = length (outBufs ! i)"
    "gso_segment opt v4 tcp in0 i (take (hdr_len opt + length (seg_data opt in0 i)) (drop off out))"
proof -
  let ?at = "hdr_len opt + i * gso_size opt"
  let ?e = "min (?at + gso_size opt) (length inb)"
  have li: "length inb = length in0" using ag by (simp add: agrees_def)
  have d: "?e - ?at = length (seg_data opt in0 i)" using i(3) li by (auto simp: seg_data_def min_def)
  let ?b = "outBufs ! i" and ?here = "overlap \<and> i = 0" and ?t = "hdr_len opt + length (seg_data opt in0 i)"
  have room2: "?t \<le> length (drop off ?b)" using room by (simp add: seg_data_def)
  have "returns (segment ?here opt v4 tcp s f base i ?at ?e inb (drop off ?b)) (\<lambda>r. length r = length (drop off ?b) \<and>
      drop (hdr_len opt + (?e - ?at)) r = drop (hdr_len opt + (?e - ?at)) (drop off ?b) \<and>
      gso_segment opt v4 tcp in0 i (take (hdr_len opt + (?e - ?at)) r))"
    by (rule segment_right [OF wf ag refl i(3) _ _ _ s base]) (use li room2 ov d in auto)
  then obtain r where r: "segment ?here opt v4 tcp s f base i ?at ?e inb (drop off ?b) = Some r"
      "length r = length (drop off ?b)" "drop ?t r = drop ?t (drop off ?b)" "gso_segment opt v4 tcp in0 i (take ?t r)"
    unfolding d returns_iff by blast
  let ?inb = "if ?here then take (length inb) r else inb"
  have "segment_at overlap opt v4 tcp s f base off i ?at (inb, outBufs, sizes) =
      Some (?inb, outBufs[i := take off ?b @ r], sizes[i := ?t])"
    unfolding segment_at_def Let_def prod.case using r(1) i room d by (simp add: store_def elem_def slice_from_def)
  moreover have "agrees opt v4 tcp ?inb in0"
  proof (cases ?here)
    case True
    then show ?thesis using segment_keeps [OF wf ag, of ?t r "drop off ?b"] r ov by auto
  qed (use ag in auto)
  ultimately show ?thesis using that [of ?inb "take off ?b @ r"] r(2,4) room by simp
qed

definition segments :: "GSOOptions \<Rightarrow> nat \<Rightarrow> nat" where
  "segments opt n = (n - hdr_len opt + gso_size opt - 1) div gso_size opt"

lemma segments_iff:
  assumes "0 < gso_size opt" "hdr_len opt \<le> n"
  shows "i < segments opt n \<longleftrightarrow> hdr_len opt + i * gso_size opt < n"
proof -
  let ?g = "gso_size opt" and ?m = "n - hdr_len opt"
  have "i < (?m + ?g - 1) div ?g \<longleftrightarrow> Suc i * ?g \<le> ?m + ?g - 1"
    using assms(1) by (simp add: less_eq_div_iff_mult_less_eq Suc_le_eq [symmetric] del: mult_Suc)
  also have "\<dots> \<longleftrightarrow> i * ?g < ?m" using assms(1) by auto
  finally show ?thesis using assms by (auto simp: segments_def)
qed

lemma gso_loop_right:
  assumes wf: "gso_wf opt v4 tcp in0"
    and s: "tcp \<longrightarrow> BE_Uint32 in0 (csum_start opt + 4) = Some s \<and> f = in0 ! (csum_start opt + 13)"
    and base: "pseudo_sum v4 tcp (csum_start opt) in0 0 = Some base"
    and n: "n = segments opt (length in0)"
  shows "i \<le> n \<Longrightarrow> agrees opt v4 tcp inb in0 \<Longrightarrow> n \<le> length outBufs \<Longrightarrow> n \<le> length sizes \<Longrightarrow>
    (\<forall>j < n. off + hdr_len opt + gso_size opt \<le> length (outBufs ! j)) \<Longrightarrow>
    (overlap \<and> i = 0 \<longrightarrow> off + length inb \<le> length (outBufs ! 0) \<and> take (length inb) (drop off (outBufs ! 0)) = inb) \<Longrightarrow>
    \<exists>inb' outBufs' sizes'. gso_loop overlap opt v4 tcp s f base off i (hdr_len opt + i * gso_size opt) (inb, outBufs, sizes) =
      Some ((inb', outBufs', sizes'), int n, None) \<and> length outBufs' = length outBufs \<and> length sizes' = length sizes \<and>
      (\<forall>j. i \<le> j \<and> j < n \<longrightarrow> sizes' ! j = hdr_len opt + length (seg_data opt in0 j) \<and>
         gso_segment opt v4 tcp in0 j (take (sizes' ! j) (drop off (outBufs' ! j)))) \<and>
      (\<forall>j. j < i \<or> n \<le> j \<longrightarrow> outBufs' ! j = outBufs ! j \<and> sizes' ! j = sizes ! j)"
proof (induction "n - i" arbitrary: i inb outBufs sizes)
  case 0
  have "\<not> hdr_len opt + i * gso_size opt < length in0" using 0(1) segments_iff [of opt "length in0" i] gso_wfD [OF wf] n by auto
  then show ?case using 0 by (subst gso_loop.simps) (auto simp: agrees_def)
next
  case (Suc k)
  note w = gso_wfD [OF wf]
  have i: "i < n" using Suc(2) by simp
  then have at: "hdr_len opt + i * gso_size opt < length in0" using segments_iff [OF w(8,9)] n by simp
  have li: "length inb = length in0" using Suc.prems(2) by (simp add: agrees_def)
  obtain inb' out where st: "segment_at overlap opt v4 tcp s f base off i (hdr_len opt + i * gso_size opt) (inb, outBufs, sizes) =
      Some (inb', outBufs[i := out], sizes[i := hdr_len opt + length (seg_data opt in0 i)])"
    "agrees opt v4 tcp inb' in0" "length out = length (outBufs ! i)"
    "gso_segment opt v4 tcp in0 i (take (hdr_len opt + length (seg_data opt in0 i)) (drop off out))"
    by (rule segment_at_right [OF wf Suc.prems(2) _ _ at _ _ s base, of outBufs sizes off overlap])
      (use i Suc.prems in \<open>auto intro: that\<close>)
  let ?o = "outBufs[i := out]" and ?z = "sizes[i := hdr_len opt + length (seg_data opt in0 i)]"
  have k: "k = n - Suc i" "Suc i \<le> n" "n \<le> length ?o" "n \<le> length ?z" using Suc(2) i Suc.prems by simp_all
  have room: "\<forall>j < n. off + hdr_len opt + gso_size opt \<le> length (?o ! j)"
    using Suc.prems(5) st(3) i Suc.prems(3) by (simp add: nth_list_update)
  obtain inb2 o2 z2 where IH: "gso_loop overlap opt v4 tcp s f base off (Suc i) (hdr_len opt + Suc i * gso_size opt) (inb', ?o, ?z) =
      Some ((inb2, o2, z2), int n, None)" "length o2 = length ?o" "length z2 = length ?z"
      "\<forall>j. Suc i \<le> j \<and> j < n \<longrightarrow> z2 ! j = hdr_len opt + length (seg_data opt in0 j) \<and>
         gso_segment opt v4 tcp in0 j (take (z2 ! j) (drop off (o2 ! j)))"
      "\<forall>j. j < Suc i \<or> n \<le> j \<longrightarrow> o2 ! j = ?o ! j \<and> z2 ! j = ?z ! j"
    using Suc.hyps(1) [OF k(1,2) st(2) k(3,4) room] by blast
  have "gso_loop overlap opt v4 tcp s f base off i (hdr_len opt + i * gso_size opt) (inb, outBufs, sizes) =
      Some ((inb2, o2, z2), int n, None)"
    using IH(1) st(1) at li i Suc.prems by (subst gso_loop.simps) (simp add: ac_simps)
  moreover have "z2 ! j = hdr_len opt + length (seg_data opt in0 j) \<and>
      gso_segment opt v4 tcp in0 j (take (z2 ! j) (drop off (o2 ! j)))" if "i \<le> j" "j < n" for j
  proof (cases "j = i")
    case True
    then show ?thesis using IH(5) st(4) i Suc.prems by simp
  next
    case False
    then have "Suc i \<le> j" using that by simp
    then show ?thesis using IH(4) that(2) by blast
  qed
  moreover have "\<forall>j. j < i \<or> n \<le> j \<longrightarrow> o2 ! j = outBufs ! j \<and> z2 ! j = sizes ! j" using IH(5) i by auto
  moreover have "length o2 = length outBufs" "length z2 = length sizes" using IH(2,3) by simp_all
  ultimately show ?case by blast
qed

lemma concat_chunks: "concat (map (\<lambda>j. take g (drop (j * g) d)) [0..<n]) = take (n * g) d"
proof (induction n)
  case (Suc n)
  then show ?case using take_add [of "n * g" g d] by (simp add: add.commute)
qed simp

section \<open>Splitting a packet\<close>

text \<open>A packet whose version and type agree with the options.\<close>

definition gso_packet :: "GSOOptions \<Rightarrow> bool \<Rightarrow> bool \<Rightarrow> bytes \<Rightarrow> bool" where
  "gso_packet opt v4 tcp inb \<longleftrightarrow> gso_wf opt v4 tcp inb \<and> hdr_len opt + gso_size opt \<le> length inb \<and>
     drop_bit 4 (inb ! 0) = (if v4 then 4 else 6) \<and>
     o_GSOType opt = (if \<not> tcp then GSOUDPL4 else if v4 then GSOTCPv4 else GSOTCPv6)"

lemma GSOSplit_loop:
  assumes "gso_packet opt v4 tcp inb"
  obtains s f base where "tcp \<longrightarrow> BE_Uint32 inb (csum_start opt + 4) = Some s \<and> f = inb ! (csum_start opt + 13)"
    "pseudo_sum v4 tcp (csum_start opt) inb 0 = Some base"
    "GSOSplit overlap inb opt outBufs sizes off = gso_loop overlap opt v4 tcp s f base off 0 (hdr_len opt) (inb, outBufs, sizes)"
proof -
  have wf: "gso_wf opt v4 tcp inb" and p: "hdr_len opt + gso_size opt \<le> length inb" "drop_bit 4 (inb ! 0) = (if v4 then 4 else 6)"
    "o_GSOType opt = (if \<not> tcp then GSOUDPL4 else if v4 then GSOTCPv4 else GSOTCPv6)"
    using assms by (auto simp: gso_packet_def)
  note w = gso_wfD [OF wf]
  let ?C = "csum_start opt"
  have l: "(if v4 then 20 else 40) \<le> length inb" "20 \<le> length inb" using w(2,3,4,9) by auto
  obtain base where ps: "pseudo_sum v4 tcp ?C inb 0 = Some base" by (simp add: pseudo_sum_def Let_def PseudoHeaderChecksum_Some)
  obtain s f where sf: "(if tcp then BE_Uint32 inb (?C + 4) else Some 0) = Some s" "(if tcp then byte_at inb (?C + 13) else Some 0) = Some f"
    using w(5,9) that by (cases tcp) (simp_all add: BE_Uint32_def byte_at_def)
  have "\<not> ?C + unat (o_CsumOffset opt) + 1 \<ge> length inb" "\<not> length inb - hdr_len opt < gso_size opt" using w(7,9) p(1) by simp_all
  moreover have "\<not> o_HdrLen opt < o_CsumStart opt" using w(4) by (simp add: word_less_nat_alt)
  moreover have "\<not> (tcp \<and> length inb < ?C + 20)" using w(5,9) by auto
  moreover have "byte_at inb 0 = Some (inb ! 0)" using l(2) by (auto simp: byte_at_def)
  ultimately have "GSOSplit overlap inb opt outBufs sizes off = gso_loop overlap opt v4 tcp s f base off 0 (hdr_len opt) (inb, outBufs, sizes)"
    using p ps w(9,11,12) l sf
    by (cases v4; cases tcp) (simp_all add: GSOSplit_def Let_def pseudo_sum_def slice_def)
  then show ?thesis using that [of s f base] ps sf w(5,9) by (auto simp: byte_at_def split: if_splits)
qed

lemma GSOSplit_right:
  assumes p: "gso_packet opt v4 tcp inb" and n: "n = segments opt (length inb)"
    and room: "n \<le> length outBufs" "n \<le> length sizes" "\<forall>j < n. off + hdr_len opt + gso_size opt \<le> length (outBufs ! j)"
    and ov: "overlap \<longrightarrow> off + length inb \<le> length (outBufs ! 0) \<and> take (length inb) (drop off (outBufs ! 0)) = inb"
  shows "\<exists>inb' outBufs' sizes'. GSOSplit overlap inb opt outBufs sizes off = Some ((inb', outBufs', sizes'), int n, None) \<and>
    length outBufs' = length outBufs \<and> length sizes' = length sizes \<and>
    (\<forall>j. j < n \<longrightarrow> gso_segment opt v4 tcp inb j (take (sizes' ! j) (drop off (outBufs' ! j)))) \<and>
    concat (map (\<lambda>j. drop (hdr_len opt) (take (sizes' ! j) (drop off (outBufs' ! j)))) [0..<n]) = drop (hdr_len opt) inb \<and>
    (\<forall>j \<ge> n. outBufs' ! j = outBufs ! j \<and> sizes' ! j = sizes ! j)"
proof -
  have wf: "gso_wf opt v4 tcp inb" using p by (simp add: gso_packet_def)
  note w = gso_wfD [OF wf]
  obtain s f base where s: "tcp \<longrightarrow> BE_Uint32 inb (csum_start opt + 4) = Some s \<and> f = inb ! (csum_start opt + 13)"
    "pseudo_sum v4 tcp (csum_start opt) inb 0 = Some base"
    "GSOSplit overlap inb opt outBufs sizes off = gso_loop overlap opt v4 tcp s f base off 0 (hdr_len opt) (inb, outBufs, sizes)"
    by (rule GSOSplit_loop [OF p])
  have "agrees opt v4 tcp inb inb" by (simp add: agrees_def)
  then obtain inb' outBufs' sizes' where r: "GSOSplit overlap inb opt outBufs sizes off = Some ((inb', outBufs', sizes'), int n, None)"
    "length outBufs' = length outBufs" "length sizes' = length sizes"
    "\<forall>j < n. sizes' ! j = hdr_len opt + length (seg_data opt inb j) \<and>
       gso_segment opt v4 tcp inb j (take (sizes' ! j) (drop off (outBufs' ! j)))"
    "\<forall>j \<ge> n. outBufs' ! j = outBufs ! j \<and> sizes' ! j = sizes ! j"
    using gso_loop_right [OF wf s(1,2) n, of 0 inb outBufs sizes off overlap] room ov unfolding s(3) by auto
  have "map (\<lambda>j. drop (hdr_len opt) (take (sizes' ! j) (drop off (outBufs' ! j)))) [0..<n] = map (seg_data opt inb) [0..<n]"
    using r(4) by (intro map_cong) (auto simp: gso_segment_def Let_def)
  moreover have "concat (map (seg_data opt inb) [0..<n]) = drop (hdr_len opt) inb"
    using concat_chunks [of "gso_size opt" "drop (hdr_len opt) inb" n] segments_iff [OF w(8,9), of n] n
    by (simp add: seg_data_def [abs_def])
  ultimately have d: "concat (map (\<lambda>j. drop (hdr_len opt) (take (sizes' ! j) (drop off (outBufs' ! j)))) [0..<n]) = drop (hdr_len opt) inb"
    by (rule subst [OF sym])
  show ?thesis using r d by blast
qed

text \<open>
  C11. \<^verbatim>\<open>GSOSplit\<close> splits a TCP or UDP packet over IPv4 or IPv6 into packets of its own. When the options describe the
  packet and the buffers have room, it fills the first \<open>n\<close> buffers (\<open>n\<close> the number of pieces of the data of at most \<^verbatim>\<open>GSOSize\<close>
  bytes) and their sizes, touches no other buffer, and reports no error. Each packet has its piece of the data, its own lengths, identification,
  sequence number and flags, and checksums that verify; the pieces in their order are the data. This holds as well
  when the packet lies in the first buffer (\<open>overlap\<close>).
\<close>

theorem GSOSplit_segments:
  assumes p: "gso_packet opt v4 tcp inb" and n: "n = segments opt (length inb)"
    and room: "n \<le> length outBufs" "n \<le> length sizes" "\<forall>j < n. off + hdr_len opt + gso_size opt \<le> length (outBufs ! j)"
    and ov: "overlap \<longrightarrow> off + length inb \<le> length (outBufs ! 0) \<and> take (length inb) (drop off (outBufs ! 0)) = inb"
  shows "\<exists>inb' outBufs' sizes'. GSOSplit overlap inb opt outBufs sizes off = Some ((inb', outBufs', sizes'), int n, None) \<and>
    length outBufs' = length outBufs \<and> length sizes' = length sizes \<and>
    (\<forall>j. j < n \<longrightarrow> gso_segment opt v4 tcp inb j (take (sizes' ! j) (drop off (outBufs' ! j)))) \<and>
    concat (map (\<lambda>j. drop (hdr_len opt) (take (sizes' ! j) (drop off (outBufs' ! j)))) [0..<n]) = drop (hdr_len opt) inb \<and>
    (\<forall>j \<ge> n. outBufs' ! j = outBufs ! j \<and> sizes' ! j = sizes ! j)"
  by (rule GSOSplit_right [OF assms])

definition sample_gso :: GSOOptions where
  "sample_gso = \<lparr>o_GSOType = GSOTCPv4, o_HdrLen = 40, o_CsumStart = 20, o_CsumOffset = 16, o_GSOSize = 2, o_NeedsCsum = True\<rparr>"

definition sample_super :: bytes where
  "sample_super = 69 # replicate 31 0 @ 80 # replicate 7 0 @ [1, 2, 3, 4, 5]"

lemma sample_gso_packet: "gso_packet sample_gso True True sample_super" "segments sample_gso (length sample_super) = 3"
  "hdr_len sample_gso = 40" "gso_size sample_gso = 2"
  by (simp_all add: gso_packet_def gso_wf_def net_len_def segments_def sample_gso_def sample_super_def)

theorem GSOSplit_segments_witness:
  "\<exists>inb' outBufs' sizes'. GSOSplit True sample_super sample_gso [sample_super, replicate 42 0, replicate 42 0] [0, 0, 0] 0 =
      Some ((inb', outBufs', sizes'), 3, None) \<and>
    (\<forall>j. j < 3 \<longrightarrow> gso_segment sample_gso True True sample_super j (take (sizes' ! j) (drop 0 (outBufs' ! j))))"
proof -
  have "\<forall>j < 3. 0 + hdr_len sample_gso + gso_size sample_gso \<le> length ([sample_super, replicate 42 0, replicate 42 0] ! j)"
    using sample_gso_packet(3,4) by (simp add: sample_super_def less_Suc_eq numeral_3_eq_3 nth_Cons')
  then show ?thesis
    using GSOSplit_segments [of sample_gso True True sample_super 3 "[sample_super, replicate 42 0, replicate 42 0]" "[0, 0, 0]" 0 True]
      sample_gso_packet(1,2) by fastforce
qed

section \<open>No panic\<close>

lemma unat_plus_le: "unat (a + b :: u16) \<le> unat a + unat b"
  by (simp add: unat_word_ariths)

lemma no_wrap: "unat c \<le> unat (c + d :: u16) \<Longrightarrow> unat (c + d) = unat c + unat d"
proof (rule ccontr)
  assume a: "unat c \<le> unat (c + d)" "unat (c + d) \<noteq> unat c + unat d"
  then have "65536 \<le> unat c + unat d" using unat_plus_small [of c d] by fastforce
  moreover have "unat c + unat d - 65536 < 65536" using unat_u16_less [of c] unat_u16_less [of d] by linarith
  ultimately have "unat (c + d) = unat c + unat d - 65536" using le_mod_geq [of 65536 "unat c + unat d"] by (simp add: unat_word_ariths)
  then show False using a(1) \<open>65536 \<le> unat c + unat d\<close> unat_u16_less [of d] by linarith
qed

lemma segment_ip_total:
  "unat C \<le> length out \<Longrightarrow> (if v4 then 12 else 6) \<le> length out \<Longrightarrow> returns (segment_ip C v4 i t out) (\<lambda>r. length r = length out)"
  by (cases v4) (simp_all add: segment_ip_def Let_def access_defs)

lemma segment_transport_total:
  assumes "csum_start opt + (if tcp then 20 else 8) \<le> length out"
  shows "returns (segment_transport opt tcp s f i fin d out) (\<lambda>r. length r = length out)"
proof -
  have "unat (o_CsumStart opt + 4) \<le> csum_start opt + 4" "unat (o_CsumStart opt + 13) \<le> csum_start opt + 13"
    using unat_plus_le [of "o_CsumStart opt" 4] unat_plus_le [of "o_CsumStart opt" 13] by simp_all
  then show ?thesis using assms by (auto simp: segment_transport_def access_defs split: if_splits)
qed

lemma segment_checksum_total:
  assumes "csum_start opt + unat (o_CsumOffset opt) + 2 \<le> length out" "csum_start opt \<le> t" "t \<le> length out"
  shows "returns (segment_checksum opt tcp base d t out) (\<lambda>r. length r = length out)"
proof -
  have "unat (o_CsumStart opt + o_CsumOffset opt) + 2 \<le> length out" using unat_plus_le [of "o_CsumStart opt" "o_CsumOffset opt"] assms(1) by linarith
  then show ?thesis using assms by (simp add: segment_checksum_def Let_def access_defs)
qed

text \<open>What the loop relies on: the checks before it.\<close>

definition gso_checked :: "GSOOptions \<Rightarrow> bool \<Rightarrow> nat \<Rightarrow> bool" where
  "gso_checked opt tcp n \<longleftrightarrow> csum_start opt + (if tcp then 20 else 8) \<le> hdr_len opt \<and> hdr_len opt \<le> n"

text \<open>
  The room a buffer needs for a segment of a packet of \<open>n\<close> bytes: the headers with the data of a segment, the fields of
  the network header that are rewritten, and the checksum field.
\<close>

definition gso_room :: "GSOOptions \<Rightarrow> nat \<Rightarrow> nat" where
  "gso_room opt n = max (min n (hdr_len opt + gso_size opt)) (max 12 (csum_start opt + unat (o_CsumOffset opt) + 2))"

lemma segment_total:
  assumes c: "gso_checked opt tcp (length inb)" and at: "hdr_len opt \<le> at" "at \<le> e" "e \<le> length inb" "e \<le> at + gso_size opt"
    and out: "gso_room opt (length inb) \<le> length out"
  shows "returns (segment False opt v4 tcp s f base i at e inb out) (\<lambda>r. length r = length out)"
proof -
  let ?H = "hdr_len opt" and ?t = "hdr_len opt + (e - at)"
  have c': "csum_start opt + unat (o_CsumOffset opt) + 2 \<le> length out" "csum_start opt \<le> ?H" "?H \<le> length inb" "?H \<le> length out"
    "(if v4 then 12 else 6) \<le> length out" "csum_start opt + (if tcp then 20 else 8) \<le> length out" "?t \<le> length out"
    using c at out by (auto simp: gso_checked_def gso_room_def split: if_splits)
  let ?o = "put_slice 0 (take ?H inb) out"
  have l: "length ?o = length out" using c' by simp
  obtain r2 where r2: "segment_ip (o_CsumStart opt) v4 i ?t ?o = Some r2" "length r2 = length out"
    using segment_ip_total [of "o_CsumStart opt" ?o v4 i ?t] l c' by (auto simp: returns_iff)
  obtain r3 where r3: "segment_transport opt tcp s f i (e = length inb) (e - at) r2 = Some r3" "length r3 = length out"
    using segment_transport_total [of opt tcp r2 s f i "e = length inb" "e - at"] c' r2(2) by (auto simp: returns_iff)
  let ?d = "take (e - at) (drop at inb)"
  have d: "slice inb at e = Some ?d" "length ?d = e - at" using at by (auto simp: slice_def)
  have "length (put_slice ?H ?d r3) = length out" using d c' r3(2) by simp
  then obtain r where r: "segment_checksum opt tcp base (e - at) ?t (put_slice ?H ?d r3) = Some r" "length r = length out"
    using segment_checksum_total [of opt "put_slice ?H ?d r3" ?t tcp base "e - at"] c' by (auto simp: returns_iff)
  have "segment False opt v4 tcp s f base i at e inb out = Some r"
    unfolding segment_def Let_def using c' r2(1) r3 d r(1) copy_into_put [of ?H ?d r3]
    by (simp add: slice_def copy_into_same)
  then show ?thesis using r(2) by simp
qed

lemma segment_at_total:
  assumes c: "gso_checked opt tcp (length inb)" and at: "hdr_len opt \<le> at" "at < length inb" and i: "i < length outBufs" "i < length sizes"
    and room: "off + gso_room opt (length inb) \<le> length (outBufs ! i)"
  obtains out d where "segment_at False opt v4 tcp s f base off i at (inb, outBufs, sizes) =
      Some (inb, outBufs[i := out], sizes[i := d])" "length out = length (outBufs ! i)" "off + d \<le> length out"
proof -
  let ?e = "min (at + gso_size opt) (length inb)" and ?b = "outBufs ! i"
  have "gso_room opt (length inb) \<le> length (drop off ?b)" using room by simp
  then obtain r where r: "segment False opt v4 tcp s f base i at ?e inb (drop off ?b) = Some r" "length r = length (drop off ?b)"
    using segment_total [OF c at(1), of ?e "drop off ?b" v4 s f base i] at unfolding returns_iff by auto
  have "hdr_len opt + (?e - at) \<le> gso_room opt (length inb)" using at by (auto simp: gso_room_def)
  then show ?thesis
    using that [of "take off ?b @ r" "hdr_len opt + (?e - at)"] r i room
    by (simp add: segment_at_def Let_def store_def elem_def slice_from_def)
qed

lemma gso_loop_total:
  "gso_checked opt tcp (length inb) \<Longrightarrow> hdr_len opt \<le> at \<Longrightarrow> i \<le> length outBufs \<Longrightarrow> 0 < length outBufs \<Longrightarrow> length outBufs \<le> length sizes \<Longrightarrow>
    (\<forall>j < length outBufs. off + gso_room opt (length inb) \<le> length (outBufs ! j)) \<Longrightarrow> (\<forall>j < i. off + sizes ! j \<le> length (outBufs ! j)) \<Longrightarrow>
    returns (gso_loop False opt v4 tcp s f base off i at (inb, outBufs, sizes)) (\<lambda>((inb', outBufs', sizes'), n, err).
      0 \<le> n \<and> n \<le> int (length outBufs') \<and> (\<forall>j < nat n. off + sizes' ! j \<le> length (outBufs' ! j)))"
proof (induction "length outBufs - i" arbitrary: i at outBufs sizes)
  case 0
  then show ?case by (subst gso_loop.simps) auto
next
  case (Suc k)
  show ?case
  proof (cases "at < length inb")
    case False
    then show ?thesis using Suc.prems by (subst gso_loop.simps) simp
  next
    case True
    have i: "i < length outBufs" using Suc(2) by simp
    obtain out d where st: "segment_at False opt v4 tcp s f base off i at (inb, outBufs, sizes) =
      Some (inb, outBufs[i := out], sizes[i := d])" "length out = length (outBufs ! i)" "off + d \<le> length out"
      by (rule segment_at_total [OF Suc.prems(1,2) True i, of sizes off v4 s f base]) (use Suc.prems i in auto)
    have IH: "returns (gso_loop False opt v4 tcp s f base off (i + 1) (at + gso_size opt) (inb, outBufs[i := out], sizes[i := d]))
      (\<lambda>((inb', outBufs', sizes'), n, err). 0 \<le> n \<and> n \<le> int (length outBufs') \<and> (\<forall>j < nat n. off + sizes' ! j \<le> length (outBufs' ! j)))"
      by (rule Suc.hyps(1)) (use Suc(2) Suc.prems i st(2-3) in \<open>auto simp: nth_list_update less_Suc_eq\<close>)
    then show ?thesis using True i st(1) by (subst gso_loop.simps) simp
  qed
qed

lemma copy_single_total:
  assumes "csum_start opt + unat (o_CsumOffset opt) + 1 < length inb" "outBufs \<noteq> []" "sizes \<noteq> []" "off \<le> length (outBufs ! 0)"
  shows "returns (copy_single inb opt outBufs sizes off) (\<lambda>((inb', outBufs', sizes'), n, err).
    0 \<le> n \<and> n \<le> int (length outBufs') \<and> (\<forall>j < nat n. off + sizes' ! j \<le> length (outBufs' ! j)))"
proof -
  have "0 < length outBufs" "0 < length sizes" using assms by simp_all
  then show ?thesis using assms
    by (auto simp: copy_single_def Let_def elem_def store_def access_defs Suc_le_eq)
qed

text \<open>
  The options after \<^verbatim>\<open>handleVirtioRead\<close> has corrected the length of the headers, and the room they ask for: none behind the
  offset when the packet is copied as it is.
\<close>

definition hdr_from_packet :: "GSOOptions \<Rightarrow> bool" where
  "hdr_from_packet opt \<longleftrightarrow> (case o_GSOType opt of GSONone \<Rightarrow> True | GSOUDPL4 \<Rightarrow> o_HdrLen opt = o_CsumStart opt + 8
     | _ \<Rightarrow> \<exists>t. 20 \<le> unat t \<and> unat t \<le> 60 \<and> o_HdrLen opt = o_CsumStart opt + t)"

definition split_room :: "GSOOptions \<Rightarrow> nat \<Rightarrow> nat" where
  "split_room opt n = (if o_GSOType opt = GSONone \<or> n < hdr_len opt + gso_size opt then 0 else gso_room opt n)"

lemma hdr_from_packet_room:
  assumes "hdr_from_packet opt" "o_GSOType opt \<noteq> GSONone" "\<not> o_HdrLen opt < o_CsumStart opt"
  shows "csum_start opt + (if o_GSOType opt = GSOTCPv4 \<or> o_GSOType opt = GSOTCPv6 then 20 else 8) \<le> hdr_len opt"
proof -
  have le: "csum_start opt \<le> hdr_len opt" using assms(3) by (simp add: word_less_nat_alt)
  show ?thesis
  proof (cases "o_GSOType opt = GSOUDPL4")
    case True
    then show ?thesis using assms(1) le no_wrap [of "o_CsumStart opt" 8] by (simp add: hdr_from_packet_def)
  next
    case False
    then obtain t where "20 \<le> unat t" "unat t \<le> 60" "o_HdrLen opt = o_CsumStart opt + t"
      using assms(1,2) by (cases "o_GSOType opt") (auto simp: hdr_from_packet_def)
    then show ?thesis using le no_wrap [of "o_CsumStart opt" t] by simp
  qed
qed

lemma GSOSplit_total:
  assumes u: "hdr_from_packet opt"
    and b: "0 < length outBufs" "length outBufs \<le> length sizes" "\<forall>j < length outBufs. off + split_room opt (length inb) \<le> length (outBufs ! j)"
  shows "returns (GSOSplit False inb opt outBufs sizes off) (\<lambda>((inb', outBufs', sizes'), n, err).
    0 \<le> n \<and> n \<le> int (length outBufs') \<and> (\<forall>j < nat n. off + sizes' ! j \<le> length (outBufs' ! j)))"
proof -
  let ?C = "csum_start opt" and ?tcp = "o_GSOType opt = GSOTCPv4 \<or> o_GSOType opt = GSOTCPv6" and ?v = "drop_bit 4 (inb ! 0)"
  consider "?C + unat (o_CsumOffset opt) + 1 \<ge> length inb \<or> length inb < hdr_len opt"
    | "?C + unat (o_CsumOffset opt) + 1 < length inb" "hdr_len opt \<le> length inb"
        "o_GSOType opt = GSONone \<or> length inb - hdr_len opt < gso_size opt"
    | "?C + unat (o_CsumOffset opt) + 1 < length inb" "hdr_len opt \<le> length inb" "o_GSOType opt \<noteq> GSONone"
        "\<not> length inb - hdr_len opt < gso_size opt" by linarith
  then show ?thesis
  proof cases
    case 2
    moreover have "outBufs \<noteq> []" "sizes \<noteq> []" "off \<le> length (outBufs ! 0)" using b by fastforce+
    ultimately show ?thesis using copy_single_total [of opt inb outBufs sizes off] by (simp add: GSOSplit_def Let_def)
  next
    case 3
    have b0: "byte_at inb 0 = Some (inb ! 0)" using 3 by (auto simp: byte_at_def)
    have room: "split_room opt (length inb) = gso_room opt (length inb)" using 3 by (auto simp: split_room_def)
    have loop: "returns (gso_loop False opt (?v = 4) ?tcp s f base off 0 (hdr_len opt) (inb, outBufs, sizes)) (\<lambda>((inb', outBufs', sizes'), n, err).
        0 \<le> n \<and> n \<le> int (length outBufs') \<and> (\<forall>j < nat n. off + sizes' ! j \<le> length (outBufs' ! j)))"
      if "\<not> o_HdrLen opt < o_CsumStart opt" for s f base
      by (rule gso_loop_total)
        (use b room hdr_from_packet_room [OF u 3(3) that] 3(2) in \<open>auto simp: gso_checked_def\<close>)
    have seq: "\<exists>x. BE_Uint32 inb (unat (o_CsumStart opt + 4)) = Some x" "\<exists>x. byte_at inb (unat (o_CsumStart opt + 13)) = Some x"
      if "\<not> length inb < ?C + 20"
      using that unat_plus_le [of "o_CsumStart opt" 4] unat_plus_le [of "o_CsumStart opt" 13] by (simp_all add: BE_Uint32_def byte_at_def)
    show ?thesis
      unfolding GSOSplit_def Let_def
      using 3 b0 loop seq by (auto simp: returns_if slice_def PseudoHeaderChecksum_Some simp del: split_paired_Ex)
  qed (auto simp: GSOSplit_def Let_def)
qed

lemma transport_HdrLen_from_packet:
  assumes "transport_HdrLen inb opt = Some (Inr opt')"
  shows "hdr_from_packet opt'"
proof (cases "o_GSOType opt = GSONone \<or> o_GSOType opt = GSOUDPL4")
  case False
  then obtain x where x: "\<not> ucast (drop_bit 4 (x :: u8) * 4) < (20 :: u16)" "\<not> ucast (drop_bit 4 x * 4) > (60 :: u16)"
    "opt' = opt\<lparr>o_HdrLen := o_CsumStart opt + ucast (drop_bit 4 x * 4)\<rparr>"
    using assms by (auto simp: transport_HdrLen_def Let_def bind_eq_Some_conv split: if_splits)
  then have "20 \<le> unat (ucast (drop_bit 4 x * 4) :: u16)" "unat (ucast (drop_bit 4 x * 4) :: u16) \<le> 60"
    by (simp_all add: word_less_nat_alt not_less)
  then show ?thesis using x(3) False by (cases "o_GSOType opt") (auto simp: hdr_from_packet_def)
qed (use assms in \<open>auto simp: transport_HdrLen_def hdr_from_packet_def\<close>)

text \<open>The room that the header of a read asks for.\<close>

definition virtio_room :: "bool \<Rightarrow> bytes \<Rightarrow> nat" where
  "virtio_room le inb = (case virtio_decode le inb of Some (Inr hdr) \<Rightarrow>
       (case toGSOOptions hdr of Inr opt \<Rightarrow>
          (case transport_HdrLen (drop 10 inb) opt of Some (Inr opt) \<Rightarrow> split_room opt (length inb - 10) | _ \<Rightarrow> 0)
        | _ \<Rightarrow> 0)
     | _ \<Rightarrow> 0)"

text \<open>
  C12. Reading from the device is safe as long as the segments fit into the buffers. Whatever bytes the kernel delivers (a header
  with any type, lengths and offsets, before any packet), \<^verbatim>\<open>handleVirtioRead\<close> does not panic when the caller passes at least one
  buffer, as many sizes, and, for a packet that is to be split, room behind the offset for the headers with the data of one segment, the
  rewritten fields of the network header and the checksum field as the header of the read gives them. The packets it reports lie within their buffers. A packet
  that is not split needs no room: one that does not fit is an error. The whole packet need not fit into a buffer; \<^verbatim>\<open>batchLoopLinux\<close>
  passes buffers with room for one packet of the device's MTU.
\<close>

theorem handleVirtioRead_safe:
  assumes b: "bufs \<noteq> []" "length bufs \<le> length sizes" "list_all (\<lambda>b. offset + virtio_room le inb \<le> length b) bufs"
  shows "returns (handleVirtioRead le inb bufs sizes offset) (\<lambda>((bufs', sizes'), n, err).
    0 \<le> n \<and> n \<le> int (length bufs') \<and> (\<forall>j. j < nat n \<longrightarrow> offset + sizes' ! j \<le> length (bufs' ! j)))"
proof (cases "length inb < 10")
  case False
  let ?in = "drop 10 inb"
  obtain hdr where hdr: "virtio_decode le inb = Some (Inr hdr)" using False by (simp add: virtio_decode_def slice_def)
  show ?thesis
  proof (cases "toGSOOptions hdr")
    case (Inr opt)
    have "transport_HdrLen ?in opt \<noteq> None" by (simp add: transport_HdrLen_def byte_at_def Let_def)
    then obtain r where r: "transport_HdrLen ?in opt = Some r" by blast
    show ?thesis
    proof (cases r)
      case (Inr opt2)
      have "\<forall>j < length bufs. offset + split_room opt2 (length ?in) \<le> length (bufs ! j)"
        using b(3) hdr \<open>toGSOOptions hdr = Inr opt\<close> r Inr by (simp add: list_all_length virtio_room_def)
      then have "returns (GSOSplit False ?in opt2 bufs sizes offset) (\<lambda>((inb', outBufs', sizes'), n, err).
          0 \<le> n \<and> n \<le> int (length outBufs') \<and> (\<forall>j < nat n. offset + sizes' ! j \<le> length (outBufs' ! j)))"
        using b transport_HdrLen_from_packet r Inr by (intro GSOSplit_total) simp_all
      then show ?thesis using hdr \<open>toGSOOptions hdr = Inr opt\<close> r Inr False
        by (auto simp: handleVirtioRead_def slice_from_def returns_iff)
    qed (use hdr \<open>toGSOOptions hdr = Inr opt\<close> r False in \<open>simp add: handleVirtioRead_def slice_from_def\<close>)
  qed (use hdr False in \<open>simp add: handleVirtioRead_def slice_from_def\<close>)
qed (simp add: handleVirtioRead_def virtio_decode_def)

definition sample_hdr :: virtioNetHdr where
  "sample_hdr = \<lparr>v_flags = 1, v_gsoType = 1, v_hdrLen = 40, v_gsoSize = 2, v_csumStart = 20, v_csumOffset = 16\<rparr>"

definition sample_read :: bytes where
  "sample_read = virtio_bytes True sample_hdr @ sample_super"

lemma sample_read_options:
  "toGSOOptions sample_hdr = Inr sample_gso" "transport_HdrLen sample_super sample_gso = Some (Inr sample_gso)"
  by code_simp+

lemma sample_read_splits:
  "\<exists>m. handleVirtioRead True sample_read (replicate 3 (replicate 44 0)) [0, 0, 0] 2 = Some (m, 3, None)"
proof -
  have "virtio_decode True sample_read = Some (Inr sample_hdr)" "slice_from sample_read 10 = Some sample_super" by code_simp+
  moreover have "\<exists>m. GSOSplit False sample_super sample_gso (replicate 3 (replicate 44 0)) [0, 0, 0] 2 = Some (m, 3, None)"
    using GSOSplit_right [OF sample_gso_packet(1) sample_gso_packet(2) [symmetric], of "replicate 3 (replicate 44 0)" "[0, 0, 0]" 2 False]
      sample_gso_packet(3,4) by auto
  ultimately show ?thesis using sample_read_options by (auto simp: handleVirtioRead_def)
qed

theorem handleVirtioRead_safe_witness:
  "virtio_room True sample_read = 42 \<and>
   (\<exists>m. handleVirtioRead True sample_read (replicate 3 (replicate 44 0)) [0, 0, 0] 2 = Some (m, 3, None)) \<and>
   returns (handleVirtioRead True sample_read (replicate 3 (replicate 44 0)) [0, 0, 0] 2) (\<lambda>((bufs', sizes'), n, err).
     0 \<le> n \<and> n \<le> int (length bufs') \<and> (\<forall>j. j < nat n \<longrightarrow> 2 + sizes' ! j \<le> length (bufs' ! j)))"
proof -
  have r: "virtio_room True sample_read = 42" by code_simp
  then have "returns (handleVirtioRead True sample_read (replicate 3 (replicate 44 0)) [0, 0, 0] 2) (\<lambda>((bufs', sizes'), n, err).
     0 \<le> n \<and> n \<le> int (length bufs') \<and> (\<forall>j. j < nat n \<longrightarrow> 2 + sizes' ! j \<le> length (bufs' ! j)))"
    by (intro handleVirtioRead_safe) (simp_all add: list_all_iff)
  with r sample_read_splits show ?thesis by (intro conjI)
qed

section \<open>Buffers that are too short\<close>

lemma segment_fits:
  assumes "segment here opt v4 tcp s f base i at e inb out = Some r"
  shows "hdr_len opt + (e - at) \<le> length out"
proof -
  obtain h o1 o2 o3 d o4 where o: "copy_into 0 (hdr_len opt) h out = Some o1"
    "segment_ip (o_CsumStart opt) v4 i (hdr_len opt + (e - at)) o1 = Some o2"
    "segment_transport opt tcp s f i (e = length inb) (e - at) o2 = Some o3"
    "copy_into (hdr_len opt) (length o3) d o3 = Some o4"
    "segment_checksum opt tcp base (e - at) (hdr_len opt + (e - at)) o4 = Some r"
    using assms by (auto simp: segment_def Let_def bind_eq_Some_conv)
  have "length o1 = length out" "length o4 = length o3"
    using o(1,4) by (auto simp: copy_into_def on_slice_def slice_def bind_eq_Some_conv split: if_splits)
  moreover have "length o2 = length o1"
    using o(2) by (auto simp: segment_ip_def Let_def bind_eq_Some_conv BE_PutUint16_def set_byte_def split: if_splits)
  moreover have "length o3 = length o2"
    using o(3) by (auto simp: segment_transport_def Let_def bind_eq_Some_conv BE_PutUint16_def BE_PutUint32_def set_byte_def split: if_splits)
  moreover have "hdr_len opt + (e - at) \<le> length o4"
    using o(5) by (auto simp: segment_checksum_def Let_def bind_eq_Some_conv slice_def set_byte_def split: if_splits)
  ultimately show ?thesis by simp
qed

lemma GSOSplit_short:
  assumes p: "gso_packet opt v4 tcp inb" and short: "outBufs \<noteq> []" "length (outBufs ! 0) < off + hdr_len opt + gso_size opt"
  shows "GSOSplit overlap inb opt outBufs sizes off = None"
proof -
  obtain s f base where g: "GSOSplit overlap inb opt outBufs sizes off =
      gso_loop overlap opt v4 tcp s f base off 0 (hdr_len opt) (inb, outBufs, sizes)"
    by (rule GSOSplit_loop [OF p])
  have at: "hdr_len opt < length inb" "hdr_len opt + gso_size opt \<le> length inb"
    using p by (auto simp: gso_packet_def gso_wf_def)
  have "segment_at overlap opt v4 tcp s f base off 0 (hdr_len opt) (inb, outBufs, sizes) = None"
  proof (rule ccontr)
    assume "segment_at overlap opt v4 tcp s f base off 0 (hdr_len opt) (inb, outBufs, sizes) \<noteq> None"
    then obtain r where "off \<le> length (outBufs ! 0)"
      "segment overlap opt v4 tcp s f base 0 (hdr_len opt) (hdr_len opt + gso_size opt) inb (drop off (outBufs ! 0)) = Some r"
      using at(2) by (auto simp: segment_at_def Let_def bind_eq_Some_conv elem_def slice_from_def min_def split: if_splits)
    then show False using segment_fits short(2) by fastforce
  qed
  then show ?thesis using g at(1) short(1) by (subst g, subst gso_loop.simps) simp
qed

text \<open>
  C36. A read with a segment that does not fit panics. When the kernel delivers a packet to be split and the headers with the data of
  one segment are longer than the first buffer behind the offset, \<^verbatim>\<open>handleVirtioRead\<close> panics: \<^verbatim>\<open>GSOSplit\<close> takes slices
  beyond the buffer (of a buffer whose capacity is its length, as \<^verbatim>\<open>batchLoopLinux\<close> allocates them), where its comment speaks of output that is silently truncated.
\<close>

theorem long_segment_panics:
  assumes opts: "toGSOOptions hdr = Inr opt0" "transport_HdrLen p opt0 = Some (Inr opt)"
    and p: "gso_packet opt v4 tcp p" and short: "bufs \<noteq> []" "length (bufs ! 0) < offset + hdr_len opt + gso_size opt"
  shows "handleVirtioRead le (virtio_bytes le hdr @ p) bufs sizes offset = None"
proof -
  have "virtio_decode le (virtio_bytes le hdr @ p) = Some (Inr hdr)"
    by (simp add: virtio_decode_def slice_def virtio_bytes_def virtio16_def of_virtio16_def)
  moreover have "slice_from (virtio_bytes le hdr @ p) 10 = Some p"
    by (simp add: slice_from_def virtio_bytes_def virtio16_def)
  ultimately show ?thesis
    using opts GSOSplit_short [OF p short] by (simp add: handleVirtioRead_def)
qed

theorem long_segment_panics_witness:
  "handleVirtioRead True (virtio_bytes True sample_hdr @ sample_super) [replicate 41 0] [0] 0 = None"
  by (rule long_segment_panics [OF sample_read_options sample_gso_packet(1)]) (simp_all add: sample_gso_packet(3,4))

end
