(* ===== verification/Spec2Isabelle.thy ===== *)
theory Spec2Isabelle
  imports Gtcpip_Checksum TSChecksum Seqnum Tcpip_Addr IPv4_Options Header_UDP TCP_Option_Parse Header_ICMP System_Panic System_Loops NDP_Options Header_Eth GSO_Segments
begin

text \<open>
  A verification development for sing-tun, a Go library that turns the packets of a TUN device into
  TCP and UDP connections of the process that reads it.

  \<^bold>\<open>The program.\<close> A device (\<^verbatim>\<open>tun_linux.go\<close>, \<^verbatim>\<open>tun_darwin.go\<close>, \<^verbatim>\<open>tun_windows.go\<close>) delivers IP packets to a
  stack. The \<^emph>\<open>system stack\<close> (\<^verbatim>\<open>stack_system.go\<close>) lets the operating system speak TCP: it rewrites a packet of a
  client so that it comes from a port of the stack's second address and goes to a listener of the
  stack, remembers the two endpoints of the client under that port (\<^verbatim>\<open>stack_system_nat.go\<close>), gives the
  accepted connection to a handler with the remembered endpoints, and rewrites the packets of the listener
  the other way. UDP datagrams go to the handler directly, with a writer for its answers, and ICMP echo
  requests are answered, routed or rejected. All of this works on headers inside byte slices
  (\<^verbatim>\<open>internal/gtcpip\<close>, from gVisor) and on internet checksums (\<^verbatim>\<open>internal/gtcpip/checksum\<close>,
  \<^verbatim>\<open>internal/tschecksum\<close>).

  \<^bold>\<open>How Go is modelled\<close> (\<open>Go_Prelude\<close>, \<open>Netip\<close>, \<open>Netip_Prefix\<close>). Machine integers are words of their width, so
  that they wrap as in Go. A byte slice is a list; a function that writes to a slice returns it. A write through a
  sub-slice that shares its array with a packet is \<open>on_slice\<close>. A panic (an index or slice out of range) is
  \<open>None\<close>; errors of Go are values. \<open>returns m Q\<close> says that \<open>m\<close> does not panic and that its result
  satisfies \<open>Q\<close>, so that every theorem of that form includes the absence of panics. What is not part of the
  repository is an argument: the record \<open>World\<close> has the clock, fresh buffers of the pool with arbitrary
  contents, the result of writing to the device and the verdict of the handler on direct routes. Points in time are
  integers without a bound, as their differences are far below the range of \<^verbatim>\<open>time.Duration\<close>.

  \<^bold>\<open>Checksums.\<close> \<open>Ones_Complement\<close> has the mathematics of RFC 1071, \<open>Accumulator\<close> the folding of wide sums, and
  \<open>Checksum_Interface\<close> the contract of a routine as a locale. \<open>Gtcpip_Checksum\<close> models
  \<^verbatim>\<open>checksum_unsafe.go\<close> with its alignment to the address of the buffer, for both byte orders, and \<open>TSChecksum\<close>
  the portable routines of \<^verbatim>\<open>internal/tschecksum\<close>; all of them are shown to be the checksum of RFC 1071 and
  interpret the locale.

  \<^bold>\<open>Headers.\<close> \<open>Seqnum\<close> (sequence numbers), \<open>Tcpip_Addr\<close> (addresses, masks and subnets of \<^verbatim>\<open>tcpip.go\<close>),
  \<open>Header_Checksum\<close> (pseudo-header, incremental updates), \<open>Header_IPv4\<close> and \<open>IPv4_Options\<close>,
  \<open>Header_IPv6\<close> and \<open>IPv6_Ext\<close> (fixed header, extension headers, fragments), \<open>Header_UDP\<close>,
  \<open>Header_TCP\<close> and \<open>TCP_Option_Parse\<close>, \<open>Header_ICMP\<close>, \<open>Header_NDP\<close> with \<open>NDP_Names\<close> and
  \<open>NDP_Options\<close> (the options of neighbour discovery, their iterator, domain names and serializer), \<open>Header_Eth\<close>
  (messages of neighbour discovery and Ethernet) follow the files of \<^verbatim>\<open>internal/gtcpip/header\<close>. The lemmas are round trips of encoding and reading, validity checks that make every accessor
  safe, iterators and parsers that end without a panic on any input, and updates that keep a valid checksum valid.
  \<open>Transport_Interface\<close> is the contract of a header whose ports and addresses can be rewritten, a locale
  interpreted by TCP and UDP.

  \<^bold>\<open>The port table.\<close> \<open>TCP_Nat\<close> models \<^verbatim>\<open>stack_system_nat.go\<close> sequentially and shows that it
  refines a partial one-to-one map (\<open>Port_Table\<close>); \<open>Nat_Threads\<close> has the goroutines and locks as a
  step relation over a heap of sessions, with an invariant of all interleavings and the one race there is.

  \<^bold>\<open>The system stack.\<close> \<open>System_Rewrite\<close> has \<^verbatim>\<open>rewriteIPv4TCP\<close> and \<^verbatim>\<open>rewriteIPv6TCP\<close>, \<open>System_TCP\<close> the state of
  the stack, the resets and \<^verbatim>\<open>processIPv4TCP\<close> and \<^verbatim>\<open>processIPv6TCP\<close>; \<open>System_Translate\<close> proves their
  properties once for both families in the locale \<open>tcp_stack\<close>. \<open>System_UDP\<close> and \<open>System_ICMP\<close> model the functions of
  those names, with \<open>Packet_Build\<close> for packets built in fresh buffers. \<open>System_Packet\<close> has
  \<^verbatim>\<open>processPacket\<close>, the accept loops and the four packet loops, and the whole life of a connection; \<open>System_Start\<close>
  has \<^verbatim>\<open>NewSystem\<close> and \<^verbatim>\<open>start\<close> and the invariant of all states that are reached from there by the settings of the
  device, packets, connections and the expiry of sessions, in any order (\<open>stack_state\<close>); \<open>System_Panic\<close> says which
  packets can panic the loop, and \<open>System_Loops\<close> that reading in batches does what reading one by one does.

  \<^bold>\<open>Segmentation.\<close> A device with offload reads large packets with a header of virtio before them. \<open>Tun_GSO\<close> models
  \<^verbatim>\<open>tun_offload.go\<close> and the reading half of \<^verbatim>\<open>tun_offload_linux.go\<close> (\<^verbatim>\<open>GSOSplit\<close>, \<^verbatim>\<open>handleVirtioRead\<close>), with buffers
  that may overlap the packet. \<open>GSO_Segments\<close> shows which segments a packet is cut into, that
  their checksums are right (for IPv4 with any options and IPv6 without extension headers), that no read panics when the
  buffers have room for one segment, and that a longer segment does.

  \<^bold>\<open>Bounds and fuel.\<close> No model runs out of fuel: loops over slices recurse on the slice or on a decreasing
  measure, the allocation of a port tries each of the 55536 ports once, and a loop that runs until the
  device is closed is a function of the finite list of its reads, for any such list.

  \<^bold>\<open>Not modelled.\<close> The devices, monitors, redirection rules and routing tables are calls of
  operating systems; the gVisor and mipstack stacks are adapters of packages outside the repository;
  \<^verbatim>\<open>internal/winipcfg\<close>, \<^verbatim>\<open>internal/winsys\<close> and \<^verbatim>\<open>internal/wintun\<close> are bindings of the Windows API; the assembly of
  \<^verbatim>\<open>internal/tschecksum\<close> is generated. Logging and the release of pooled buffers have no effect on
  the model.
\<close>

end
